(* ===== verification/Prelude.thy ===== *)
theory Prelude
  imports Main "HOL-Library.Word" "HOL-Library.Char_ord"
begin

section \<open>Shared vocabulary\<close>

text \<open>
  Types, list operations and theorem collections that every component uses.
  A Go byte is a HOL \<open>char\<close> (both have eight bits), so a Go \<open>string\<close> and the contents of a
  \<open>[]byte\<close> are both a \<open>char list\<close>; where the code tells a nil slice from an empty one the
  model uses \<open>bytes option\<close>. A Go \<open>int\<close>, \<open>int64\<close> or \<open>time.Duration\<close> is an \<open>int\<close> whose
  wrap-around at 64 bits is written out with \<open>wrap64\<close> where the code can overflow.
\<close>

type_synonym byte = char
type_synonym bytes = "char list"

abbreviation CR :: byte where "CR \<equiv> CHR 0x0D"
abbreviation LF :: byte where "LF \<equiv> CHR 0x0A"

abbreviation CRLF :: bytes where "CRLF \<equiv> [CHR 0x0D, CHR 0x0A]"

text \<open>Equations that evaluate a component's operation on a decided branch.\<close>

named_theorems go_eval

text \<open>Facts saying that an operation keeps the invariant of its state.\<close>

named_theorems inv_preserved

subsection \<open>Signed 64-bit integers\<close>

definition wrap64 :: "int \<Rightarrow> int" where
  "wrap64 x = (x + 2 ^ 63) mod 2 ^ 64 - 2 ^ 63"

definition int64 :: "int \<Rightarrow> bool" where
  "int64 x \<longleftrightarrow> - (2 ^ 63) \<le> x \<and> x < 2 ^ 63"

lemma wrap64_id [simp]: "int64 x \<Longrightarrow> wrap64 x = x"
  by (simp add: wrap64_def int64_def)

lemma int64_wrap64 [simp]: "int64 (wrap64 x)"
proof -
  have "(x + 2 ^ 63) mod 2 ^ 64 < (2 ^ 64 :: int)" and "0 \<le> (x + 2 ^ 63) mod (2 ^ 64 :: int)"
    by simp_all
  then show ?thesis unfolding wrap64_def int64_def by simp
qed

lemma wrap64_add_left [simp]: "wrap64 (wrap64 x + y) = wrap64 (x + y)"
  by (simp add: wrap64_def algebra_simps mod_simps)

lemma wrap64_add_right [simp]: "wrap64 (x + wrap64 y) = wrap64 (x + y)"
  by (simp add: wrap64_def algebra_simps mod_simps)

lemma wrap64_diff_left [simp]: "wrap64 (wrap64 x - y) = wrap64 (x - y)"
  using wrap64_add_left [of x "- y"] by simp

lemma int64_mono: "int64 x \<Longrightarrow> 0 \<le> y \<Longrightarrow> y \<le> x \<Longrightarrow> int64 y"
  by (simp add: int64_def)

text \<open>Go's integer division and remainder truncate towards zero.\<close>

definition go_div :: "int \<Rightarrow> int \<Rightarrow> int" where
  "go_div a b = sgn a * sgn b * (\<bar>a\<bar> div \<bar>b\<bar>)"

definition go_mod :: "int \<Rightarrow> int \<Rightarrow> int" where
  "go_mod a b = a - go_div a b * b"

lemma go_div_nonneg [simp]: "0 \<le> a \<Longrightarrow> 0 < b \<Longrightarrow> go_div a b = a div b"
  by (cases "a = 0") (simp_all add: go_div_def)

lemma go_mod_nonneg [simp]: "0 \<le> a \<Longrightarrow> 0 < b \<Longrightarrow> go_mod a b = a mod b"
  by (simp add: go_mod_def minus_div_mult_eq_mod)

lemma go_div_minus [simp]: "go_div (- a) b = - go_div a b"
  by (simp add: go_div_def)

subsection \<open>Lists\<close>

text \<open>\<open>copy(dst[i:], src)\<close> for a source that fits.\<close>

definition overwrite :: "'a list \<Rightarrow> nat \<Rightarrow> 'a list \<Rightarrow> 'a list" where
  "overwrite xs i ys = take i xs @ ys @ drop (i + length ys) xs"

lemma length_overwrite [simp]: "i + length ys \<le> length xs \<Longrightarrow> length (overwrite xs i ys) = length xs"
  by (simp add: overwrite_def)

lemma take_overwrite: "i \<le> length xs \<Longrightarrow> take (i + length ys) (overwrite xs i ys) = take i xs @ ys"
  by (simp add: overwrite_def)

lemma take_overwrite_0: "take (length ys) (overwrite xs 0 ys) = ys"
  by (simp add: overwrite_def)

text \<open>\<open>bytes.IndexByte\<close>: the index of the first occurrence, \<open>None\<close> for Go's \<open>-1\<close>.\<close>

fun index_byte :: "byte \<Rightarrow> bytes \<Rightarrow> nat option" where
  "index_byte c [] = None"
| "index_byte c (x # xs) = (if x = c then Some 0 else map_option Suc (index_byte c xs))"

lemma index_byte_None: "index_byte c xs = None \<longleftrightarrow> c \<notin> set xs"
  by (induction xs) auto

lemma index_byte_notin [simp]: "c \<notin> set xs \<Longrightarrow> index_byte c xs = None"
  by (simp add: index_byte_None)

lemma index_byte_SomeD:
  "index_byte c xs = Some i \<Longrightarrow> i < length xs \<and> xs ! i = c \<and> c \<notin> set (take i xs)"
proof (induction xs arbitrary: i)
  case Nil
  then show ?case by simp
next
  case (Cons x xs)
  then show ?case by (cases i) (auto split: if_splits)
qed

lemma index_byte_append:
  "index_byte c (xs @ ys) =
     (if c \<in> set xs then index_byte c xs else map_option (\<lambda>i. length xs + i) (index_byte c ys))"
proof (induction xs)
  case Nil
  then show ?case by (cases "index_byte c ys") auto
next
  case (Cons x xs)
  then show ?case by (cases "index_byte c ys") auto
qed

lemma index_byte_at: "c \<notin> set xs \<Longrightarrow> index_byte c (xs @ c # ys) = Some (length xs)"
  by (simp add: index_byte_append)

lemma index_byte_take:
  "index_byte c (take n xs) = (case index_byte c xs of None \<Rightarrow> None | Some i \<Rightarrow> if i < n then Some i else None)"
proof (induction xs arbitrary: n)
  case Nil
  then show ?case by simp
next
  case (Cons x xs)
  show ?case
  proof (cases n)
    case 0
    then show ?thesis by (auto split: option.splits)
  next
    case (Suc m)
    with Cons.IH [of m] show ?thesis by (auto split: option.splits)
  qed
qed

text \<open>\<open>strings.HasPrefix\<close> and \<open>bytes.HasPrefix\<close>.\<close>

definition has_prefix :: "'a list \<Rightarrow> 'a list \<Rightarrow> bool" where
  "has_prefix s p \<longleftrightarrow> take (length p) s = p"

lemma has_prefix_append [simp]: "has_prefix (p @ s) p"
  by (simp add: has_prefix_def)

lemma take_Suc_index: "index_byte c xs = Some i \<Longrightarrow> take (Suc i) xs = take i xs @ [c]"
  by (drule index_byte_SomeD) (simp add: take_Suc_conv_app_nth)

text \<open>The pieces of a list between the occurrences of a separator, empty ones included.\<close>

fun split_on :: "'a \<Rightarrow> 'a list \<Rightarrow> 'a list list" where
  "split_on c [] = [[]]"
| "split_on c (x # xs) =
     (if x = c then [] # split_on c xs
      else (case split_on c xs of [] \<Rightarrow> [[x]] | w # ws \<Rightarrow> (x # w) # ws))"

lemma split_on_not_Nil [simp]: "split_on c xs \<noteq> []"
  by (cases xs) (auto split: list.split)

lemma split_on_none [simp]: "c \<notin> set w \<Longrightarrow> split_on c w = [w]"
  by (induction w) auto

lemma split_on_at: "c \<notin> set w \<Longrightarrow> split_on c (w @ c # rest) = w # split_on c rest"
  by (induction w) auto

lemma split_on_no_sep: "w \<in> set (split_on c xs) \<Longrightarrow> c \<notin> set w"
  by (induction xs arbitrary: w) (auto split: if_splits list.splits)

subsection \<open>Maps\<close>

text \<open>The fold of a state update over a Go map visits its keys in some order.\<close>

definition map_order :: "('k \<rightharpoonup> 'v) \<Rightarrow> 'k list \<Rightarrow> bool" where
  "map_order m ks \<longleftrightarrow> distinct ks \<and> set ks = dom m"

lemma map_orderD: "map_order m ks \<Longrightarrow> k \<in> set ks \<Longrightarrow> \<exists>v. m k = Some v"
  by (auto simp: map_order_def)

lemma map_order_distinct: "map_order m ks \<Longrightarrow> distinct ks"
  by (simp add: map_order_def)

subsection \<open>Transition systems\<close>

text \<open>
  The components that run concurrently are step relations. What holds at the start and is kept
  by every step holds in every reachable state.
\<close>

locale trans_sys =
  fixes start :: "'s \<Rightarrow> bool" and step :: "'s \<Rightarrow> 's \<Rightarrow> bool" and inv :: "'s \<Rightarrow> bool"
  assumes start_inv: "start s \<Longrightarrow> inv s"
    and step_inv: "step s s' \<Longrightarrow> inv s \<Longrightarrow> inv s'"
begin

definition reachable :: "'s \<Rightarrow> bool" where
  "reachable s \<longleftrightarrow> (\<exists>s0. start s0 \<and> step\<^sup>*\<^sup>* s0 s)"

lemma steps_inv: "step\<^sup>*\<^sup>* s s' \<Longrightarrow> inv s \<Longrightarrow> inv s'"
  by (induction rule: rtranclp_induct) (auto intro: step_inv)

lemma reach_inv: "start s0 \<Longrightarrow> step\<^sup>*\<^sup>* s0 s \<Longrightarrow> inv s"
  using steps_inv start_inv by blast

lemma reachable_inv: "reachable s \<Longrightarrow> inv s"
  unfolding reachable_def using reach_inv by blast

end

text \<open>
  A system whose steps, under its invariant, are steps of a smaller one on what \<open>abs\<close> sees: so are
  its runs.
\<close>

locale refinement = trans_sys start step inv
  for start :: "'s \<Rightarrow> bool" and step :: "'s \<Rightarrow> 's \<Rightarrow> bool" and inv :: "'s \<Rightarrow> bool" +
  fixes lstep :: "'l \<Rightarrow> 's \<Rightarrow> 's \<Rightarrow> bool" and spec :: "'l \<Rightarrow> 'a \<Rightarrow> 'a \<Rightarrow> bool" and abs :: "'s \<Rightarrow> 'a"
  assumes step_label: "step s s' \<Longrightarrow> \<exists>l. lstep l s s'"
    and simulates: "step s s' \<Longrightarrow> lstep l s s' \<Longrightarrow> inv s \<Longrightarrow> spec l (abs s) (abs s')"
begin

lemma step_refines: "start s0 \<Longrightarrow> step\<^sup>*\<^sup>* s0 s \<Longrightarrow> step s s' \<Longrightarrow> lstep l s s' \<Longrightarrow> spec l (abs s) (abs s')"
  using simulates reach_inv by blast

lemma run_refines: "step\<^sup>*\<^sup>* s0 s \<Longrightarrow> start s0 \<Longrightarrow> (\<lambda>a b. \<exists>l. spec l a b)\<^sup>*\<^sup>* (abs s0) (abs s)"
proof (induction rule: rtranclp_induct)
  case base
  then show ?case by blast
next
  case (step s s')
  obtain l where "lstep l s s'" using step_label step.hyps(2) by blast
  then have "\<exists>l. spec l (abs s) (abs s')" using step_refines step.prems step.hyps by blast
  with step.IH [OF step.prems] show ?case by (rule rtranclp.rtrancl_into_rtrancl)
qed

end

end
