(* ===== verification/GoErrors.thy ===== *)
theory GoErrors
  imports Prelude
begin

section \<open>Errors, traced errors and clamping helpers\<close>

text \<open>
  Models \<open>pkg/utils/errors/errors.go\<close>, \<open>pkg/utils/math2/math.go\<close> and the atomic integers and
  flags of \<open>pkg/utils/sync2/atomic2\<close>.
  A Go error is a pointer; the package-level error variables of the program and of the library
  packages it uses are the constructors of \<open>errvar\<close>, every other error is known by its text.
  \<open>TracedError\<close> wraps a cause; the recorded stack is for logs only and is left out.
\<close>

subsection \<open>Error values\<close>

datatype errvar =
    EOF | ErrUnexpectedEOF | ErrNoProgress | ErrShortWrite | ErrBufferFull
  | ErrBadCRLFEnd | ErrBadArrayLen | ErrBadArrayLenTooLong
  | ErrBadBulkBytesLen | ErrBadBulkBytesLenTooLong | ErrBadMultiBulkLen | ErrBadMultiBulkContent
  | ErrFailedDecoder | ErrFailedEncoder
  | ErrBadMultiBulk | ErrBadOpStrLen
  | ErrRouterNotOnline | ErrTooManySessions | ErrTooManyPipelinedRequests
  | ErrSlotIsNotReady | ErrBackendConnReset | ErrRequestIsBroken
  | ErrZoneIsNotConfig | ErrRespIsRequired | ErrZoneIsNotMatch | ErrClosedRouter
  | ErrGetconn | ErrGetMaster | ErrGetMasterZoro
  | ErrTransCommit | ErrTransCmptCheck | ErrTransCmptExec
  | ErrClosedProxy | ErrClosedPool | ErrBadByteSize | ErrBadByteSizeUnit | ErrBadTimeSize | ErrClosedRollingFile

datatype numerr = ErrSyntax | ErrRange

datatype goerror =
    ErrVar errvar
  | NumError string numerr
  | ErrNew string
  | TracedError goerror

text \<open>
  \<open>error.Error()\<close>. How the library packages word their own errors is the parameter \<open>txt\<close>;
  a traced error has the text of its cause.
\<close>

fun error_text :: "(goerror \<Rightarrow> string) \<Rightarrow> goerror \<Rightarrow> string" where
  "error_text txt (TracedError e) = error_text txt e"
| "error_text txt (ErrNew s) = s"
| "error_text txt e = txt e"

definition Trace :: "goerror \<Rightarrow> goerror" where
  "Trace e = (case e of TracedError c \<Rightarrow> TracedError c | _ \<Rightarrow> TracedError e)"

definition TraceOpt :: "goerror option \<Rightarrow> goerror option" where
  "TraceOpt err = (case err of None \<Rightarrow> None | Some e \<Rightarrow> Some (Trace e))"

definition Errorf :: "string \<Rightarrow> goerror" where
  "Errorf s = TracedError (ErrNew s)"

fun Cause :: "goerror \<Rightarrow> goerror" where
  "Cause (TracedError e) = Cause e"
| "Cause e = e"

definition CauseOpt :: "goerror option \<Rightarrow> goerror option" where
  "CauseOpt err = map_option Cause err"

definition EqualErr :: "(goerror \<Rightarrow> string) \<Rightarrow> goerror option \<Rightarrow> goerror option \<Rightarrow> bool" where
  "EqualErr txt err1 err2 =
     (case (CauseOpt err1, CauseOpt err2) of
        (Some e1, Some e2) \<Rightarrow> e1 = e2 \<or> error_text txt e1 = error_text txt e2
      | (e1, e2) \<Rightarrow> e1 = e2)"

definition NotEqualErr :: "(goerror \<Rightarrow> string) \<Rightarrow> goerror option \<Rightarrow> goerror option \<Rightarrow> bool" where
  "NotEqualErr txt err1 err2 = (\<not> EqualErr txt err1 err2)"

lemma Cause_not_traced: "Cause e \<noteq> TracedError c"
  by (induction e) auto

lemma Cause_Trace [simp]: "Cause (Trace e) = Cause e"
  by (cases e) (simp_all add: Trace_def)

lemma Cause_idem [simp]: "Cause (Cause e) = Cause e"
  by (induction e) auto

lemma Trace_traced [simp]: "Trace (TracedError e) = TracedError e"
  by (simp add: Trace_def)

lemma Trace_idem [simp]: "Trace (Trace e) = Trace e"
  by (cases e) (simp_all add: Trace_def)

lemma error_text_Trace [simp]: "error_text txt (Trace e) = error_text txt e"
  by (cases e) (simp_all add: Trace_def)

lemma error_text_Cause [simp]: "error_text txt (Cause e) = error_text txt e"
  by (induction e) auto

lemma Trace_ErrVar [simp]: "Trace (ErrVar v) = TracedError (ErrVar v)"
  by (simp add: Trace_def)

lemma TraceOpt_None [simp]: "TraceOpt None = None"
  and TraceOpt_Some [simp]: "TraceOpt (Some e) = Some (Trace e)"
  by (simp_all add: TraceOpt_def)

text \<open>
  Two non-nil errors are equal exactly when their texts are: pointer equality of the causes is
  subsumed, and tracing is invisible.
\<close>

lemma EqualErr_Some: "EqualErr txt (Some a) (Some b) \<longleftrightarrow> error_text txt a = error_text txt b"
proof -
  have "Cause a = Cause b \<Longrightarrow> error_text txt a = error_text txt b"
    by (metis error_text_Cause)
  then show ?thesis by (auto simp: EqualErr_def CauseOpt_def)
qed

lemma EqualErr_nil: "EqualErr txt None e \<longleftrightarrow> e = None" "EqualErr txt e None \<longleftrightarrow> e = None"
  by (cases e; simp add: EqualErr_def CauseOpt_def)+

lemma EqualErr_cases:
  "EqualErr txt a b \<longleftrightarrow> map_option (error_text txt) a = map_option (error_text txt) b"
  by (cases a; cases b) (simp_all add: EqualErr_Some EqualErr_nil)

subsection \<open>math2\<close>

definition MaxInt :: "int \<Rightarrow> int \<Rightarrow> int" where
  "MaxInt a b = (if a > b then a else b)"

definition MinInt :: "int \<Rightarrow> int \<Rightarrow> int" where
  "MinInt a b = (if a < b then a else b)"

text \<open>\<open>None\<close> is the panic for an empty range.\<close>

definition MinMaxInt :: "int \<Rightarrow> int \<Rightarrow> int \<Rightarrow> int option" where
  "MinMaxInt v lo hi =
     (if lo \<le> hi then (let v1 = MaxInt v lo; v2 = MinInt v1 hi in Some v2) else None)"

definition MaxDuration :: "int \<Rightarrow> int \<Rightarrow> int" where
  "MaxDuration a b = (if a > b then a else b)"

definition MinDuration :: "int \<Rightarrow> int \<Rightarrow> int" where
  "MinDuration a b = (if a < b then a else b)"

definition MinMaxDuration :: "int \<Rightarrow> int \<Rightarrow> int \<Rightarrow> int option" where
  "MinMaxDuration v lo hi =
     (if lo \<le> hi then (let v1 = MaxDuration v lo; v2 = MinDuration v1 hi in Some v2) else None)"

lemma MaxInt_max [simp]: "MaxInt a b = max a b"
  by (simp add: MaxInt_def)

lemma MinInt_min [simp]: "MinInt a b = min a b"
  by (auto simp: MinInt_def)

lemma MaxDuration_max [simp]: "MaxDuration a b = max a b"
  by (simp add: MaxDuration_def)

lemma MinDuration_min [simp]: "MinDuration a b = min a b"
  by (auto simp: MinDuration_def)

lemma MinMaxInt_clamp: "lo \<le> hi \<Longrightarrow> MinMaxInt v lo hi = Some (min (max v lo) hi)"
  by (simp add: MinMaxInt_def)

lemma MinMaxInt_bounds: "MinMaxInt v lo hi = Some w \<Longrightarrow> lo \<le> w \<and> w \<le> hi"
  by (auto simp: MinMaxInt_def split: if_splits)

subsection \<open>atomic2\<close>

text \<open>
  Each method of \<open>atomic2.Int64\<close> is one atomic step: the old value in, the result and the new
  value out.
\<close>

definition CompareAndSwap :: "int \<Rightarrow> int \<Rightarrow> int \<Rightarrow> bool \<times> int" where
  "CompareAndSwap a old new = (if a = old then (True, new) else (False, a))"

definition SwapInt64 :: "int \<Rightarrow> int \<Rightarrow> int \<times> int" where
  "SwapInt64 a v = (a, v)"

definition AddInt64 :: "int \<Rightarrow> int \<Rightarrow> int \<times> int" where
  "AddInt64 a v = (wrap64 (a + v), wrap64 (a + v))"

definition SubInt64 :: "int \<Rightarrow> int \<Rightarrow> int \<times> int" where
  "SubInt64 a v = AddInt64 a (wrap64 (- v))"

definition IncrInt64 :: "int \<Rightarrow> int \<times> int" where
  "IncrInt64 a = AddInt64 a 1"

definition DecrInt64 :: "int \<Rightarrow> int \<times> int" where
  "DecrInt64 a = AddInt64 a (-1)"

definition toInt64 :: "bool \<Rightarrow> int" where
  "toInt64 v = (if v then 1 else 0)"

definition BoolIsTrue :: "int \<Rightarrow> bool" where
  "BoolIsTrue c = (c \<noteq> 0)"

definition BoolIsFalse :: "int \<Rightarrow> bool" where
  "BoolIsFalse c = (c = 0)"

definition SetBool :: "bool \<Rightarrow> int \<Rightarrow> int" where
  "SetBool v c = toInt64 v"

definition CompareAndSwapBool :: "int \<Rightarrow> bool \<Rightarrow> bool \<Rightarrow> bool \<times> int" where
  "CompareAndSwapBool c old new = CompareAndSwap c (toInt64 old) (toInt64 new)"

definition SwapBool :: "int \<Rightarrow> bool \<Rightarrow> bool \<times> int" where
  "SwapBool c v = (case SwapInt64 c (toInt64 v) of (old, c') \<Rightarrow> (old \<noteq> 0, c'))"

text \<open>A flag that was only ever set through these is what was set, and swapping gives it back.\<close>

lemma Bool_reads: "BoolIsTrue (SetBool v c) = v" "SwapBool (toInt64 u) v = (u, toInt64 v)"
  "CompareAndSwapBool (toInt64 u) old new = (u = old, toInt64 (if u = old then new else u))"
  by (cases u; cases old; cases v; simp add: BoolIsTrue_def SetBool_def SwapBool_def SwapInt64_def CompareAndSwapBool_def CompareAndSwap_def toInt64_def)+

lemma Sub_undoes_Add: "int64 a \<Longrightarrow> snd (SubInt64 (snd (AddInt64 a v)) v) = a"
  by (simp add: SubInt64_def AddInt64_def)

lemma Decr_undoes_Incr: "int64 a \<Longrightarrow> snd (DecrInt64 (snd (IncrInt64 a))) = a"
  by (simp add: DecrInt64_def IncrInt64_def AddInt64_def)

lemma Bool_roundtrip [simp]: "BoolIsTrue (toInt64 v) = v" "BoolIsFalse (toInt64 v) = (\<not> v)"
  by (simp_all add: BoolIsTrue_def BoolIsFalse_def toInt64_def)

end
