(* ===== verification/Strconv.thy ===== *)
theory Strconv
  imports GoErrors
begin

section \<open>Decimal text of integers\<close>

text \<open>
  The part of Go's \<open>strconv\<close> that the program calls (\<open>ParseInt(s, 10, 64)\<close>, \<open>FormatInt(i, 10)\<close>,
  \<open>Itoa\<close>), and the two routines of \<open>pkg/proxy/redis\<close> that replace it on the hot path: \<open>Btoi64\<close>
  of \<open>decoder.go\<close>, with its fast loop for short texts, and \<open>itoa\<close> of \<open>encoder.go\<close>, with its table
  of small integers. Both are proved equal to the library function they stand for.
\<close>

subsection \<open>Digits\<close>

definition is_digit :: "byte \<Rightarrow> bool" where
  "is_digit c \<longleftrightarrow> CHR ''0'' \<le> c \<and> c \<le> CHR ''9''"

definition digit_val :: "byte \<Rightarrow> int" where
  "digit_val c = of_char c - of_char (CHR ''0'')"

definition digit_char :: "nat \<Rightarrow> byte" where
  "digit_char n = char_of (48 + n)"

lemma less_eq_char_of_nat: "c \<le> d \<longleftrightarrow> (of_char c :: nat) \<le> of_char d"
  by (simp add: less_eq_char_def)

lemma is_digit_iff: "is_digit c \<longleftrightarrow> 48 \<le> (of_char c :: nat) \<and> (of_char c :: nat) \<le> 57"
  by (simp add: is_digit_def less_eq_char_of_nat)

lemma digit_val_nat: "digit_val c = int (of_char c) - 48"
  by (simp add: digit_val_def of_nat_of_char)

lemma digit_val_bounds: "is_digit c \<Longrightarrow> 0 \<le> digit_val c \<and> digit_val c \<le> 9"
  by (simp add: is_digit_iff digit_val_nat)

lemma of_char_digit_char: "n < 10 \<Longrightarrow> (of_char (digit_char n) :: nat) = 48 + n"
  by (simp add: digit_char_def)

lemma is_digit_digit_char [simp]: "n < 10 \<Longrightarrow> is_digit (digit_char n)"
  by (simp add: is_digit_iff of_char_digit_char)

lemma digit_val_digit_char [simp]: "n < 10 \<Longrightarrow> digit_val (digit_char n) = int n"
  by (simp add: digit_val_nat of_char_digit_char)

lemma not_digit_signs [simp]:
  "\<not> is_digit (CHR ''-'')" "\<not> is_digit (CHR ''+'')" "\<not> is_digit CR" "\<not> is_digit LF" "\<not> is_digit (CHR '' '')"
  by (simp_all add: is_digit_iff)

lemma digit_char_table: "map digit_char [0, 1, 2, 3, 4, 5, 6, 7, 8, 9] = ''0123456789''"
  by code_simp

lemma digit_char_eval [simp]:
  "digit_char 0 = CHR ''0''" "digit_char (Suc 0) = CHR ''1''" "digit_char 2 = CHR ''2''" "digit_char 3 = CHR ''3''"
  "digit_char 4 = CHR ''4''" "digit_char 5 = CHR ''5''" "digit_char 6 = CHR ''6''" "digit_char 7 = CHR ''7''"
  "digit_char 8 = CHR ''8''" "digit_char 9 = CHR ''9''"
  using digit_char_table by simp_all

subsection \<open>FormatInt\<close>

fun nat_digits :: "nat \<Rightarrow> string" where
  "nat_digits n = (if n < 10 then [digit_char n] else nat_digits (n div 10) @ [digit_char (n mod 10)])"

declare nat_digits.simps [simp del]

definition FormatInt :: "int \<Rightarrow> string" where
  "FormatInt i = (if i < 0 then CHR ''-'' # nat_digits (nat (- i)) else nat_digits (nat i))"

lemma nat_digits_all: "list_all is_digit (nat_digits n)"
proof (induction n rule: nat_digits.induct)
  case (1 n)
  then show ?case by (subst nat_digits.simps) auto
qed

lemma nat_digits_not_Nil [simp]: "nat_digits n \<noteq> []"
  by (subst nat_digits.simps) simp

lemma length_nat_digits: "n < 10 ^ Suc k \<Longrightarrow> length (nat_digits n) \<le> Suc k"
proof (induction k arbitrary: n)
  case 0
  then show ?case by (subst nat_digits.simps) simp
next
  case (Suc k)
  show ?case
  proof (cases "n < 10")
    case True
    then show ?thesis by (subst nat_digits.simps) simp
  next
    case False
    from Suc.prems have "n div 10 < 10 ^ Suc k" by auto
    then have "length (nat_digits (n div 10)) \<le> Suc k" by (rule Suc.IH)
    with False show ?thesis by (subst nat_digits.simps) simp
  qed
qed

lemma FormatInt_not_Nil [simp]: "FormatInt i \<noteq> []"
  by (simp add: FormatInt_def)

lemma FormatInt_chars: "c \<in> set (FormatInt i) \<Longrightarrow> c = CHR ''-'' \<or> is_digit c"
  using nat_digits_all by (auto simp: FormatInt_def list_all_iff split: if_splits)

lemma FormatInt_no_LF: "LF \<notin> set (FormatInt i)"
  using FormatInt_chars [of LF i] by auto

lemma FormatInt_no_CR: "CR \<notin> set (FormatInt i)"
  using FormatInt_chars [of CR i] by auto

lemma length_FormatInt: "0 \<le> i \<Longrightarrow> i < 10 ^ Suc k \<Longrightarrow> length (FormatInt i) \<le> Suc k"
proof -
  assume a: "0 \<le> i" "i < 10 ^ Suc k"
  then have "nat i < nat (10 ^ Suc k)" by (simp only: nat_less_eq_zless)
  then have "nat i < 10 ^ Suc k" by (simp only: nat_power_eq nat_numeral)
  then show ?thesis using a length_nat_digits [of "nat i" k] by (simp add: FormatInt_def)
qed

subsection \<open>ParseInt\<close>

text \<open>The unsigned loop stops at the first byte that is not a digit, or once the value leaves 64 bits.\<close>

fun ParseUint_loop :: "int \<Rightarrow> string \<Rightarrow> numerr + int" where
  "ParseUint_loop n [] = Inr n"
| "ParseUint_loop n (c # cs) =
     (if \<not> is_digit c then Inl ErrSyntax
      else if n * 10 + digit_val c > 2 ^ 64 - 1 then Inl ErrRange
      else ParseUint_loop (n * 10 + digit_val c) cs)"

definition ParseUint :: "string \<Rightarrow> numerr + int" where
  "ParseUint s = (if s = [] then Inl ErrSyntax else ParseUint_loop 0 s)"

definition ParseInt :: "string \<Rightarrow> numerr + int" where
  "ParseInt s =
     (case s of [] \<Rightarrow> Inl ErrSyntax
      | c # cs \<Rightarrow>
          (let neg = (c = CHR ''-''); t = (if c = CHR ''+'' \<or> c = CHR ''-'' then cs else s) in
           case ParseUint t of
             Inl e \<Rightarrow> Inl e
           | Inr un \<Rightarrow>
               if \<not> neg \<and> un \<ge> 2 ^ 63 then Inl ErrRange
               else if neg \<and> un > 2 ^ 63 then Inl ErrRange
               else Inr (if neg then - un else un)))"

definition Itoa :: "int \<Rightarrow> string" where
  "Itoa i = FormatInt i"

text \<open>The value of a digit string, as the loop accumulates it.\<close>

definition digits_val :: "int \<Rightarrow> string \<Rightarrow> int" where
  "digits_val n s = foldl (\<lambda>a c. a * 10 + digit_val c) n s"

lemma digits_val_Nil [simp]: "digits_val n [] = n"
  and digits_val_Cons [simp]: "digits_val n (c # cs) = digits_val (n * 10 + digit_val c) cs"
  and digits_val_snoc [simp]: "digits_val n (cs @ [c]) = digits_val n cs * 10 + digit_val c"
  by (simp_all add: digits_val_def)

lemma digits_val_mono: "list_all is_digit s \<Longrightarrow> 0 \<le> n \<Longrightarrow> n \<le> digits_val n s"
proof (induction s arbitrary: n)
  case Nil
  then show ?case by simp
next
  case (Cons c cs)
  then have "0 \<le> digit_val c" using digit_val_bounds by simp
  then have "n \<le> n * 10 + digit_val c" using Cons.prems by simp
  also have "\<dots> \<le> digits_val (n * 10 + digit_val c) cs"
    using Cons.prems \<open>0 \<le> digit_val c\<close> by (intro Cons.IH) auto
  finally show ?case by simp
qed

lemma digits_val_nat_digits: "digits_val 0 (nat_digits n) = int n"
proof (induction n rule: nat_digits.induct)
  case (1 n)
  show ?case
  proof (cases "n < 10")
    case True
    then show ?thesis by (subst nat_digits.simps) simp
  next
    case False
    with 1 have "digits_val 0 (nat_digits (n div 10)) = int (n div 10)" by simp
    moreover have "int (n div 10) * 10 + int (n mod 10) = int n"
      by (metis div_mult_mod_eq of_nat_add of_nat_mult of_nat_numeral)
    ultimately show ?thesis using False by (subst nat_digits.simps) simp
  qed
qed

lemma ParseUint_loop_ok:
  "list_all is_digit s \<Longrightarrow> 0 \<le> n \<Longrightarrow> digits_val n s < 2 ^ 64 \<Longrightarrow> ParseUint_loop n s = Inr (digits_val n s)"
proof (induction s arbitrary: n)
  case Nil
  then show ?case by simp
next
  case (Cons c cs)
  let ?m = "n * 10 + digit_val c"
  have c: "is_digit c" and cs: "list_all is_digit cs" using Cons.prems by auto
  then have m: "0 \<le> ?m" using Cons.prems digit_val_bounds by simp
  then have "?m \<le> digits_val ?m cs" using cs by (rule digits_val_mono [rotated])
  then have "?m < 2 ^ 64" using Cons.prems by simp
  then show ?case using c cs m Cons.prems by (simp add: Cons.IH)
qed

lemma ParseUint_loop_syntax:
  "\<not> list_all is_digit s \<Longrightarrow> \<exists>e. ParseUint_loop n s = Inl e"
  by (induction s arbitrary: n) auto

lemma ParseInt_unsigned:
  assumes "s \<noteq> []" "list_all is_digit s" "digits_val 0 s < 2 ^ 63"
  shows "ParseInt s = Inr (digits_val 0 s)"
proof -
  obtain c cs where s: "s = c # cs" using assms(1) by (cases s) auto
  then have "c \<noteq> CHR ''-''" "c \<noteq> CHR ''+''" using assms(2) not_digit_signs by auto
  moreover have "ParseUint s = Inr (digits_val 0 s)"
    using assms s by (simp only: ParseUint_def) (simp del: ParseUint_loop.simps add: ParseUint_loop_ok)
  ultimately show ?thesis using assms s by (simp add: ParseInt_def)
qed

lemma ParseInt_minus:
  assumes "s \<noteq> []" "list_all is_digit s" "digits_val 0 s \<le> 2 ^ 63"
  shows "ParseInt (CHR ''-'' # s) = Inr (- digits_val 0 s)"
  using assms by (simp add: ParseInt_def ParseUint_def ParseUint_loop_ok)

lemma ParseInt_FormatInt: "int64 i \<Longrightarrow> ParseInt (FormatInt i) = Inr i"
proof (cases "i < 0")
  case True
  assume "int64 i"
  with True show ?thesis
    using ParseInt_minus [OF nat_digits_not_Nil nat_digits_all, of "nat (- i)"]
    by (simp add: FormatInt_def digits_val_nat_digits int64_def)
next
  case False
  assume "int64 i"
  with False show ?thesis
    using ParseInt_unsigned [OF nat_digits_not_Nil nat_digits_all, of "nat i"]
    by (simp add: FormatInt_def digits_val_nat_digits int64_def)
qed

subsection \<open>Btoi64\<close>

text \<open>The loop of the fast path: index and value after the digits it reads.\<close>

fun Btoi64_loop :: "int \<Rightarrow> bytes \<Rightarrow> int \<times> bytes" where
  "Btoi64_loop n [] = (n, [])"
| "Btoi64_loop n (c # cs) =
     (if is_digit c then Btoi64_loop (wrap64 (digit_val c + n * 10)) cs else (n, c # cs))"

definition Btoi64 :: "bytes \<Rightarrow> goerror + int" where
  "Btoi64 b =
     (let slow = (case ParseInt b of Inl e \<Rightarrow> Inl (Trace (NumError b e)) | Inr n \<Rightarrow> Inr n) in
      if b \<noteq> [] \<and> length b < 10 then
        (let neg = (hd b = CHR ''-'');
             rest = (if hd b = CHR ''-'' \<or> hd b = CHR ''+'' then tl b else b) in
         if rest \<noteq> [] then
           (case Btoi64_loop 0 rest of
              (n, []) \<Rightarrow> Inr (if neg then - n else n)
            | _ \<Rightarrow> slow)
         else slow)
      else slow)"

lemma digits_val_lt:
  "list_all is_digit s \<Longrightarrow> 0 \<le> n \<Longrightarrow> digits_val n s < (n + 1) * 10 ^ length s"
proof (induction s arbitrary: n)
  case Nil
  then show ?case by simp
next
  case (Cons c cs)
  then have b: "0 \<le> digit_val c" "digit_val c \<le> 9" using digit_val_bounds by auto
  have "digits_val (n * 10 + digit_val c) cs < (n * 10 + digit_val c + 1) * 10 ^ length cs"
    using Cons b by simp
  also have "\<dots> \<le> (n * 10 + 10) * 10 ^ length cs" using b by (intro mult_right_mono) auto
  finally show ?case by (simp add: algebra_simps)
qed

lemma Btoi64_loop_digits:
  "list_all is_digit s \<Longrightarrow> 0 \<le> n \<Longrightarrow> digits_val n s < 2 ^ 63 \<Longrightarrow> Btoi64_loop n s = (digits_val n s, [])"
proof (induction s arbitrary: n)
  case Nil
  then show ?case by simp
next
  case (Cons c cs)
  let ?m = "n * 10 + digit_val c"
  have c: "is_digit c" and cs: "list_all is_digit cs" using Cons.prems by auto
  then have m: "0 \<le> ?m" using Cons.prems digit_val_bounds by simp
  then have "?m \<le> digits_val ?m cs" using cs by (rule digits_val_mono [rotated])
  then have "int64 ?m" using Cons.prems m by (simp add: int64_def)
  then have w: "wrap64 (digit_val c + n * 10) = ?m" by (simp add: add.commute)
  show ?case using c cs m Cons.prems by (simp add: w Cons.IH)
qed

lemma Btoi64_loop_stops: "\<not> list_all is_digit s \<Longrightarrow> snd (Btoi64_loop n s) \<noteq> []"
  by (induction s arbitrary: n) auto

text \<open>On every input the hand-written routine returns what the library function returns.\<close>

lemma Btoi64_ParseInt:
  "Btoi64 b = (case ParseInt b of Inl e \<Rightarrow> Inl (Trace (NumError b e)) | Inr n \<Rightarrow> Inr n)"
proof (cases "b \<noteq> [] \<and> length b < 10")
  case False
  then show ?thesis by (auto simp: Btoi64_def)
next
  case True
  then obtain c cs where b: "b = c # cs" by (cases b) auto
  define rest where "rest = (if c = CHR ''-'' \<or> c = CHR ''+'' then cs else b)"
  have len: "length rest \<le> 9" using True b by (auto simp: rest_def)
  show ?thesis
  proof (cases "rest \<noteq> [] \<and> list_all is_digit rest")
    case False
    then have "rest = [] \<or> snd (Btoi64_loop 0 rest) \<noteq> []" using Btoi64_loop_stops by auto
    then show ?thesis using True b
      by (auto simp: Btoi64_def Let_def rest_def split: prod.splits list.splits)
  next
    case dig: True
    have "digits_val 0 rest < 10 ^ length rest" using digits_val_lt [of rest 0] dig by simp
    also have "(10::int) ^ length rest \<le> 10 ^ 9" using len by (intro power_increasing) auto
    finally have v: "digits_val 0 rest < 2 ^ 63" by simp
    have loop: "Btoi64_loop 0 rest = (digits_val 0 rest, [])"
      using dig v by (intro Btoi64_loop_digits) auto
    have uint: "ParseUint rest = Inr (digits_val 0 rest)"
      using dig v by (auto simp: ParseUint_def ParseUint_loop_ok)
    have hd: "hd b = c" "(if c = CHR ''-'' \<or> c = CHR ''+'' then tl b else b) = rest"
      using b by (auto simp: rest_def)
    have "Btoi64 b = Inr (if c = CHR ''-'' then - digits_val 0 rest else digits_val 0 rest)"
      unfolding Btoi64_def Let_def hd loop using True dig by simp
    moreover have "ParseInt b = Inr (if c = CHR ''-'' then - digits_val 0 rest else digits_val 0 rest)"
      using b v uint by (auto simp: ParseInt_def Let_def rest_def)
    ultimately show ?thesis by simp
  qed
qed

lemma Btoi64_FormatInt [simp]: "int64 i \<Longrightarrow> Btoi64 (FormatInt i) = Inr i"
  by (simp add: Btoi64_ParseInt ParseInt_FormatInt)

subsection \<open>itoa\<close>

definition minItoa :: int where "minItoa = -128"
definition maxItoa :: int where "maxItoa = 32768"

text \<open>
  \<open>init\<close> fills \<open>itoaOffset\<close> with the length of the buffer before each entry is written
  (as a \<open>uint32\<close>), and \<open>itoaBuffer\<close> with the concatenated texts.
\<close>

fun itoa_init :: "nat list \<Rightarrow> 32 word list \<Rightarrow> string \<Rightarrow> 32 word list \<times> string" where
  "itoa_init [] offs b = (offs, b)"
| "itoa_init (i # is) offs b =
     itoa_init is (offs @ [of_nat (length b)]) (b @ Itoa (int i + minItoa))"

definition itoaSize :: nat where
  "itoaSize = nat (maxItoa - minItoa + 1)"

definition itoaOffset :: "32 word list" where
  "itoaOffset = fst (itoa_init [0..<itoaSize] [] [])"

definition itoaBuffer :: string where
  "itoaBuffer = snd (itoa_init [0..<itoaSize] [] [])"

definition itoa :: "int \<Rightarrow> string" where
  "itoa i =
     (if i \<ge> minItoa \<and> i \<le> maxItoa then
        (let beg = unat (itoaOffset ! nat (i - minItoa)) in
         if i = maxItoa then drop beg itoaBuffer
         else (let fin = unat (itoaOffset ! nat (i - minItoa + 1)) in
               take (fin - beg) (drop beg itoaBuffer)))
      else FormatInt i)"

definition itoa_text :: "nat \<Rightarrow> string" where
  "itoa_text i = FormatInt (int i + minItoa)"

lemma itoa_init_spec:
  "itoa_init is offs b =
     (offs @ map (\<lambda>k. of_nat (length b + length (concat (map itoa_text (take k is))))) [0..<length is],
      b @ concat (map itoa_text is))"
proof (induction "is" arbitrary: offs b)
  case Nil
  then show ?case by simp
next
  case (Cons i js)
  have upt: "[0..<length (i # js)] = 0 # map Suc [0..<length js]"
    by (simp add: upt_conv_Cons map_Suc_upt del: upt_Suc)
  show ?case
    by (simp only: itoa_init.simps Cons.IH upt) (simp add: itoa_text_def Itoa_def comp_def add.assoc)
qed

lemma itoaBuffer_eq: "itoaBuffer = concat (map itoa_text [0..<itoaSize])"
  by (simp add: itoaBuffer_def itoa_init_spec)

definition itoa_start :: "nat \<Rightarrow> nat" where
  "itoa_start k = length (concat (map itoa_text [0..<k]))"

lemma itoaSize_eq: "itoaSize = 32897"
  by (simp add: itoaSize_def minItoa_def maxItoa_def)

lemma itoaOffset_nth: "k < itoaSize \<Longrightarrow> itoaOffset ! k = of_nat (itoa_start k)"
  by (simp add: itoaOffset_def itoa_init_spec itoa_start_def take_map min_def)

lemma length_itoa_text: "i < itoaSize \<Longrightarrow> length (itoa_text i) \<le> 6"
proof -
  assume i: "i < itoaSize"
  have "nat (- (int i - 128)) < 10 ^ Suc 4" "nat (int i - 128) < 10 ^ Suc 4"
    using i by (auto simp: itoaSize_eq)
  then show ?thesis
    using length_nat_digits [of "nat (- (int i - 128))" 4] length_nat_digits [of "nat (int i - 128)" 4]
    by (auto simp: itoa_text_def FormatInt_def minItoa_def)
qed

lemma itoa_start_bound: "k \<le> itoaSize \<Longrightarrow> itoa_start k \<le> 6 * k"
proof (induction k)
  case 0
  then show ?case by (simp add: itoa_start_def)
next
  case (Suc k)
  then show ?case using length_itoa_text [of k] by (simp add: itoa_start_def)
qed

lemma unat_itoaOffset: "k < itoaSize \<Longrightarrow> unat (itoaOffset ! k) = itoa_start k"
proof -
  assume k: "k < itoaSize"
  then have "itoa_start k \<le> 6 * k" by (intro itoa_start_bound) simp
  then have "itoa_start k < 2 ^ 32" using k by (simp add: itoaSize_eq)
  then show ?thesis using k by (simp add: itoaOffset_nth unat_of_nat)
qed

lemma itoaBuffer_split:
  "k < itoaSize \<Longrightarrow>
   itoaBuffer = concat (map itoa_text [0..<k]) @ itoa_text k @ concat (map itoa_text [Suc k..<itoaSize])"
proof -
  assume k: "k < itoaSize"
  then have "[0..<itoaSize] = [0..<k] @ k # [Suc k..<itoaSize]"
    by (metis le0 less_imp_le upt_add_eq_append upt_conv_Cons le_add_diff_inverse add_0)
  then show ?thesis by (simp add: itoaBuffer_eq)
qed

lemma itoa_FormatInt [simp]: "itoa i = FormatInt i"
proof (cases "i \<ge> minItoa \<and> i \<le> maxItoa")
  case False
  then show ?thesis by (auto simp: itoa_def)
next
  case True
  define k where "k = nat (i - minItoa)"
  have k: "k < itoaSize" and ik: "int k + minItoa = i"
    using True by (auto simp: k_def itoaSize_def)
  have itx: "itoa_text k = FormatInt i" by (simp add: itoa_text_def ik)
  have beg: "unat (itoaOffset ! k) = length (concat (map itoa_text [0..<k]))"
    using unat_itoaOffset [OF k] by (simp add: itoa_start_def)
  have dropb: "drop (unat (itoaOffset ! k)) itoaBuffer
      = FormatInt i @ concat (map itoa_text [Suc k..<itoaSize])"
    unfolding beg itoaBuffer_split [OF k] itx by (rule append_eq_conv_conj [THEN iffD1, THEN conjunct2, symmetric]) (rule refl)
  show ?thesis
  proof (cases "i = maxItoa")
    case last: True
    then have "Suc k = itoaSize" using ik k by (auto simp: itoaSize_def minItoa_def maxItoa_def)
    moreover have "itoa i = drop (unat (itoaOffset ! k)) itoaBuffer"
      using True last unfolding k_def by (simp add: itoa_def Let_def)
    ultimately show ?thesis using dropb by simp
  next
    case False
    then have k1: "Suc k < itoaSize" using ik True by (auto simp: itoaSize_def minItoa_def maxItoa_def)
    have nk: "nat (i - minItoa + 1) = Suc k" using ik by simp
    have "unat (itoaOffset ! Suc k) - unat (itoaOffset ! k) = length (FormatInt i)"
      using unat_itoaOffset [OF k1] by (simp add: beg itoa_start_def itx)
    then show ?thesis using True False dropb nk by (simp add: itoa_def Let_def flip: k_def)
  qed
qed

end
