(* ===== verification/Resp.thy ===== *)
theory Resp
  imports Strconv
begin

section \<open>RESP values\<close>

text \<open>
  Models \<open>pkg/proxy/redis/resp.go\<close>. A \<open>*Resp\<close> is a value of the datatype \<open>resp\<close>: the type
  byte (any byte, as in the Go struct), the value and the array, where \<open>None\<close> is Go's nil slice.
  The code never stores a nil \<open>*Resp\<close> inside an array it decodes or encodes, so array elements
  are \<open>resp\<close> values. Arguments of constructors that the code calls with a nil slice are options.
\<close>

datatype resp = Resp (rtype: byte) (rvalue: "bytes option") (rarray: "resp list option")

definition TypeString :: byte where "TypeString = CHR ''+''"
definition TypeError :: byte where "TypeError = CHR ''-''"
definition TypeInt :: byte where "TypeInt = CHR '':''"
definition TypeBulkBytes :: byte where "TypeBulkBytes = CHR ''$''"
definition TypeArray :: byte where "TypeArray = CHR ''*''"

lemmas resp_types = TypeString_def TypeError_def TypeInt_def TypeBulkBytes_def TypeArray_def

text \<open>\<open>fmt.Sprintf("%02x", b)\<close> of a byte.\<close>

definition hex_digit :: "nat \<Rightarrow> byte" where
  "hex_digit n = char_of (if n < 10 then 48 + n else 87 + n)"

definition hex2 :: "byte \<Rightarrow> string" where
  "hex2 c = [hex_digit (of_char c div 16), hex_digit (of_char c mod 16)]"

definition RespType_String :: "byte \<Rightarrow> string" where
  "RespType_String t =
     (if t = TypeString then ''<string>''
      else if t = TypeError then ''<error>''
      else if t = TypeInt then ''<int>''
      else if t = TypeBulkBytes then ''<bulkbytes>''
      else if t = TypeArray then ''<array>''
      else ''<unknown-0x'' @ hex2 t @ ''>'')"

definition IsString :: "resp \<Rightarrow> bool" where
  "IsString r = (rtype r = TypeString)"

definition IsError :: "resp \<Rightarrow> bool" where
  "IsError r = (rtype r = TypeError)"

definition IsInt :: "resp \<Rightarrow> bool" where
  "IsInt r = (rtype r = TypeInt)"

definition IsBulkBytes :: "resp \<Rightarrow> bool" where
  "IsBulkBytes r = (rtype r = TypeBulkBytes)"

definition IsArray :: "resp \<Rightarrow> bool" where
  "IsArray r = (rtype r = TypeArray)"

definition NewString :: "bytes \<Rightarrow> resp" where
  "NewString v = Resp TypeString (Some v) None"

definition NewError :: "bytes \<Rightarrow> resp" where
  "NewError v = Resp TypeError (Some v) None"

text \<open>\<open>NewErrorf\<close> with its arguments already formatted.\<close>

definition NewErrorf :: "string \<Rightarrow> resp" where
  "NewErrorf s = NewError s"

definition NewInt :: "bytes \<Rightarrow> resp" where
  "NewInt v = Resp TypeInt (Some v) None"

definition NewBulkBytes :: "bytes option \<Rightarrow> resp" where
  "NewBulkBytes v = Resp TypeBulkBytes v None"

definition NewArray :: "resp list option \<Rightarrow> resp" where
  "NewArray a = Resp TypeArray None a"

lemmas new_resp = NewString_def NewError_def NewErrorf_def NewInt_def NewBulkBytes_def NewArray_def
lemmas is_resp = IsString_def IsError_def IsInt_def IsBulkBytes_def IsArray_def

lemma type_distinct [simp]:
  "TypeString \<noteq> TypeError" "TypeString \<noteq> TypeInt" "TypeString \<noteq> TypeBulkBytes" "TypeString \<noteq> TypeArray"
  "TypeError \<noteq> TypeString" "TypeError \<noteq> TypeInt" "TypeError \<noteq> TypeBulkBytes" "TypeError \<noteq> TypeArray"
  "TypeInt \<noteq> TypeString" "TypeInt \<noteq> TypeError" "TypeInt \<noteq> TypeBulkBytes" "TypeInt \<noteq> TypeArray"
  "TypeBulkBytes \<noteq> TypeString" "TypeBulkBytes \<noteq> TypeError" "TypeBulkBytes \<noteq> TypeInt" "TypeBulkBytes \<noteq> TypeArray"
  "TypeArray \<noteq> TypeString" "TypeArray \<noteq> TypeError" "TypeArray \<noteq> TypeInt" "TypeArray \<noteq> TypeBulkBytes"
  by (simp_all add: resp_types)

subsection \<open>Well-formed values and their wire format\<close>

text \<open>
  \<open>wf_resp\<close>: the values a peer can receive unchanged: the type is one of the five, only the
  field of that type is set, a text has no line feed, a bulk or an array keeps the limits of
  \<open>decoder.go\<close>. \<open>wire\<close> is the protocol's text of such a value.
\<close>

definition MaxBulkBytesLen :: int where "MaxBulkBytesLen = 1024 * 1024 * 512"
definition MaxArrayLen :: int where "MaxArrayLen = 1024 * 1024"

definition is_text :: "byte \<Rightarrow> bool" where
  "is_text t \<longleftrightarrow> t = TypeString \<or> t = TypeError \<or> t = TypeInt"

lemma is_text_types [simp]:
  "is_text TypeString" "is_text TypeError" "is_text TypeInt" "\<not> is_text TypeBulkBytes" "\<not> is_text TypeArray"
  by (simp_all add: is_text_def)

fun wf_resp :: "resp \<Rightarrow> bool" where
  "wf_resp (Resp t v a) =
     (if is_text t then a = None \<and> (case v of None \<Rightarrow> False | Some x \<Rightarrow> LF \<notin> set x)
      else if t = TypeBulkBytes then a = None \<and> (case v of None \<Rightarrow> True | Some x \<Rightarrow> int (length x) \<le> MaxBulkBytesLen)
      else if t = TypeArray then v = None \<and>
        (case a of None \<Rightarrow> True | Some rs \<Rightarrow> int (length rs) \<le> MaxArrayLen \<and> list_all wf_resp rs)
      else False)"

definition wire_bulk :: "bytes option \<Rightarrow> bytes" where
  "wire_bulk v = (case v of None \<Rightarrow> FormatInt (-1) @ CRLF | Some x \<Rightarrow> FormatInt (int (length x)) @ CRLF @ x @ CRLF)"

fun wire :: "resp \<Rightarrow> bytes" where
  "wire (Resp t v a) =
     t # (if t = TypeBulkBytes then wire_bulk v
          else if t = TypeArray then
            (case a of None \<Rightarrow> FormatInt (-1) @ CRLF
             | Some rs \<Rightarrow> FormatInt (int (length rs)) @ CRLF @ concat (map wire rs))
          else (case v of None \<Rightarrow> [] | Some x \<Rightarrow> x) @ CRLF)"

definition wire_multi :: "resp list \<Rightarrow> bytes" where
  "wire_multi rs = TypeArray # FormatInt (int (length rs)) @ CRLF @ concat (map wire rs)"

declare wf_resp.simps [simp del] wire.simps [simp del]

lemma wire_not_Nil [simp]: "wire r \<noteq> []"
  by (cases r) (simp add: wire.simps)

lemma wire_multi_array: "wire_multi rs = wire (NewArray (Some rs))"
  by (simp add: wire_multi_def NewArray_def wire.simps)

lemma wf_new [simp]:
  "wf_resp (NewString v) \<longleftrightarrow> LF \<notin> set v" "wf_resp (NewError v) \<longleftrightarrow> LF \<notin> set v"
  "wf_resp (NewInt v) \<longleftrightarrow> LF \<notin> set v"
  "wf_resp (NewBulkBytes (Some v)) \<longleftrightarrow> int (length v) \<le> MaxBulkBytesLen" "wf_resp (NewBulkBytes None)"
  "wf_resp (NewArray (Some rs)) \<longleftrightarrow> int (length rs) \<le> MaxArrayLen \<and> list_all wf_resp rs"
  "wf_resp (NewArray None)"
  by (simp_all add: new_resp wf_resp.simps)

text \<open>Case analysis of a well-formed value, along the switch of the code.\<close>

lemma wf_resp_cases [consumes 1, case_names simple null_bulk bulk null_array array]:
  assumes "wf_resp r"
  obtains t v where "r = Resp t (Some v) None" "is_text t" "LF \<notin> set v"
  | "r = NewBulkBytes None"
  | v where "r = NewBulkBytes (Some v)" "int (length v) \<le> MaxBulkBytesLen"
  | "r = NewArray None"
  | rs where "r = NewArray (Some rs)" "int (length rs) \<le> MaxArrayLen" "list_all wf_resp rs"
proof (cases r)
  case (Resp t v a)
  show thesis
    using assms that unfolding Resp wf_resp.simps new_resp
    by (cases "is_text t"; cases "t = TypeBulkBytes"; cases v; cases a) (auto split: if_splits)
qed

end
