(* ===== verification/BufReader.thy ===== *)
theory BufReader
  imports GoErrors
begin

section \<open>The buffered reader\<close>

text \<open>
  Models \<open>Reader\<close> of \<open>pkg/utils/bufio2/bufio.go\<close>: a fixed buffer with a read and a write position
  over an \<open>io.Reader\<close>. The \<open>io.Reader\<close> (a socket) is the environment: a script of results, each the
  bytes one \<open>Read\<close> delivers and the error it reports; a result longer than the caller's slice is
  delivered in pieces, and an exhausted script is at end of file. Any sequence of reads that keeps
  the \<open>io.Reader\<close> contract is such a script.
  The functional lemmas describe each operation on the byte stream the reader stands for, under
  every chunking of that stream (\<open>clean\<close> scripts: data first, an error without data last).
\<close>

subsection \<open>The underlying io.Reader\<close>

type_synonym script = "(bytes \<times> goerror option) list"

fun rd_read :: "nat \<Rightarrow> script \<Rightarrow> (bytes \<times> goerror option) \<times> script" where
  "rd_read k [] = (([], Some (ErrVar EOF)), [])"
| "rd_read k ((d, e) # s) =
     (if length d \<le> k then ((d, e), s) else ((take k d, None), (drop k d, e) # s))"

subsection \<open>State and operations\<close>

record reader =
  rerr :: "goerror option"
  rbuf :: bytes
  rd :: script
  rpos :: nat
  wpos :: nat

definition DefaultBufferSize :: nat where
  "DefaultBufferSize = 1024"

definition NewReaderSize :: "script \<Rightarrow> int \<Rightarrow> reader" where
  "NewReaderSize s sz =
     (let n = (if sz \<le> 0 then DefaultBufferSize else nat sz) in
      \<lparr>rerr = None, rbuf = replicate n (char_of (0::nat)), rd = s, rpos = 0, wpos = 0\<rparr>)"

definition NewReader :: "script \<Rightarrow> reader" where
  "NewReader s = NewReaderSize s (int DefaultBufferSize)"

definition NewReaderBuffer :: "script \<Rightarrow> bytes \<Rightarrow> reader" where
  "NewReaderBuffer s buf =
     (let b = (if length buf = 0 then replicate DefaultBufferSize (char_of (0::nat)) else buf) in
      \<lparr>rerr = None, rbuf = b, rd = s, rpos = 0, wpos = 0\<rparr>)"

definition slide :: "reader \<Rightarrow> reader" where
  "slide b =
     (if rpos b > 0 then
        (let src = take (wpos b - rpos b) (drop (rpos b) (rbuf b)) in
         b\<lparr>rbuf := overwrite (rbuf b) 0 src, rpos := 0, wpos := length src\<rparr>)
      else b)"

definition fill :: "reader \<Rightarrow> goerror option \<times> reader" where
  "fill b =
     (if rerr b \<noteq> None then (rerr b, b)
      else
        (let b1 = slide b;
             ((d, e), s) = rd_read (length (rbuf b1) - wpos b1) (rd b1);
             b2 = b1\<lparr>rbuf := overwrite (rbuf b1) (wpos b1) d, rd := s\<rparr>;
             b3 = (case e of
                     Some err \<Rightarrow> b2\<lparr>rerr := Some err\<rparr>
                   | None \<Rightarrow> if length d = 0 then b2\<lparr>rerr := Some (ErrVar ErrNoProgress)\<rparr>
                             else b2\<lparr>wpos := wpos b2 + length d\<rparr>)
         in (rerr b3, b3)))"

definition buffered :: "reader \<Rightarrow> nat" where
  "buffered b = wpos b - rpos b"

text \<open>\<open>Read(p)\<close> with \<open>len(p) = n\<close>: the bytes written to \<open>p\<close>, the error, the new state.\<close>

definition Read :: "nat \<Rightarrow> reader \<Rightarrow> (bytes \<times> goerror option) \<times> reader" where
  "Read n b =
     (if rerr b \<noteq> None \<or> n = 0 then (([], rerr b), b)
      else if buffered b = 0 \<and> n \<ge> length (rbuf b) then
        (let ((d, e), s) = rd_read n (rd b);
             b1 = b\<lparr>rd := s\<rparr>;
             b2 = (case e of Some err \<Rightarrow> b1\<lparr>rerr := Some err\<rparr> | None \<Rightarrow> b1)
         in ((d, rerr b2), b2))
      else
        (let (e, b1) = (if buffered b = 0 then fill b else (None, b)) in
         case e of
           Some err \<Rightarrow> (([], rerr b1), b1)
         | None \<Rightarrow>
             (let d = take n (take (wpos b1 - rpos b1) (drop (rpos b1) (rbuf b1)))
              in ((d, None), b1\<lparr>rpos := rpos b1 + length d\<rparr>))))"

definition ReadByte :: "reader \<Rightarrow> (goerror + byte) \<times> reader" where
  "ReadByte b =
     (case rerr b of
        Some e \<Rightarrow> (Inl e, b)
      | None \<Rightarrow>
          (let (e, b1) = (if buffered b = 0 then fill b else (None, b)) in
           case e of
             Some err \<Rightarrow> (Inl err, b1)
           | None \<Rightarrow> (Inr (rbuf b1 ! rpos b1), b1\<lparr>rpos := rpos b1 + 1\<rparr>)))"

definition PeekByte :: "reader \<Rightarrow> (goerror + byte) \<times> reader" where
  "PeekByte b =
     (case rerr b of
        Some e \<Rightarrow> (Inl e, b)
      | None \<Rightarrow>
          (let (e, b1) = (if buffered b = 0 then fill b else (None, b)) in
           case e of
             Some err \<Rightarrow> (Inl err, b1)
           | None \<Rightarrow> (Inr (rbuf b1 ! rpos b1), b1)))"

text \<open>The unread part of the buffer, \<open>b.buf[b.rpos:b.wpos]\<close>.\<close>

definition window :: "reader \<Rightarrow> bytes" where
  "window b = take (wpos b - rpos b) (drop (rpos b) (rbuf b))"

lemma length_rd_read: "rd_read k s = ((d, e), s') \<Longrightarrow> length d \<le> k"
  by (cases "(k, s)" rule: rd_read.cases) (auto split: if_splits)

lemma window_slide [simp]: "window (slide b) = window b"
  by (auto simp: slide_def window_def overwrite_def min_def)

lemma slide_fields [simp]:
  "rerr (slide b) = rerr b" "rd (slide b) = rd b" "rpos (slide b) = 0"
  by (auto simp: slide_def)

lemma length_rbuf_slide [simp]: "length (rbuf (slide b)) = length (rbuf b)"
  by (auto simp: slide_def)

text \<open>A fill that reports no error adds at least one byte and keeps what was unread.\<close>

lemma fill_progress:
  assumes "fill b = (None, b')"
  shows "\<exists>d. d \<noteq> [] \<and> window b' = window b @ d \<and> rerr b' = None
           \<and> rd_read (length (rbuf b) - length (window b)) (rd b) = ((d, None), rd b')
           \<and> length (rbuf b') = length (rbuf b) \<and> length (window b') \<le> length (rbuf b)
           \<and> rpos b' = 0 \<and> wpos b' \<le> length (rbuf b')"
proof -
  obtain d e s where r: "rd_read (length (rbuf b) - wpos (slide b)) (rd b) = ((d, e), s)"
    by (metis surj_pair)
  from assms r have e: "e = None" "d \<noteq> []" "rerr b = None"
    and b': "b' = (slide b)\<lparr>rbuf := overwrite (rbuf (slide b)) (wpos (slide b)) d, rd := s,
                            wpos := wpos (slide b) + length d\<rparr>"
    by (auto simp: fill_def Let_def split: option.splits if_splits)
  have len: "length d \<le> length (rbuf b) - wpos (slide b)"
    using r by (rule length_rd_read)
  then have w: "wpos (slide b) < length (rbuf b)" using e by (cases d) auto
  have win: "window b = take (wpos (slide b)) (rbuf (slide b))"
    by (subst window_slide [symmetric]) (simp add: window_def)
  then have lw: "length (window b) = wpos (slide b)" using w by simp
  have "window b' = window b @ d"
    using w len win by (simp add: b' window_def take_overwrite)
  then show ?thesis using e r len w by (auto simp: b' lw)
qed

function ReadSlice_loop :: "byte \<Rightarrow> reader \<Rightarrow> (bytes \<times> goerror option) \<times> reader" where
  "ReadSlice_loop delim b =
     (case index_byte delim (window b) of
        Some i \<Rightarrow> ((take (Suc i) (window b), None), b\<lparr>rpos := rpos b + i + 1\<rparr>)
      | None \<Rightarrow>
          if buffered b = length (rbuf b) then ((rbuf b, Some (ErrVar ErrBufferFull)), b\<lparr>rpos := wpos b\<rparr>)
          else (case fill b of
                  (Some e, b') \<Rightarrow> (([], Some e), b')
                | (None, b') \<Rightarrow> ReadSlice_loop delim b'))"
  by pat_completeness auto
termination
proof (relation "measure (\<lambda>(c, b). length (rbuf b) - length (window b))", goal_cases)
  case 1
  show ?case by simp
next
  case (2 delim b e b')
  then have "fill b = (None, b')" by simp
  then obtain d where "d \<noteq> []" "window b' = window b @ d"
    "length (rbuf b') = length (rbuf b)" "length (window b') \<le> length (rbuf b)"
    using fill_progress by blast
  then show ?case by (cases d) auto
qed

declare ReadSlice_loop.simps [simp del]

definition ReadSlice :: "byte \<Rightarrow> reader \<Rightarrow> (bytes \<times> goerror option) \<times> reader" where
  "ReadSlice delim b =
     (case rerr b of Some e \<Rightarrow> (([], Some e), b) | None \<Rightarrow> ReadSlice_loop delim b)"

text \<open>
  \<open>ReadBytes\<close> collects whole buffers until the delimiter turns up; \<open>ReadFull\<close> is the loop of
  \<open>io.ReadFull\<close>. Both take fuel, one unit per iteration; \<open>None\<close> is running out of it.
\<close>

fun ReadBytes_loop :: "nat \<Rightarrow> byte \<Rightarrow> bytes list \<Rightarrow> reader \<Rightarrow> ((goerror + bytes) \<times> reader) option" where
  "ReadBytes_loop 0 delim full b = None"
| "ReadBytes_loop (Suc fuel) delim full b =
     (case ReadSlice delim b of
        ((f, Some err), b') \<Rightarrow>
          if err \<noteq> ErrVar ErrBufferFull
          then Some ((case rerr b' of Some e \<Rightarrow> Inl e | None \<Rightarrow> Inr []), b')
          else ReadBytes_loop fuel delim (full @ [f]) b'
      | ((f, None), b') \<Rightarrow> Some (Inr (concat full @ f), b'))"

definition ReadBytes :: "nat \<Rightarrow> byte \<Rightarrow> reader \<Rightarrow> ((goerror + bytes) \<times> reader) option" where
  "ReadBytes fuel delim b = ReadBytes_loop fuel delim [] b"

fun ReadAtLeast :: "nat \<Rightarrow> nat \<Rightarrow> bytes \<Rightarrow> goerror option \<Rightarrow> reader
    \<Rightarrow> ((bytes \<times> goerror option) \<times> reader) option" where
  "ReadAtLeast 0 m got err b = None"
| "ReadAtLeast (Suc fuel) m got err b =
     (if length got < m \<and> err = None
      then (case Read (m - length got) b of
              ((d, e), b') \<Rightarrow> ReadAtLeast fuel m (got @ d) e b')
      else Some ((got, if length got \<ge> m then None
                       else if got \<noteq> [] \<and> err = Some (ErrVar EOF) then Some (ErrVar ErrUnexpectedEOF)
                       else err), b))"

definition ReadFull :: "nat \<Rightarrow> nat \<Rightarrow> reader \<Rightarrow> ((goerror + bytes) \<times> reader) option" where
  "ReadFull fuel n b =
     (if rerr b \<noteq> None \<or> n = 0
      then Some ((case rerr b of Some e \<Rightarrow> Inl e | None \<Rightarrow> Inr []), b)
      else (case ReadAtLeast fuel n [] None b of
              None \<Rightarrow> None
            | Some ((buf, Some e), b') \<Rightarrow> Some (Inl e, b')
            | Some ((buf, None), b') \<Rightarrow> Some (Inr buf, b')))"

subsection \<open>The byte stream a reader stands for\<close>

text \<open>
  \<open>sdata\<close> is what a script still delivers before its first error and \<open>serr\<close> that error.
  \<open>reader_at b s e n\<close>: the reader, with a buffer of \<open>n\<close> bytes, will deliver \<open>s\<close> and then
  report \<open>e\<close>.
\<close>

fun clean :: "script \<Rightarrow> bool" where
  "clean [] = True"
| "clean ((d, None) # s) = (d \<noteq> [] \<and> clean s)"
| "clean ((d, Some e) # s) = (d = [] \<and> e \<noteq> ErrVar ErrBufferFull)"

fun sdata :: "script \<Rightarrow> bytes" where
  "sdata [] = []"
| "sdata ((d, None) # s) = d @ sdata s"
| "sdata ((d, Some e) # s) = []"

fun serr :: "script \<Rightarrow> goerror" where
  "serr [] = ErrVar EOF"
| "serr ((d, None) # s) = serr s"
| "serr ((d, Some e) # s) = e"

definition rinv :: "reader \<Rightarrow> bool" where
  "rinv b \<longleftrightarrow> rpos b \<le> wpos b \<and> wpos b \<le> length (rbuf b) \<and> rbuf b \<noteq> []"

definition reader_at :: "reader \<Rightarrow> bytes \<Rightarrow> goerror \<Rightarrow> nat \<Rightarrow> bool" where
  "reader_at b s e n \<longleftrightarrow>
     rinv b \<and> length (rbuf b) = n \<and> e \<noteq> ErrVar ErrBufferFull
     \<and> (case rerr b of
          Some e' \<Rightarrow> s = [] \<and> e = e'
        | None \<Rightarrow> clean (rd b) \<and> s = window b @ sdata (rd b) \<and> e = serr (rd b))"

subsection \<open>Every operation on the stream\<close>

lemma rinv_window: "rinv b \<Longrightarrow> length (window b) = wpos b - rpos b"
  by (auto simp: rinv_def window_def)

lemma reader_at_ok:
  "rerr b = None \<Longrightarrow> reader_at b s e n \<longleftrightarrow>
     rinv b \<and> length (rbuf b) = n \<and> e \<noteq> ErrVar ErrBufferFull \<and> clean (rd b)
     \<and> s = window b @ sdata (rd b) \<and> e = serr (rd b)"
  by (auto simp: reader_at_def)

lemma reader_at_err:
  "rerr b = Some e' \<Longrightarrow> reader_at b s e n \<longleftrightarrow>
     rinv b \<and> length (rbuf b) = n \<and> e \<noteq> ErrVar ErrBufferFull \<and> s = [] \<and> e' = e"
  by (auto simp: reader_at_def)

lemma reader_at_pos: "reader_at b s e n \<Longrightarrow> 0 < n"
  by (auto simp: reader_at_def rinv_def)

lemma clean_rd_read:
  assumes "clean s" "0 < k" "rd_read k s = ((d, e), s')"
  shows "case e of
      None \<Rightarrow> d \<noteq> [] \<and> length d \<le> k \<and> clean s' \<and> sdata s = d @ sdata s' \<and> serr s' = serr s
    | Some err \<Rightarrow> d = [] \<and> sdata s = [] \<and> err = serr s \<and> err \<noteq> ErrVar ErrBufferFull"
  using assms by (cases s rule: clean.cases) (auto split: if_splits)

text \<open>The two outcomes of a fill on a live reader with room in its buffer.\<close>

lemma fill_cases:
  assumes "reader_at b s e n" "rerr b = None" "length (window b) < n"
  obtains (more) b' where "fill b = (None, b')" "reader_at b' s e n" "rerr b' = None"
      "length (window b) < length (window b')"
  | (stop) b' where "fill b = (Some e, b')" "reader_at b' [] e n" "s = window b"
proof -
  have inv: "rinv b" "length (rbuf b) = n" "e \<noteq> ErrVar ErrBufferFull" "clean (rd b)"
    and s: "s = window b @ sdata (rd b)" and e: "e = serr (rd b)"
    using assms(1) unfolding reader_at_ok [OF assms(2)] by blast+
  have ws: "wpos (slide b) = length (window b)"
    using inv rinv_window [OF inv(1)] by (auto simp: slide_def rinv_def)
  have sne: "rbuf (slide b) \<noteq> []"
    using inv(1) length_rbuf_slide [of b] unfolding rinv_def by (metis length_0_conv)
  obtain d err s' where r: "rd_read (n - length (window b)) (rd b) = ((d, err), s')"
    by (metis surj_pair)
  have c: "case err of
      None \<Rightarrow> d \<noteq> [] \<and> length d \<le> n - length (window b) \<and> clean s' \<and> sdata (rd b) = d @ sdata s' \<and> serr s' = serr (rd b)
    | Some er \<Rightarrow> d = [] \<and> sdata (rd b) = [] \<and> er = serr (rd b) \<and> er \<noteq> ErrVar ErrBufferFull"
    using clean_rd_read [OF inv(4) _ r] assms(3) by simp
  show thesis
  proof (cases err)
    case None
    obtain b' where b': "fill b = (None, b')"
      using r c None inv assms(2) by (auto simp: fill_def Let_def ws split: prod.splits)
    then obtain d' where "window b' = window b @ d'" "rd_read (length (rbuf b) - length (window b)) (rd b) = ((d', None), rd b')"
      "rerr b' = None" "length (rbuf b') = length (rbuf b)" "rpos b' = 0" "wpos b' \<le> length (rbuf b')"
      using fill_progress by blast
    then show thesis using b' r c None inv s e
      by (intro more [of b']) (auto simp: reader_at_ok rinv_def)
  next
    case (Some er)
    let ?b = "(slide b)\<lparr>rbuf := overwrite (rbuf (slide b)) (wpos (slide b)) [], rd := s', rerr := Some er\<rparr>"
    have "fill b = (Some e, ?b)"
      using r c Some inv assms(2) e by (simp add: fill_def Let_def ws)
    moreover have "reader_at ?b [] e n"
      using c Some inv e assms(3) ws sne by (auto simp: reader_at_err rinv_def overwrite_def)
    ultimately show thesis using c Some s by (intro stop) auto
  qed
qed

lemma buffered_window: "rinv b \<Longrightarrow> buffered b = length (window b)"
  by (simp add: buffered_def rinv_window)

text \<open>Consuming \<open>k\<close> bytes of the window.\<close>

lemma reader_at_advance:
  assumes "reader_at b s e n" "rerr b = None" "k \<le> length (window b)"
  shows "reader_at (b\<lparr>rpos := rpos b + k\<rparr>) (drop k s) e n"
proof -
  have inv: "rinv b" using assms by (simp add: reader_at_ok)
  then have k: "rpos b + k \<le> wpos b" using assms(3) by (auto simp: rinv_window rinv_def)
  then have "window (b\<lparr>rpos := rpos b + k\<rparr>) = drop k (window b)"
    by (simp add: window_def drop_take add.commute diff_diff_add)
  then show ?thesis using assms inv k by (auto simp: reader_at_ok rinv_def)
qed

lemma window_nth: "rinv b \<Longrightarrow> i < length (window b) \<Longrightarrow> rbuf b ! (rpos b + i) = window b ! i"
  by (simp add: window_def rinv_def)

text \<open>Getting at least one unread byte into the buffer, as \<open>ReadByte\<close>, \<open>PeekByte\<close> and \<open>Read\<close> do.\<close>

lemma refill_cases:
  assumes "reader_at b s e n" "rerr b = None"
  obtains (more) b' where "(if buffered b = 0 then fill b else (None, b)) = (None, b')"
      "reader_at b' s e n" "rerr b' = None" "window b' \<noteq> []"
  | (stop) b' where "(if buffered b = 0 then fill b else (None, b)) = (Some e, b')"
      "reader_at b' [] e n" "s = []"
proof (cases "buffered b = 0")
  case True
  have inv: "rinv b" using assms by (simp add: reader_at_ok)
  then have "window b = []" using True by (simp add: buffered_window)
  moreover have "0 < n" using assms(1) by (rule reader_at_pos)
  ultimately have "length (window b) < n" by simp
  with assms show thesis
  proof (cases rule: fill_cases)
    case (more b')
    then show thesis using True that(1) [of b'] by (cases "window b'") auto
  next
    case (stop b')
    then show thesis using True that(2) [of b'] \<open>window b = []\<close> by simp
  qed
next
  case False
  then show thesis using assms that(1) [of b] by (auto simp: buffered_window reader_at_ok)
qed

lemma window_hd_stream:
  "reader_at b s e n \<Longrightarrow> rerr b = None \<Longrightarrow> window b \<noteq> [] \<Longrightarrow> s = hd (window b) # tl s \<and> rbuf b ! rpos b = hd s"
  using window_nth [of b 0] by (cases "window b") (auto simp: reader_at_ok)

lemma ReadByte_Cons:
  assumes "reader_at b (c # s) e n"
  shows "\<exists>b'. ReadByte b = (Inr c, b') \<and> reader_at b' s e n"
proof -
  have ok: "rerr b = None" using assms by (auto simp: reader_at_def split: option.splits)
  from assms ok show ?thesis
  proof (cases rule: refill_cases)
    case (more b')
    have "rbuf b' ! rpos b' = c" using window_hd_stream [OF more(2,3,4)] by simp
    moreover have "reader_at (b'\<lparr>rpos := rpos b' + 1\<rparr>) s e n"
      using reader_at_advance [OF more(2,3), of 1] more(4) by (cases "window b'") auto
    ultimately show ?thesis using ok more(1) by (simp add: ReadByte_def Let_def)
  qed simp
qed

lemma ReadByte_Nil:
  assumes "reader_at b [] e n"
  shows "\<exists>b'. ReadByte b = (Inl e, b') \<and> reader_at b' [] e n"
proof (cases "rerr b")
  case (Some e')
  then show ?thesis using assms by (simp add: ReadByte_def reader_at_err)
next
  case None
  from assms None show ?thesis
  proof (cases rule: refill_cases)
    case (more b')
    then show ?thesis using window_hd_stream [OF more(2,3,4)] by simp
  next
    case (stop b')
    then show ?thesis using None by (simp add: ReadByte_def Let_def)
  qed
qed

lemma PeekByte_Cons:
  assumes "reader_at b (c # s) e n"
  shows "\<exists>b'. PeekByte b = (Inr c, b') \<and> reader_at b' (c # s) e n"
proof -
  have ok: "rerr b = None" using assms by (auto simp: reader_at_def split: option.splits)
  from assms ok show ?thesis
  proof (cases rule: refill_cases)
    case (more b')
    have "rbuf b' ! rpos b' = c" using window_hd_stream [OF more(2,3,4)] by simp
    then show ?thesis using ok more(1,2) by (simp add: PeekByte_def Let_def)
  qed simp
qed

lemma PeekByte_Nil:
  assumes "reader_at b [] e n"
  shows "\<exists>b'. PeekByte b = (Inl e, b') \<and> reader_at b' [] e n"
proof (cases "rerr b")
  case (Some e')
  then show ?thesis using assms by (simp add: PeekByte_def reader_at_err)
next
  case None
  from assms None show ?thesis
  proof (cases rule: refill_cases)
    case (more b')
    then show ?thesis using window_hd_stream [OF more(2,3,4)] by simp
  next
    case (stop b')
    then show ?thesis using None by (simp add: PeekByte_def Let_def)
  qed
qed

text \<open>\<open>ReadSlice\<close>: the outcome depends on the stream and on the size of the buffer only.\<close>

lemma ReadSlice_loop_spec:
  assumes "reader_at b s e n" "rerr b = None"
  shows "\<exists>b'. (case index_byte c (take n s) of
      Some i \<Rightarrow> ReadSlice_loop c b = ((take (Suc i) s, None), b') \<and> reader_at b' (drop (Suc i) s) e n
    | None \<Rightarrow> if n \<le> length s
        then ReadSlice_loop c b = ((take n s, Some (ErrVar ErrBufferFull)), b') \<and> reader_at b' (drop n s) e n
        else ReadSlice_loop c b = (([], Some e), b') \<and> reader_at b' [] e n)"
  using assms
proof (induction c b rule: ReadSlice_loop.induct)
  case (1 c b)
  have inv: "rinv b" "length (rbuf b) = n" and s: "s = window b @ sdata (rd b)"
    using "1.prems" by (auto simp: reader_at_ok)
  have wn: "length (window b) \<le> n" using inv by (auto simp: window_def)
  show ?case
  proof (cases "index_byte c (window b)")
    case (Some i)
    then have "i < length (window b)" "c \<in> set (window b)" by (auto dest: index_byte_SomeD simp: set_conv_nth)
    then have "index_byte c (take n s) = Some i" and "take (Suc i) s = take (Suc i) (window b)"
      using s Some wn by (simp_all add: index_byte_append)
    moreover have "reader_at (b\<lparr>rpos := rpos b + Suc i\<rparr>) (drop (Suc i) s) e n"
      using "1.prems" \<open>i < length (window b)\<close> by (intro reader_at_advance) auto
    ultimately show ?thesis using Some by (simp add: ReadSlice_loop.simps [of c b])
  next
    case None
    then have notin: "c \<notin> set (window b)" by (simp add: index_byte_None)
    show ?thesis
    proof (cases "buffered b = length (rbuf b)")
      case full: True
      have "0 < length (rbuf b)" using inv by (cases "rbuf b") (auto simp: rinv_def)
      with full inv have "rpos b = 0" "wpos b = length (rbuf b)"
        unfolding buffered_def rinv_def by linarith+
      then have "window b = rbuf b" by (simp add: window_def)
      then have tk: "take n s = rbuf b" "n \<le> length s" using s inv by auto
      have "reader_at (b\<lparr>rpos := rpos b + n\<rparr>) (drop n s) e n"
        using "1.prems" inv full by (intro reader_at_advance) (auto simp: buffered_window)
      moreover have "rpos b + n = wpos b" using full inv by (auto simp: buffered_def rinv_def)
      ultimately show ?thesis
        using None full tk notin \<open>window b = rbuf b\<close> by (simp add: ReadSlice_loop.simps [of c b])
    next
      case room: False
      then have "length (window b) < n" using wn inv by (simp add: buffered_window)
      with "1.prems" show ?thesis
      proof (cases rule: fill_cases)
        case (more b')
        have step: "ReadSlice_loop c b = ReadSlice_loop c b'"
          using None room more(1) by (simp add: ReadSlice_loop.simps [of c b])
        show ?thesis
          unfolding step by (rule "1.IH" [OF None room more(1) [symmetric] refl more(2,3)])
      next
        case (stop b')
        then show ?thesis
          using None room notin \<open>length (window b) < n\<close> by (simp add: ReadSlice_loop.simps [of c b])
      qed
    qed
  qed
qed

lemma ReadSlice_err: "rerr b = Some e' \<Longrightarrow> reader_at b s e n \<Longrightarrow> ReadSlice c b = (([], Some e), b)"
  by (simp add: ReadSlice_def reader_at_err)

lemma ReadSlice_found:
  assumes "reader_at b s e n" "index_byte c s = Some i" "i < n"
  shows "\<exists>b'. ReadSlice c b = ((take (Suc i) s, None), b') \<and> reader_at b' (drop (Suc i) s) e n"
proof -
  have ok: "rerr b = None" using assms(1,2) by (auto simp: reader_at_def split: option.splits)
  show ?thesis
    using ReadSlice_loop_spec [OF assms(1) ok, of c] assms(2,3) ok by (simp add: index_byte_take ReadSlice_def)
qed

lemma ReadSlice_full:
  assumes "reader_at b s e n" "c \<notin> set (take n s)" "n \<le> length s"
  shows "\<exists>b'. ReadSlice c b = ((take n s, Some (ErrVar ErrBufferFull)), b') \<and> reader_at b' (drop n s) e n"
proof -
  have "s \<noteq> []" using assms reader_at_pos [OF assms(1)] by auto
  then have ok: "rerr b = None" using assms(1) by (auto simp: reader_at_def split: option.splits)
  show ?thesis
    using ReadSlice_loop_spec [OF assms(1) ok, of c] assms(2,3) ok by (simp add: ReadSlice_def)
qed

lemma ReadSlice_end:
  assumes "reader_at b s e n" "c \<notin> set s" "length s < n"
  shows "\<exists>b'. ReadSlice c b = (([], Some e), b') \<and> reader_at b' [] e n"
proof (cases "rerr b")
  case None
  then show ?thesis
    using ReadSlice_loop_spec [OF assms(1) None, of c] assms(2,3) by (simp add: ReadSlice_def)
next
  case (Some e')
  then show ?thesis using assms(1) ReadSlice_err [OF Some assms(1)] by (auto simp: reader_at_err)
qed

text \<open>\<open>ReadBytes\<close> does not depend on the size of the buffer.\<close>

lemma reader_at_not_full: "reader_at b s e n \<Longrightarrow> e \<noteq> ErrVar ErrBufferFull"
  by (simp add: reader_at_def)

lemma fill_result: "fst (fill b) = rerr (snd (fill b))"
  by (simp add: fill_def Let_def split: prod.split)

lemma reader_at_Nil_rerr: "fill b = (Some e, b') \<Longrightarrow> rerr b' = Some e"
  using fill_result [of b] by simp

lemma ReadSlice_rerr: "ReadSlice c b = ((f, Some err), b') \<Longrightarrow> err \<noteq> ErrVar ErrBufferFull \<Longrightarrow> rerr b' = Some err"
proof (cases "rerr b")
  case None
  have "ReadSlice_loop c b = ((f, Some err), b') \<Longrightarrow> err \<noteq> ErrVar ErrBufferFull \<Longrightarrow> rerr b' = Some err"
  proof (induction c b rule: ReadSlice_loop.induct)
    case (1 c b)
    show ?case
      using 1 reader_at_Nil_rerr
      by (subst (asm) (2) ReadSlice_loop.simps) (auto split: option.splits if_splits prod.splits)
  qed
  then show "ReadSlice c b = ((f, Some err), b') \<Longrightarrow> err \<noteq> ErrVar ErrBufferFull \<Longrightarrow> ?thesis"
    using None by (simp add: ReadSlice_def)
qed (auto simp: ReadSlice_def)

lemma ReadBytes_loop_spec:
  assumes "reader_at b s e n" "length s < fuel"
  shows "\<exists>b'. case index_byte c s of
      Some i \<Rightarrow> ReadBytes_loop fuel c full b = Some (Inr (concat full @ take (Suc i) s), b') \<and> reader_at b' (drop (Suc i) s) e n
    | None \<Rightarrow> ReadBytes_loop fuel c full b = Some (Inl e, b') \<and> reader_at b' [] e n"
  using assms
proof (induction fuel arbitrary: full b s)
  case 0
  then show ?case by simp
next
  case (Suc fuel)
  consider (found) i where "index_byte c s = Some i" "i < n"
    | (full) "c \<notin> set (take n s)" "n \<le> length s" | (none) "c \<notin> set s" "length s < n"
  proof (cases "index_byte c (take n s)")
    case None
    then have "c \<notin> set (take n s)" by (metis index_byte_None)
    then show thesis using full none by (cases "n \<le> length s") auto
  next
    case (Some i)
    then show thesis using found [of i] by (simp add: index_byte_take split: option.splits if_splits)
  qed
  then show ?case
  proof cases
    case (found i)
    then show ?thesis using ReadSlice_found [OF Suc.prems(1) found] by auto
  next
    case full
    obtain b' where b': "ReadSlice c b = ((take n s, Some (ErrVar ErrBufferFull)), b')" "reader_at b' (drop n s) e n"
      using ReadSlice_full [OF Suc.prems(1) full] by blast
    have "length (drop n s) < fuel" using Suc.prems full reader_at_pos [OF Suc.prems(1)] by simp
    note IH = Suc.IH [OF b'(2) this, of "full @ [take n s]"]
    have step: "ReadBytes_loop (Suc fuel) c full b = ReadBytes_loop fuel c (full @ [take n s]) b'"
      by (simp add: b'(1))
    have idx: "index_byte c s = map_option (\<lambda>i. n + i) (index_byte c (drop n s))"
      using full index_byte_append [of c "take n s" "drop n s"] by (simp add: min_def)
    have tk: "take n s @ take (Suc i) (drop n s) = take (Suc (n + i)) s" for i
      by (metis add_Suc_right take_add)
    show ?thesis
      using IH unfolding step idx by (cases "index_byte c (drop n s)") (simp_all add: tk add.commute)
  next
    case none
    obtain b' where b': "ReadSlice c b = (([], Some e), b')" "reader_at b' [] e n"
      using ReadSlice_end [OF Suc.prems(1) none] by blast
    have "e \<noteq> ErrVar ErrBufferFull" using Suc.prems(1) by (rule reader_at_not_full)
    then show ?thesis using b' ReadSlice_rerr [OF b'(1)] none by auto
  qed
qed

lemma ReadBytes_found:
  assumes "reader_at b (xs @ c # ys) e n" "c \<notin> set xs" "Suc (length xs + length ys) < fuel"
  shows "\<exists>b'. ReadBytes fuel c b = Some (Inr (xs @ [c]), b') \<and> reader_at b' ys e n"
  using ReadBytes_loop_spec [OF assms(1), of fuel c "[]"] assms(2,3) by (simp add: ReadBytes_def index_byte_at)

lemma ReadBytes_end:
  assumes "reader_at b s e n" "c \<notin> set s" "length s < fuel"
  shows "\<exists>b'. ReadBytes fuel c b = Some (Inl e, b') \<and> reader_at b' [] e n"
  using ReadBytes_loop_spec [OF assms(1,3), of c "[]"] assms(2) by (simp add: ReadBytes_def)

text \<open>\<open>Read\<close>, with its path that bypasses the buffer, delivers a non-empty prefix of the stream.\<close>

lemma Read_direct:
  assumes "reader_at b s e n" "rerr b = None" "buffered b = 0" "0 < k" "length (rbuf b) \<le> k"
    "rd_read k (rd b) = ((d, err), s')"
  shows "case err of
      None \<Rightarrow> Read k b = ((d, None), b\<lparr>rd := s'\<rparr>) \<and> d \<noteq> [] \<and> length d \<le> k \<and> s = d @ sdata s'
              \<and> reader_at (b\<lparr>rd := s'\<rparr>) (sdata s') e n
    | Some er \<Rightarrow> Read k b = (([], Some e), b\<lparr>rd := s', rerr := Some e\<rparr>) \<and> s = []
              \<and> reader_at (b\<lparr>rd := s', rerr := Some e\<rparr>) [] e n"
proof -
  have inv: "rinv b" and cl: "clean (rd b)" and s: "s = window b @ sdata (rd b)" and e: "e = serr (rd b)"
    using assms(1) unfolding reader_at_ok [OF assms(2)] by blast+
  have w: "window b = []" using inv assms(3) by (simp add: buffered_window)
  have Read: "Read k b = ((d, rerr (case err of Some er \<Rightarrow> b\<lparr>rd := s', rerr := Some er\<rparr> | None \<Rightarrow> b\<lparr>rd := s'\<rparr>)),
      (case err of Some er \<Rightarrow> b\<lparr>rd := s', rerr := Some er\<rparr> | None \<Rightarrow> b\<lparr>rd := s'\<rparr>))"
    using assms by (auto simp: Read_def Let_def split: option.splits)
  have w': "window (b\<lparr>rd := x\<rparr>) = window b" "rinv (b\<lparr>rd := x\<rparr>) = rinv b" for x
    by (simp_all add: window_def rinv_def)
  show ?thesis
    using clean_rd_read [OF cl assms(4,6)] Read assms(1,2) s e w inv
    by (cases err) (auto simp: reader_at_ok reader_at_err w' rinv_def)
qed

lemma Read_buffered:
  assumes "rerr b = None" "0 < k" "buffered b = 0 \<Longrightarrow> k < length (rbuf b)"
  shows "Read k b = (let (e, b1) = (if buffered b = 0 then fill b else (None, b)) in
     case e of Some err \<Rightarrow> (([], rerr b1), b1)
     | None \<Rightarrow> ((take k (window b1), None), b1\<lparr>rpos := rpos b1 + length (take k (window b1))\<rparr>))"
  using assms by (cases "buffered b = 0") (auto simp: Read_def window_def Let_def split: prod.splits option.splits)

lemma Read_Cons:
  assumes "reader_at b s e n" "s \<noteq> []" "0 < k"
  shows "\<exists>d s' b'. Read k b = ((d, None), b') \<and> d \<noteq> [] \<and> length d \<le> k \<and> s = d @ s' \<and> reader_at b' s' e n"
proof -
  have ok: "rerr b = None" using assms by (auto simp: reader_at_def split: option.splits)
  show ?thesis
  proof (cases "buffered b = 0 \<and> length (rbuf b) \<le> k")
    case True
    obtain d err s' where r: "rd_read k (rd b) = ((d, err), s')" by (metis surj_pair)
    show ?thesis
      using Read_direct [OF assms(1) ok _ assms(3) _ r] True assms(2) by (cases err) auto
  next
    case False
    then have eq: "Read k b = (let (e, b1) = (if buffered b = 0 then fill b else (None, b)) in
       case e of Some err \<Rightarrow> (([], rerr b1), b1)
       | None \<Rightarrow> ((take k (window b1), None), b1\<lparr>rpos := rpos b1 + length (take k (window b1))\<rparr>))"
      using ok assms(3) by (intro Read_buffered) auto
    from assms(1) ok show ?thesis
    proof (cases rule: refill_cases)
      case (more b')
      have "Read k b = ((take k (window b'), None), b'\<lparr>rpos := rpos b' + length (take k (window b'))\<rparr>)"
        unfolding eq more(1) by simp
      moreover have "reader_at (b'\<lparr>rpos := rpos b' + length (take k (window b'))\<rparr>)
          (drop (length (take k (window b'))) s) e n"
        using more by (intro reader_at_advance) auto
      moreover have "s = take k (window b') @ drop (length (take k (window b'))) s"
        using more(2,3) by (auto simp: reader_at_ok min_def)
      ultimately show ?thesis using more(4) assms(3) by (metis length_take min.cobounded2 take_eq_Nil not_gr_zero)
    next
      case (stop b')
      then show ?thesis using assms(2) by simp
    qed
  qed
qed

lemma Read_Nil:
  assumes "reader_at b [] e n" "0 < k"
  shows "\<exists>b'. Read k b = (([], Some e), b') \<and> reader_at b' [] e n"
proof (cases "rerr b")
  case (Some e')
  then show ?thesis using assms by (auto simp: Read_def reader_at_err)
next
  case ok: None
  show ?thesis
  proof (cases "buffered b = 0 \<and> length (rbuf b) \<le> k")
    case True
    obtain d err s' where r: "rd_read k (rd b) = ((d, err), s')" by (metis surj_pair)
    show ?thesis
      using Read_direct [OF assms(1) ok _ assms(2) _ r] True by (cases err) auto
  next
    case False
    then have eq: "Read k b = (let (e, b1) = (if buffered b = 0 then fill b else (None, b)) in
       case e of Some err \<Rightarrow> (([], rerr b1), b1)
       | None \<Rightarrow> ((take k (window b1), None), b1\<lparr>rpos := rpos b1 + length (take k (window b1))\<rparr>))"
      using ok assms(2) by (intro Read_buffered) auto
    from assms(1) ok show ?thesis
    proof (cases rule: refill_cases)
      case (more b')
      then show ?thesis using window_hd_stream [OF more(2,3,4)] by simp
    next
      case (stop b')
      have "fill b = (Some e, b')" using stop(1) by (simp split: if_splits)
      then have "rerr b' = Some e" by (rule reader_at_Nil_rerr)
      then show ?thesis using stop unfolding eq stop(1) by simp
    qed
  qed
qed

lemma ReadAtLeast_spec:
  assumes "reader_at b s e n" "length s < fuel"
  shows "\<exists>b'. if m \<le> length got + length s
      then ReadAtLeast (Suc fuel) m got None b = Some ((got @ take (m - length got) s, None), b')
           \<and> reader_at b' (drop (m - length got) s) e n
      else ReadAtLeast (Suc fuel) m got None b
             = Some ((got @ s, Some (if got @ s \<noteq> [] \<and> e = ErrVar EOF then ErrVar ErrUnexpectedEOF else e)), b')
           \<and> reader_at b' [] e n"
  using assms
proof (induction fuel arbitrary: got b s)
  case 0
  then show ?case by simp
next
  case (Suc fuel)
  show ?case
  proof (cases "length got < m")
    case False
    then show ?thesis using Suc.prems by auto
  next
    case more: True
    show ?thesis
    proof (cases "s = []")
      case True
      obtain b' where "Read (m - length got) b = (([], Some e), b')" "reader_at b' [] e n"
        using Read_Nil [of b e n "m - length got"] Suc.prems True more by auto
      then show ?thesis using more True by auto
    next
      case False
      obtain d s' b' where r: "Read (m - length got) b = ((d, None), b')" "d \<noteq> []"
        "length d \<le> m - length got" "s = d @ s'" "reader_at b' s' e n"
        using Read_Cons [OF Suc.prems(1) False, of "m - length got"] more by auto
      then have "length s' < fuel" using Suc.prems by (cases d) auto
      note IH = Suc.IH [OF r(5) this, of "got @ d"]
      have step: "ReadAtLeast (Suc (Suc fuel)) m got None b = ReadAtLeast (Suc fuel) m (got @ d) None b'"
        using more r(1) by simp
      have tk: "take (m - length got) (d @ s') = d @ take (m - length (got @ d)) s'"
        "drop (m - length got) (d @ s') = drop (m - length (got @ d)) s'"
        using r(3) by simp_all
      show ?thesis
        using IH unfolding step r(4) tk by (simp only: append_assoc length_append add.assoc)
    qed
  qed
qed

lemma ReadFull_spec:
  assumes "reader_at b s e n" "0 < m" "Suc (length s) < fuel"
  shows "\<exists>b'. if m \<le> length s
      then ReadFull fuel m b = Some (Inr (take m s), b') \<and> reader_at b' (drop m s) e n
      else ReadFull fuel m b = Some (Inl (if s \<noteq> [] \<and> e = ErrVar EOF then ErrVar ErrUnexpectedEOF else e), b')
           \<and> reader_at b' [] e n"
proof (cases "rerr b")
  case (Some e')
  then show ?thesis using assms by (auto simp: ReadFull_def reader_at_err)
next
  case None
  obtain f where "fuel = Suc f" "length s < f" using assms(3) by (cases fuel) auto
  then show ?thesis
    using ReadAtLeast_spec [OF assms(1), of f m "[]"] None assms(2)
    by (auto simp: ReadFull_def split: if_splits)
qed

subsection \<open>Progress under every environment\<close>

text \<open>
  For scripts of any shape: what is left of the buffer and of the script, counted so that a
  result without data weighs too. No operation adds weight and every iteration of a loop removes
  some, so fuel above the weight is enough.
\<close>

fun script_weight :: "script \<Rightarrow> nat" where
  "script_weight [] = 0"
| "script_weight ((d, e) # s) = Suc (length d + script_weight s)"

definition weight :: "reader \<Rightarrow> nat" where
  "weight b = length (window b) + script_weight (rd b)"

definition no_full :: "script \<Rightarrow> bool" where
  "no_full s \<longleftrightarrow> list_all (\<lambda>(d, e). e \<noteq> Some (ErrVar ErrBufferFull)) s"

definition live :: "reader \<Rightarrow> bool" where
  "live b \<longleftrightarrow> rinv b \<and> no_full (rd b) \<and> rerr b \<noteq> Some (ErrVar ErrBufferFull)"

definition no_heavier :: "reader \<Rightarrow> reader \<Rightarrow> bool" where
  "no_heavier b' b \<longleftrightarrow> live b' \<and> weight b' \<le> weight b"

definition lighter :: "reader \<Rightarrow> reader \<Rightarrow> bool" where
  "lighter b' b \<longleftrightarrow> live b' \<and> weight b' < weight b"

lemma lighter_imp [simp]: "lighter b' b \<Longrightarrow> no_heavier b' b"
  by (simp add: lighter_def no_heavier_def)

lemma no_heavier_refl: "live b \<Longrightarrow> no_heavier b b"
  by (simp add: no_heavier_def)

lemma no_heavier_trans: "no_heavier c b \<Longrightarrow> no_heavier b a \<Longrightarrow> no_heavier c a"
  by (simp add: no_heavier_def)

lemma lighter_trans1: "lighter c b \<Longrightarrow> no_heavier b a \<Longrightarrow> lighter c a"
  by (simp add: no_heavier_def lighter_def)

lemma lighter_trans2: "no_heavier c b \<Longrightarrow> lighter b a \<Longrightarrow> lighter c a"
  by (simp add: no_heavier_def lighter_def)

lemma no_heavier_live: "no_heavier b' b \<Longrightarrow> live b'"
  by (simp add: no_heavier_def)

lemma rd_read_weight:
  "rd_read k s = ((d, e), s') \<Longrightarrow> no_full s \<Longrightarrow>
   no_full s' \<and> e \<noteq> Some (ErrVar ErrBufferFull) \<and> length d + script_weight s' \<le> script_weight s
   \<and> (0 < k \<longrightarrow> e = None \<longrightarrow> script_weight s' < script_weight s)"
  by (cases "(k, s)" rule: rd_read.cases) (auto simp: no_full_def split: if_splits)

lemma fill_weight:
  assumes "live b" "fill b = (e, b')"
  shows "no_heavier b' b"
proof (cases "rerr b")
  case (Some x)
  then show ?thesis using assms by (simp add: fill_def no_heavier_def)
next
  case None
  obtain d er s where r: "rd_read (length (rbuf b) - wpos (slide b)) (rd b) = ((d, er), s)"
    by (metis surj_pair)
  have inv: "rinv b" "no_full (rd b)" using assms(1) by (simp_all add: live_def)
  have ws: "wpos (slide b) = length (window b)" "rinv (slide b)" "rbuf (slide b) \<noteq> []"
    using inv rinv_window [OF inv(1)] length_rbuf_slide [of b]
    by (auto simp: slide_def rinv_def overwrite_def)
  have len: "length d \<le> length (rbuf b) - wpos (slide b)" using r by (rule length_rd_read)
  have win: "take (wpos (slide b)) (rbuf (slide b)) = window b"
    by (subst window_slide [symmetric]) (simp add: window_def)
  let ?b2 = "(slide b)\<lparr>rbuf := overwrite (rbuf (slide b)) (wpos (slide b)) d, rd := s\<rparr>"
  have fill: "fill b = (let b3 = (case er of Some err \<Rightarrow> ?b2\<lparr>rerr := Some err\<rparr>
      | None \<Rightarrow> if length d = 0 then ?b2\<lparr>rerr := Some (ErrVar ErrNoProgress)\<rparr>
                else ?b2\<lparr>wpos := wpos ?b2 + length d\<rparr>) in (rerr b3, b3))"
    using None r by (simp add: fill_def Let_def)
  have wb: "wpos (slide b) \<le> length (rbuf (slide b))" using ws by (simp add: rinv_def)
  have win0: "window (?b2\<lparr>rerr := x\<rparr>) = window b" for x
    unfolding win [symmetric] using wb by (simp add: window_def overwrite_def)
  have win1: "window (?b2\<lparr>wpos := wpos ?b2 + length d\<rparr>) = window b @ d"
    unfolding win [symmetric] using wb by (simp add: window_def take_overwrite)
  have wt: "no_full s" "er \<noteq> Some (ErrVar ErrBufferFull)" "length d + script_weight s \<le> script_weight (rd b)"
    using rd_read_weight [OF r inv(2)] by simp_all
  have rb: "length (rbuf ?b2) = length (rbuf b)" "rbuf ?b2 \<noteq> []"
  proof -
    show l: "length (rbuf ?b2) = length (rbuf b)" using len wb by (simp add: overwrite_def)
    have "rbuf b \<noteq> []" using inv(1) by (simp add: rinv_def)
    with l show "rbuf ?b2 \<noteq> []" by (metis length_0_conv)
  qed
  show ?thesis
  proof (cases "er = None \<and> d \<noteq> []")
    case True
    then have "b' = ?b2\<lparr>wpos := wpos ?b2 + length d\<rparr>" using fill assms(2) by simp
    then show ?thesis
      using wt rb len wb win1 None by (simp add: no_heavier_def live_def weight_def rinv_def)
  next
    case False
    then obtain x where x: "b' = ?b2\<lparr>rerr := Some x\<rparr>" "x \<noteq> ErrVar ErrBufferFull"
      using fill assms(2) wt(2) by (cases er) (auto simp: Let_def)
    then show ?thesis
      using wt rb wb win0 by (simp add: no_heavier_def live_def weight_def rinv_def)
  qed
qed

lemma advance_weight:
  assumes "live b" "k \<le> length (window b)"
  shows "live (b\<lparr>rpos := rpos b + k\<rparr>) \<and> weight (b\<lparr>rpos := rpos b + k\<rparr>) = weight b - k
         \<and> length (window (b\<lparr>rpos := rpos b + k\<rparr>)) = length (window b) - k"
  using assms rinv_window [of b] by (auto simp: live_def weight_def rinv_def window_def)

lemma refill_weight:
  assumes "live b" "(if buffered b = 0 then fill b else (None, b)) = (e, b')"
  shows "no_heavier b' b \<and> (e = None \<longrightarrow> window b' \<noteq> [])"
proof (cases "buffered b = 0")
  case True
  then show ?thesis using assms fill_weight [OF assms(1), of e b'] fill_progress [of b b'] by auto
next
  case False
  then show ?thesis using assms by (auto simp: live_def buffered_window no_heavier_def)
qed

lemma ReadByte_weight:
  assumes "live b" "ReadByte b = (r, b')"
  shows "no_heavier b' b \<and> (\<forall>c. r = Inr c \<longrightarrow> lighter b' b)"
proof -
  obtain e b1 where f: "(if buffered b = 0 then fill b else (None, b)) = (e, b1)" by (metis surj_pair)
  note w = refill_weight [OF assms(1) f]
  have "window b1 \<noteq> [] \<Longrightarrow> live b1 \<Longrightarrow> lighter (b1\<lparr>rpos := Suc (rpos b1)\<rparr>) b1"
    using advance_weight [of b1 1] by (cases "window b1") (auto simp: lighter_def weight_def)
  then show ?thesis
    using assms w f no_heavier_refl [OF assms(1)]
    by (auto simp: ReadByte_def Let_def split: option.splits dest: no_heavier_live
        intro: lighter_trans1 no_heavier_trans lighter_imp)
qed

lemma PeekByte_weight:
  assumes "live b" "PeekByte b = (r, b')"
  shows "no_heavier b' b"
proof -
  obtain e b1 where f: "(if buffered b = 0 then fill b else (None, b)) = (e, b1)" by (metis surj_pair)
  show ?thesis
    using assms refill_weight [OF assms(1) f] f no_heavier_refl [OF assms(1)]
    by (auto simp: PeekByte_def Let_def split: option.splits)
qed

lemma ReadSlice_loop_weight:
  assumes "live b" "ReadSlice_loop c b = ((f, e), b')"
  shows "no_heavier b' b \<and> (e = Some (ErrVar ErrBufferFull) \<longrightarrow> lighter b' b)"
  using assms
proof (induction c b rule: ReadSlice_loop.induct)
  case (1 c b)
  have inv: "rinv b" using "1.prems" by (simp add: live_def)
  show ?case
  proof (cases "index_byte c (window b)")
    case (Some i)
    then have "Suc i \<le> length (window b)" by (auto dest: index_byte_SomeD)
    then show ?thesis using Some "1.prems" advance_weight [of b "Suc i"]
      by (auto simp: ReadSlice_loop.simps [of c b] no_heavier_def)
  next
    case None
    show ?thesis
    proof (cases "buffered b = length (rbuf b)")
      case full: True
      have "0 < length (rbuf b)" using inv by (cases "rbuf b") (auto simp: rinv_def)
      then have "0 < length (window b)" "rpos b + length (window b) = wpos b"
        using full inv by (auto simp: buffered_def rinv_window rinv_def)
      then show ?thesis using full None "1.prems" advance_weight [of b "length (window b)"]
        by (auto simp: ReadSlice_loop.simps [of c b] no_heavier_def lighter_def weight_def)
    next
      case room: False
      obtain er b1 where fl: "fill b = (er, b1)" by (metis surj_pair)
      have w: "no_heavier b1 b" using "1.prems"(1) fl by (rule fill_weight)
      show ?thesis
      proof (cases er)
        case None
        have "ReadSlice_loop c b1 = ((f, e), b')"
          using "1.prems"(2) \<open>index_byte c (window b) = None\<close> room fl None
          by (simp add: ReadSlice_loop.simps [of c b])
        then show ?thesis
          using "1.IH" [OF \<open>index_byte c (window b) = None\<close> room fl [symmetric] None no_heavier_live [OF w]] w
          by (auto intro: no_heavier_trans lighter_trans1)
      next
        case (Some x)
        have "x \<noteq> ErrVar ErrBufferFull"
          using fl Some reader_at_Nil_rerr [of b x b1] no_heavier_live [OF w] by (auto simp: live_def)
        then show ?thesis
          using "1.prems"(2) \<open>index_byte c (window b) = None\<close> room fl Some w
          by (auto simp: ReadSlice_loop.simps [of c b])
      qed
    qed
  qed
qed

lemma ReadSlice_weight:
  assumes "live b" "ReadSlice c b = ((f, e), b')"
  shows "no_heavier b' b \<and> (e = Some (ErrVar ErrBufferFull) \<longrightarrow> lighter b' b)"
  using assms ReadSlice_loop_weight [OF assms(1)] no_heavier_refl [OF assms(1)]
  by (auto simp: ReadSlice_def live_def split: option.splits)

lemma ReadBytes_loop_weight:
  assumes "live b" "weight b < fuel"
  shows "\<exists>r b'. ReadBytes_loop fuel c full b = Some (r, b') \<and> no_heavier b' b"
  using assms
proof (induction fuel arbitrary: full b)
  case 0
  then show ?case by simp
next
  case (Suc fuel)
  obtain f e b1 where r: "ReadSlice c b = ((f, e), b1)" by (metis surj_pair)
  note w = ReadSlice_weight [OF Suc.prems(1) r]
  show ?case
  proof (cases "e = Some (ErrVar ErrBufferFull)")
    case True
    then have l: "lighter b1 b" using w by simp
    then have "live b1" "weight b1 < fuel" using Suc.prems(2) by (auto simp: lighter_def)
    then show ?thesis using Suc.IH [of b1 "full @ [f]"] r True w by (auto intro: no_heavier_trans)
  next
    case False
    then show ?thesis using r w by (cases e) auto
  qed
qed

lemma ReadBytes_weight:
  "live b \<Longrightarrow> weight b < fuel \<Longrightarrow> \<exists>r b'. ReadBytes fuel c b = Some (r, b') \<and> no_heavier b' b"
  by (simp add: ReadBytes_def ReadBytes_loop_weight)

lemma Read_weight:
  assumes "live b" "0 < k" "Read k b = ((d, e), b')"
  shows "no_heavier b' b \<and> (e = None \<longrightarrow> lighter b' b) \<and> length d \<le> k"
proof (cases "rerr b")
  case (Some x)
  then show ?thesis using assms no_heavier_refl [OF assms(1)] by (auto simp: Read_def)
next
  case ok: None
  show ?thesis
  proof (cases "buffered b = 0 \<and> length (rbuf b) \<le> k")
    case True
    obtain d' er s where r: "rd_read k (rd b) = ((d', er), s)" by (metis surj_pair)
    have w: "window (b\<lparr>rd := x\<rparr>) = window b" "window (b\<lparr>rd := x, rerr := y\<rparr>) = window b" for x y
      by (simp_all add: window_def)
    show ?thesis
      using assms ok True r rd_read_weight [OF r] length_rd_read [OF r]
      by (cases er) (auto simp: Read_def no_heavier_def lighter_def live_def weight_def w rinv_def)
  next
    case False
    then have eq: "Read k b = (let (e, b1) = (if buffered b = 0 then fill b else (None, b)) in
       case e of Some err \<Rightarrow> (([], rerr b1), b1)
       | None \<Rightarrow> ((take k (window b1), None), b1\<lparr>rpos := rpos b1 + length (take k (window b1))\<rparr>))"
      using ok assms(2) by (intro Read_buffered) auto
    obtain er b1 where f: "(if buffered b = 0 then fill b else (None, b)) = (er, b1)" by (metis surj_pair)
    note w = refill_weight [OF assms(1) f]
    show ?thesis
    proof (cases er)
      case None
      then have "window b1 \<noteq> []" "live b1" using w by (auto simp: no_heavier_def)
      then have "lighter (b1\<lparr>rpos := rpos b1 + length (take k (window b1))\<rparr>) b1"
        using advance_weight [of b1 "length (take k (window b1))"] assms(2)
        by (cases "window b1"; cases k) (auto simp: lighter_def weight_def)
      then show ?thesis using assms(3) w None unfolding eq f by (auto intro: lighter_trans1 lighter_imp)
    next
      case (Some x)
      have "rerr b1 = Some x"
        using f Some reader_at_Nil_rerr by (auto split: if_splits)
      then show ?thesis using assms(3) w Some unfolding eq f by auto
    qed
  qed
qed

lemma ReadAtLeast_weight:
  assumes "live b" "weight b < fuel"
  shows "\<exists>r b'. ReadAtLeast (Suc fuel) m got None b = Some (r, b') \<and> no_heavier b' b"
  using assms
proof (induction fuel arbitrary: got b)
  case 0
  then show ?case by simp
next
  case (Suc fuel)
  show ?case
  proof (cases "length got < m")
    case False
    then show ?thesis using Suc.prems no_heavier_refl by auto
  next
    case True
    then have m: "0 < m - length got" by simp
    obtain d e b1 where r: "Read (m - length got) b = ((d, e), b1)" by (metis surj_pair)
    note w = Read_weight [OF Suc.prems(1) m r]
    show ?thesis
    proof (cases e)
      case None
      then have "live b1" "weight b1 < fuel" using w Suc.prems by (auto simp: lighter_def)
      from Suc.IH [OF this, of "got @ d"] obtain r' b' where
        "ReadAtLeast (Suc fuel) m (got @ d) None b1 = Some (r', b')" "no_heavier b' b1" by blast
      moreover have "ReadAtLeast (Suc (Suc fuel)) m got None b = ReadAtLeast (Suc fuel) m (got @ d) None b1"
        using True r None by simp
      ultimately show ?thesis using w by (auto intro: no_heavier_trans)
    next
      case (Some x)
      then show ?thesis using True r w by auto
    qed
  qed
qed

lemma ReadFull_weight:
  assumes "live b" "Suc (weight b) < fuel"
  shows "\<exists>r b'. ReadFull fuel m b = Some (r, b') \<and> no_heavier b' b"
proof -
  obtain f where f: "fuel = Suc f" "weight b < f" using assms(2) by (cases fuel) auto
  from ReadAtLeast_weight [OF assms(1) f(2), of m "[]"] obtain buf e b' where
    "ReadAtLeast fuel m [] None b = Some ((buf, e), b')" "no_heavier b' b" unfolding f(1) by auto
  then show ?thesis
    using no_heavier_refl [OF assms(1)] by (cases e) (auto simp: ReadFull_def)
qed

subsection \<open>The slice allocator\<close>

text \<open>
  \<open>sliceAlloc\<close> of \<open>pkg/utils/bufio2/slice.go\<close>. A slice is a range of a memory block; the
  allocator's state is the number of blocks made so far and the unused tail of the block it cuts
  small slices from. \<open>Make\<close> returns the slice and the new state.
\<close>

record slice =
  sblock :: nat
  sstart :: nat
  slen :: nat

record sliceAlloc =
  nblocks :: nat
  atail :: slice

fun Make :: "nat \<Rightarrow> sliceAlloc \<Rightarrow> slice \<times> sliceAlloc" where
  "Make n d =
     (if n = 0 then (\<lparr>sblock = nblocks d, sstart = 0, slen = 0\<rparr>, d\<lparr>nblocks := Suc (nblocks d)\<rparr>)
      else if n \<ge> 512 then (\<lparr>sblock = nblocks d, sstart = 0, slen = n\<rparr>, d\<lparr>nblocks := Suc (nblocks d)\<rparr>)
      else
        (let d1 = (if slen (atail d) < n
                   then d\<lparr>atail := \<lparr>sblock = nblocks d, sstart = 0, slen = 8192\<rparr>, nblocks := Suc (nblocks d)\<rparr>
                   else d)
         in ((atail d1)\<lparr>slen := n\<rparr>,
             d1\<lparr>atail := (atail d1)\<lparr>sstart := sstart (atail d1) + n, slen := slen (atail d1) - n\<rparr>\<rparr>)))"

declare Make.simps [simp del]

definition NewSliceAlloc :: sliceAlloc where
  "NewSliceAlloc = \<lparr>nblocks = 1, atail = \<lparr>sblock = 0, sstart = 0, slen = 0\<rparr>\<rparr>"

fun MakeAll :: "nat list \<Rightarrow> sliceAlloc \<Rightarrow> slice list \<times> sliceAlloc" where
  "MakeAll [] d = ([], d)"
| "MakeAll (n # ns) d =
     (let (s, d1) = Make n d; (ss, d2) = MakeAll ns d1 in (s # ss, d2))"

text \<open>The memory cells a slice covers.\<close>

definition cells :: "slice \<Rightarrow> (nat \<times> nat) set" where
  "cells s = {sblock s} \<times> {sstart s ..< sstart s + slen s}"

definition alloc_inv :: "sliceAlloc \<Rightarrow> (nat \<times> nat) set \<Rightarrow> bool" where
  "alloc_inv d used \<longleftrightarrow> sblock (atail d) < nblocks d \<and> fst ` used \<subseteq> {..< nblocks d} \<and> cells (atail d) \<inter> used = {}"

lemma cells_cut:
  assumes "n \<le> slen t"
  shows "cells (t\<lparr>slen := n\<rparr>) \<subseteq> cells t"
    "cells (t\<lparr>sstart := sstart t + n, slen := slen t - n\<rparr>) \<subseteq> cells t"
    "cells (t\<lparr>sstart := sstart t + n, slen := slen t - n\<rparr>) \<inter> cells (t\<lparr>slen := n\<rparr>) = {}"
  using assms by (auto simp: cells_def)

lemma fst_cells: "fst ` cells s \<subseteq> {sblock s}"
  by (auto simp: cells_def)

lemma alloc_inv_cut:
  assumes "alloc_inv d used" "n \<le> slen (atail d)"
  shows "alloc_inv (d\<lparr>atail := (atail d)\<lparr>sstart := sstart (atail d) + n, slen := slen (atail d) - n\<rparr>\<rparr>)
           (used \<union> cells ((atail d)\<lparr>slen := n\<rparr>)) \<and> cells ((atail d)\<lparr>slen := n\<rparr>) \<inter> used = {}"
proof -
  have inv: "sblock (atail d) < nblocks d" "fst ` used \<subseteq> {..< nblocks d}" "cells (atail d) \<inter> used = {}"
    using assms(1) by (simp_all add: alloc_inv_def)
  have "fst ` cells ((atail d)\<lparr>slen := n\<rparr>) \<subseteq> {..< nblocks d}"
    using fst_cells [of "(atail d)\<lparr>slen := n\<rparr>"] inv(1) by auto
  then show ?thesis
    using inv cells_cut [OF assms(2)] by (auto simp: alloc_inv_def)
qed

lemma fresh_block:
  assumes "alloc_inv d used" "sblock t = nblocks d"
  shows "cells t \<inter> used = {}" "cells (atail d) \<inter> cells t = {}"
  using assms by (force simp: alloc_inv_def cells_def)+

lemma alloc_inv_new_block:
  assumes "alloc_inv d used"
  shows "alloc_inv (d\<lparr>atail := \<lparr>sblock = nblocks d, sstart = 0, slen = k\<rparr>, nblocks := Suc (nblocks d)\<rparr>) used"
  using assms fresh_block(1) [OF assms, of "\<lparr>sblock = nblocks d, sstart = 0, slen = k\<rparr>"]
  by (auto simp: alloc_inv_def)

lemma alloc_inv_whole_block:
  assumes "alloc_inv d used" "sblock t = nblocks d"
  shows "alloc_inv (d\<lparr>nblocks := Suc (nblocks d)\<rparr>) (used \<union> cells t)"
  using assms(1) fresh_block [OF assms] fst_cells [of t] assms(2)
  by (auto simp: alloc_inv_def image_Un Int_Un_distrib)

lemma Make_inv:
  assumes "alloc_inv d used" "Make n d = (s, d')"
  shows "alloc_inv d' (used \<union> cells s) \<and> cells s \<inter> used = {} \<and> slen s = n"
proof -
  consider (whole) "n = 0 \<or> n \<ge> 512" | (new) "0 < n" "n < 512" "slen (atail d) < n"
    | (cut) "0 < n" "n < 512" "n \<le> slen (atail d)" by linarith
  then show ?thesis
  proof cases
    case whole
    then have s: "s = \<lparr>sblock = nblocks d, sstart = 0, slen = n\<rparr>" "d' = d\<lparr>nblocks := Suc (nblocks d)\<rparr>"
      using assms(2) by (auto simp: Make.simps)
    then show ?thesis
      using alloc_inv_whole_block [OF assms(1), of s] fresh_block(1) [OF assms(1), of s] by simp
  next
    case new
    then show ?thesis
      using assms(2) alloc_inv_cut [OF alloc_inv_new_block [OF assms(1), of 8192], of n]
      by (auto simp: Make.simps Let_def)
  next
    case cut
    then show ?thesis
      using assms(2) alloc_inv_cut [OF assms(1), of n] by (auto simp: Make.simps Let_def)
  qed
qed

lemma MakeAll_inv:
  assumes "alloc_inv d used" "MakeAll ns d = (ss, d')"
  shows "map slen ss = ns \<and> (\<forall>s \<in> set ss. cells s \<inter> used = {}) \<and>
         (\<forall>i < length ss. \<forall>j < i. cells (ss ! i) \<inter> cells (ss ! j) = {})"
  using assms
proof (induction ns arbitrary: d used ss)
  case Nil
  then show ?case by simp
next
  case (Cons n ns)
  obtain s d1 where m: "Make n d = (s, d1)" by (metis surj_pair)
  obtain ss' where ss: "MakeAll ns d1 = (ss', d')" "ss = s # ss'"
    using Cons.prems(2) m by (auto split: prod.splits)
  note inv = Make_inv [OF Cons.prems(1) m]
  then have IH: "map slen ss' = ns" "\<forall>t \<in> set ss'. cells t \<inter> (used \<union> cells s) = {}"
    "\<forall>i < length ss'. \<forall>j < i. cells (ss' ! i) \<inter> cells (ss' ! j) = {}"
    using Cons.IH [OF _ ss(1)] by blast+
  have "cells (ss ! i) \<inter> cells (ss ! j) = {}" if "i < length ss" "j < i" for i j
  proof (cases j)
    case 0
    then show ?thesis using that IH(2) ss(2) by (cases i) (auto dest: nth_mem)
  next
    case (Suc k)
    then show ?thesis using that IH(3) ss(2) by (cases i) auto
  qed
  then show ?case using IH inv ss(2) by auto
qed

subsection \<open>Property\<close>

text \<open>
  Slices never overlap. Whatever sizes are asked for, small ones cut from a shared block or
  large ones with a block of their own, the allocator hands out slices of the requested
  lengths, and no two of them share a byte.
\<close>

theorem slices_disjoint:
  "map slen (fst (MakeAll ns NewSliceAlloc)) = ns \<and>
   (\<forall>i j. j < i \<and> i < length ns \<longrightarrow>
      cells (fst (MakeAll ns NewSliceAlloc) ! i) \<inter> cells (fst (MakeAll ns NewSliceAlloc) ! j) = {})"
proof -
  obtain ss d' where m: "MakeAll ns NewSliceAlloc = (ss, d')" by (metis surj_pair)
  have "alloc_inv NewSliceAlloc {}" by (simp add: alloc_inv_def NewSliceAlloc_def cells_def)
  from MakeAll_inv [OF this m] have "map slen ss = ns"
    "\<forall>i < length ss. \<forall>j < i. cells (ss ! i) \<inter> cells (ss ! j) = {}" by blast+
  moreover from this(1) have "length ss = length ns" by (metis length_map)
  ultimately show ?thesis using m by auto
qed

theorem slices_disjoint_witness:
  "cells (fst (MakeAll [16, 600, 16] NewSliceAlloc) ! 2) \<inter> cells (fst (MakeAll [16, 600, 16] NewSliceAlloc) ! 0) = {}"
  using slices_disjoint [of "[16, 600, 16]"] by auto

end
