(* ===== verification/Decoder.thy ===== *)
theory Decoder
  imports Resp BufReader
begin

section \<open>The decoder\<close>

text \<open>
  Models \<open>pkg/proxy/redis/decoder.go\<close> over the buffered reader. A step takes the reader and
  returns an error or a value with the reader after it; \<open>None\<close> is fuel running out, which
  \<open>decodeResp_returns\<close> and \<open>decodeMultiBulk_returns\<close> exclude for a fuel above the weight of
  the reader (the bytes and read results it still stands for). When Go returns both a value
  and an error, every caller looks at the error only, so the model keeps the error.
\<close>

type_synonym 'a decoding = "((goerror + 'a) \<times> reader) option"

subsection \<open>Sequencing\<close>

text \<open>\<open>x, err := f(); if err != nil { return nil, err }\<close>, and the same with \<open>errors.Trace(err)\<close>.\<close>

definition on_ok :: "'a decoding \<Rightarrow> ('a \<Rightarrow> reader \<Rightarrow> 'b decoding) \<Rightarrow> 'b decoding" where
  "on_ok m f = (case m of None \<Rightarrow> None | Some (Inl e, b) \<Rightarrow> Some (Inl e, b) | Some (Inr x, b) \<Rightarrow> f x b)"

definition traced :: "'a decoding \<Rightarrow> 'a decoding" where
  "traced m = (case m of Some (Inl e, b) \<Rightarrow> Some (Inl (Trace e), b) | _ \<Rightarrow> m)"

definition fail_with :: "errvar \<Rightarrow> reader \<Rightarrow> 'a decoding" where
  "fail_with v b = Some (Inl (Trace (ErrVar v)), b)"

lemma on_ok_simps [simp]:
  "on_ok None f = None" "on_ok (Some (Inl e, b)) f = Some (Inl e, b)" "on_ok (Some (Inr x, b)) f = f x b"
  by (simp_all add: on_ok_def)

lemma traced_simps [simp]:
  "traced None = None" "traced (Some (Inl e, b)) = Some (Inl (Trace e), b)"
  "traced (Some (Inr x, b)) = Some (Inr x, b)"
  by (simp_all add: traced_def)

lemma on_ok_Inr:
  "on_ok m f = Some (Inr y, b') \<longleftrightarrow> (\<exists>x b. m = Some (Inr x, b) \<and> f x b = Some (Inr y, b'))"
  by (auto simp: on_ok_def split: option.splits sum.splits)

lemma traced_Inr: "traced m = Some (Inr y, b') \<longleftrightarrow> m = Some (Inr y, b')"
  by (auto simp: traced_def split: option.splits sum.splits)

lemma fail_with_Inr [simp]: "fail_with v b = Some (Inr y, b') \<longleftrightarrow> False"
  by (simp add: fail_with_def)

subsection \<open>The parts of a value\<close>

text \<open>\<open>n := len(b) - 2; n < 0 || b[n] != '\r'\<close> of a line, else the line without its end.\<close>

definition trim_line :: "bytes \<Rightarrow> bytes option" where
  "trim_line b = (if length b < 2 \<or> b ! (length b - 2) \<noteq> CR then None else Some (take (length b - 2) b))"

definition decodeTextBytes :: "nat \<Rightarrow> reader \<Rightarrow> bytes decoding" where
  "decodeTextBytes fuel b =
     on_ok (traced (ReadBytes fuel LF b)) (\<lambda>l b'.
       case trim_line l of None \<Rightarrow> fail_with ErrBadCRLFEnd b' | Some t \<Rightarrow> Some (Inr t, b'))"

definition decodeInt :: "reader \<Rightarrow> int decoding" where
  "decodeInt b =
     (case ReadSlice LF b of
        ((l, Some e), b') \<Rightarrow> Some (Inl (Trace e), b')
      | ((l, None), b') \<Rightarrow>
          (case trim_line l of None \<Rightarrow> fail_with ErrBadCRLFEnd b' | Some t \<Rightarrow> Some (Btoi64 t, b')))"

definition decodeBulkBytes :: "nat \<Rightarrow> reader \<Rightarrow> bytes option decoding" where
  "decodeBulkBytes fuel b =
     on_ok (decodeInt b) (\<lambda>n b1.
       if n < -1 then fail_with ErrBadBulkBytesLen b1
       else if n > MaxBulkBytesLen then fail_with ErrBadBulkBytesLenTooLong b1
       else if n = -1 then Some (Inr None, b1)
       else
         on_ok (traced (ReadFull fuel (nat n + 2) b1)) (\<lambda>p b2.
           if p ! nat n \<noteq> CR \<or> p ! (nat n + 1) \<noteq> LF then fail_with ErrBadCRLFEnd b2
           else Some (Inr (Some (take (nat n) p)), b2)))"

text \<open>
  The loop \<open>for i := range array\<close> and \<open>decodeArray\<close>, with the decoder of the elements as an
  argument: \<open>decodeResp\<close> below ties the knot.
\<close>

primrec decodeItems :: "(reader \<Rightarrow> resp decoding) \<Rightarrow> nat \<Rightarrow> reader \<Rightarrow> resp list decoding" where
  "decodeItems dec 0 b = Some (Inr [], b)"
| "decodeItems dec (Suc k) b =
     on_ok (dec b) (\<lambda>r b1. on_ok (decodeItems dec k b1) (\<lambda>rs b2. Some (Inr (r # rs), b2)))"

definition decodeArray :: "(reader \<Rightarrow> resp decoding) \<Rightarrow> reader \<Rightarrow> resp list option decoding" where
  "decodeArray dec b =
     on_ok (decodeInt b) (\<lambda>n b1.
       if n < -1 then fail_with ErrBadArrayLen b1
       else if n > MaxArrayLen then fail_with ErrBadArrayLenTooLong b1
       else if n = -1 then Some (Inr None, b1)
       else on_ok (decodeItems dec (nat n) b1) (\<lambda>rs b2. Some (Inr (Some rs), b2)))"

primrec decodeResp :: "nat \<Rightarrow> reader \<Rightarrow> resp decoding" where
  "decodeResp 0 b = None"
| "decodeResp (Suc fuel) b =
     (case ReadByte b of
        (Inl e, b1) \<Rightarrow> Some (Inl (Trace e), b1)
      | (Inr t, b1) \<Rightarrow>
          if t = TypeString \<or> t = TypeError \<or> t = TypeInt then
            on_ok (decodeTextBytes fuel b1) (\<lambda>v b2. Some (Inr (Resp t (Some v) None), b2))
          else if t = TypeBulkBytes then
            on_ok (decodeBulkBytes fuel b1) (\<lambda>v b2. Some (Inr (Resp t v None), b2))
          else if t = TypeArray then
            on_ok (decodeArray (decodeResp fuel) b1) (\<lambda>a b2. Some (Inr (Resp t None a), b2))
          else Some (Inl (Errorf (''bad resp type '' @ RespType_String t)), b1))"

subsection \<open>Requests\<close>

text \<open>The scan of an inline command: \<open>l\<close> is the start of the current word, \<open>r\<close> the position.\<close>

function splitLoop :: "nat \<Rightarrow> nat \<Rightarrow> bytes \<Rightarrow> resp list \<Rightarrow> resp list" where
  "splitLoop l r b multi =
     (if r \<le> length b then
        (if r = length b \<or> b ! r = CHR '' '' then
           splitLoop (r + 1) (r + 1) b
             (if l < r then multi @ [NewBulkBytes (Some (take (r - l) (drop l b)))] else multi)
         else splitLoop l (r + 1) b multi)
      else multi)"
  by pat_completeness auto
termination by (relation "measure (\<lambda>(l, r, b, multi). Suc (length b) - r)") auto

declare splitLoop.simps [simp del]

definition decodeSingleLineMultiBulk :: "nat \<Rightarrow> reader \<Rightarrow> resp list decoding" where
  "decodeSingleLineMultiBulk fuel b =
     on_ok (decodeTextBytes fuel b) (\<lambda>l b1.
       let multi = splitLoop 0 0 l [] in
       if length multi = 0 then fail_with ErrBadMultiBulkLen b1 else Some (Inr multi, b1))"

text \<open>The loop of \<open>decodeMultiBulk\<close>, which refuses an element that is not a bulk string.\<close>

primrec decodeBulkItems :: "nat \<Rightarrow> nat \<Rightarrow> reader \<Rightarrow> resp list decoding" where
  "decodeBulkItems fuel 0 b = Some (Inr [], b)"
| "decodeBulkItems fuel (Suc k) b =
     on_ok (decodeResp fuel b) (\<lambda>r b1.
       if rtype r \<noteq> TypeBulkBytes then fail_with ErrBadMultiBulkContent b1
       else on_ok (decodeBulkItems fuel k b1) (\<lambda>rs b2. Some (Inr (r # rs), b2)))"

definition decodeMultiBulk :: "nat \<Rightarrow> reader \<Rightarrow> resp list decoding" where
  "decodeMultiBulk fuel b =
     (case PeekByte b of
        (Inl e, b1) \<Rightarrow> Some (Inl (Trace e), b1)
      | (Inr c, b1) \<Rightarrow>
          if c \<noteq> TypeArray then decodeSingleLineMultiBulk fuel b1
          else
            (case ReadByte b1 of
               (Inl e, b2) \<Rightarrow> Some (Inl (Trace e), b2)
             | (Inr _, b2) \<Rightarrow>
                 on_ok (traced (decodeInt b2)) (\<lambda>n b3.
                   if n \<le> 0 then fail_with ErrBadArrayLen b3
                   else if n > MaxArrayLen then fail_with ErrBadArrayLenTooLong b3
                   else decodeBulkItems fuel (nat n) b3)))"

subsection \<open>The decoder object\<close>

record decoder =
  dbr :: reader
  dErr :: "goerror option"

definition NewDecoderBuffer :: "reader \<Rightarrow> decoder" where
  "NewDecoderBuffer br = \<lparr>dbr = br, dErr = None\<rparr>"

definition NewDecoderSize :: "script \<Rightarrow> int \<Rightarrow> decoder" where
  "NewDecoderSize r sz = NewDecoderBuffer (NewReaderSize r sz)"

definition NewDecoder :: "script \<Rightarrow> decoder" where
  "NewDecoder r = NewDecoderBuffer (NewReaderSize r 8192)"

definition Decode :: "nat \<Rightarrow> decoder \<Rightarrow> ((goerror + resp) \<times> decoder) option" where
  "Decode fuel d =
     (if dErr d \<noteq> None then Some (Inl (Trace (ErrVar ErrFailedDecoder)), d)
      else
        (case decodeResp fuel (dbr d) of
           None \<Rightarrow> None
         | Some (Inl e, b) \<Rightarrow> Some (Inl e, d\<lparr>dbr := b, dErr := Some e\<rparr>)
         | Some (Inr r, b) \<Rightarrow> Some (Inr r, d\<lparr>dbr := b\<rparr>)))"

definition DecodeMultiBulk :: "nat \<Rightarrow> decoder \<Rightarrow> ((goerror + resp list) \<times> decoder) option" where
  "DecodeMultiBulk fuel d =
     (if dErr d \<noteq> None then Some (Inl (Trace (ErrVar ErrFailedDecoder)), d)
      else
        (case decodeMultiBulk fuel (dbr d) of
           None \<Rightarrow> None
         | Some (Inl e, b) \<Rightarrow> Some (Inl e, d\<lparr>dbr := b, dErr := Some e\<rparr>)
         | Some (Inr m, b) \<Rightarrow> Some (Inr m, d\<lparr>dbr := b\<rparr>)))"

text \<open>\<open>bytes.NewReader(p)\<close> gives \<open>p\<close> in reads of any size and then \<open>EOF\<close>.\<close>

definition bytes_reader :: "bytes \<Rightarrow> script" where
  "bytes_reader p = (if p = [] then [] else [(p, None)])"

definition DecodeFromBytes :: "nat \<Rightarrow> bytes \<Rightarrow> (goerror + resp) option" where
  "DecodeFromBytes fuel p = map_option fst (Decode fuel (NewDecoder (bytes_reader p)))"

definition DecodeMultiBulkFromBytes :: "nat \<Rightarrow> bytes \<Rightarrow> (goerror + resp list) option" where
  "DecodeMultiBulkFromBytes fuel p = map_option fst (DecodeMultiBulk fuel (NewDecoder (bytes_reader p)))"

subsection \<open>Decoding returns\<close>

text \<open>\<open>settles m b\<close>: the step \<open>m\<close> from reader \<open>b\<close> returns, and leaves no more to read than before.\<close>

definition settles :: "'a decoding \<Rightarrow> reader \<Rightarrow> bool" where
  "settles m b \<longleftrightarrow> (\<exists>r b'. m = Some (r, b') \<and> no_heavier b' b)"

lemma settles_Some [simp]: "settles (Some (r, b')) b \<longleftrightarrow> no_heavier b' b"
  by (simp add: settles_def)

lemma settles_fail [simp]: "settles (fail_with v b') b \<longleftrightarrow> no_heavier b' b"
  by (simp add: fail_with_def)

lemma settles_on_ok:
  assumes "settles m b" "\<And>x b'. m = Some (Inr x, b') \<Longrightarrow> no_heavier b' b \<Longrightarrow> settles (f x b') b'"
  shows "settles (on_ok m f) b"
proof -
  obtain r b' where m: "m = Some (r, b')" "no_heavier b' b" using assms(1) by (auto simp: settles_def)
  show ?thesis
  proof (cases r)
    case (Inl e)
    then show ?thesis using m by simp
  next
    case (Inr x)
    then have "settles (f x b') b'" using assms(2) m by simp
    then show ?thesis using m Inr no_heavier_trans by (auto simp: settles_def)
  qed
qed

lemma settles_traced [simp]: "settles (traced m) b = settles m b"
  by (auto simp: settles_def traced_def split: option.splits sum.splits)

lemma settles_mono: "settles m b1 \<Longrightarrow> no_heavier b1 b \<Longrightarrow> settles m b"
  unfolding settles_def using no_heavier_trans by blast

lemma ReadBytes_settles: "live b \<Longrightarrow> weight b < fuel \<Longrightarrow> settles (ReadBytes fuel c b) b"
  using ReadBytes_weight by (auto simp: settles_def)

lemma ReadFull_settles: "live b \<Longrightarrow> Suc (weight b) < fuel \<Longrightarrow> settles (ReadFull fuel m b) b"
  using ReadFull_weight by (auto simp: settles_def)

lemma decodeTextBytes_settles: "live b \<Longrightarrow> weight b < fuel \<Longrightarrow> settles (decodeTextBytes fuel b) b"
  unfolding decodeTextBytes_def
  by (auto intro!: settles_on_ok simp: ReadBytes_settles no_heavier_refl no_heavier_live split: option.split)

lemma decodeInt_settles: "live b \<Longrightarrow> settles (decodeInt b) b"
  unfolding decodeInt_def using ReadSlice_weight [of b LF]
  by (auto split: prod.split option.split)

lemma decodeBulkBytes_settles:
  assumes "live b" "Suc (weight b) < fuel"
  shows "settles (decodeBulkBytes fuel b) b"
  unfolding decodeBulkBytes_def
proof (rule settles_on_ok [OF decodeInt_settles [OF assms(1)]], goal_cases)
  case (1 n b1)
  then have "live b1" "Suc (weight b1) < fuel" using assms by (auto simp: no_heavier_def)
  then have "settles (traced (ReadFull fuel (nat n + 2) b1)) b1"
    by (simp only: settles_traced ReadFull_settles)
  then show ?case using \<open>live b1\<close>
    by (auto intro!: settles_on_ok simp: no_heavier_refl no_heavier_live)
qed

lemma decodeItems_settles:
  assumes "\<And>b'. no_heavier b' b \<Longrightarrow> settles (dec b') b'" "live b"
  shows "settles (decodeItems dec k b) b"
  using assms
proof (induction k arbitrary: b)
  case 0
  then show ?case by (simp add: no_heavier_refl)
next
  case (Suc k)
  show ?case unfolding decodeItems.simps
  proof (rule settles_on_ok [OF Suc.prems(1) [OF no_heavier_refl [OF Suc.prems(2)]]], goal_cases)
    case (1 x b1)
    have "settles (decodeItems dec k b1) b1"
      using Suc.IH [of b1] Suc.prems(1) 1(2) no_heavier_trans no_heavier_live by blast
    then show ?case by (rule settles_on_ok) (auto simp: no_heavier_refl no_heavier_live)
  qed
qed

lemma decodeArray_settles:
  assumes "\<And>b'. no_heavier b' b \<Longrightarrow> settles (dec b') b'" "live b"
  shows "settles (decodeArray dec b) b"
  unfolding decodeArray_def
proof (rule settles_on_ok [OF decodeInt_settles [OF assms(2)]], goal_cases)
  case (1 n b1)
  then have "settles (decodeItems dec (nat n) b1) b1"
    using decodeItems_settles [of b1 dec] assms(1) no_heavier_trans no_heavier_live by blast
  then show ?case using 1 by (auto intro!: settles_on_ok simp: no_heavier_refl no_heavier_live)
qed

lemma decodeResp_settles: "live b \<Longrightarrow> Suc (weight b) < fuel \<Longrightarrow> settles (decodeResp fuel b) b"
proof (induction fuel arbitrary: b)
  case 0
  then show ?case by simp
next
  case (Suc fuel)
  obtain r b1 where rb: "ReadByte b = (r, b1)" by (metis surj_pair)
  note w = ReadByte_weight [OF Suc.prems(1) rb]
  show ?case
  proof (cases r)
    case (Inl e)
    then show ?thesis using rb w by simp
  next
    case (Inr t)
    then have l: "lighter b1 b" using w by simp
    then have b1: "live b1" "Suc (weight b1) < fuel" "no_heavier b1 b" using Suc.prems by (auto simp: lighter_def no_heavier_def)
    have parts: "settles (decodeTextBytes fuel b1) b1" "settles (decodeBulkBytes fuel b1) b1"
      using b1 by (simp_all add: decodeTextBytes_settles decodeBulkBytes_settles)
    have "settles (decodeArray (decodeResp fuel) b1) b1"
      using b1 Suc.IH by (intro decodeArray_settles) (auto simp: no_heavier_def)
    with parts show ?thesis using rb Inr b1
      by (auto intro!: settles_mono [OF _ b1(3)] settles_on_ok simp: no_heavier_refl no_heavier_live)
  qed
qed

lemma decodeBulkItems_settles:
  "live b \<Longrightarrow> Suc (weight b) < fuel \<Longrightarrow> settles (decodeBulkItems fuel k b) b"
proof (induction k arbitrary: b)
  case 0
  then show ?case by (simp add: no_heavier_refl)
next
  case (Suc k)
  show ?case unfolding decodeBulkItems.simps
  proof (rule settles_on_ok [OF decodeResp_settles [OF Suc.prems]], goal_cases)
    case (1 r b1)
    then have "live b1" "Suc (weight b1) < fuel" using Suc.prems by (auto simp: no_heavier_def)
    then show ?case using Suc.IH [of b1] by (auto intro!: settles_on_ok simp: no_heavier_refl no_heavier_live)
  qed
qed

lemma decodeMultiBulk_settles:
  assumes "live b" "Suc (weight b) < fuel"
  shows "settles (decodeMultiBulk fuel b) b"
proof -
  obtain r b1 where pb: "PeekByte b = (r, b1)" by (metis surj_pair)
  note w = PeekByte_weight [OF assms(1) pb]
  then have b1: "live b1" "Suc (weight b1) < fuel" using assms by (auto simp: no_heavier_def)
  obtain q b2 where rb: "ReadByte b1 = (q, b2)" by (metis surj_pair)
  have b2: "no_heavier b2 b1" "live b2" "Suc (weight b2) < fuel"
    using ReadByte_weight [OF b1(1) rb] b1 by (auto simp: no_heavier_def)
  have line: "settles (decodeSingleLineMultiBulk fuel b1) b1"
    unfolding decodeSingleLineMultiBulk_def Let_def using b1
    by (auto intro!: settles_on_ok simp: decodeTextBytes_settles no_heavier_refl no_heavier_live)
  have "settles (on_ok (traced (decodeInt b2)) (\<lambda>n b3.
         if n \<le> 0 then fail_with ErrBadArrayLen b3
         else if n > MaxArrayLen then fail_with ErrBadArrayLenTooLong b3
         else decodeBulkItems fuel (nat n) b3)) b2"
    using decodeInt_settles [OF b2(2)] b2(3)
    by (auto intro!: settles_on_ok decodeBulkItems_settles simp: no_heavier_refl no_heavier_def)
  then show ?thesis
    using pb rb w line b2(1) unfolding decodeMultiBulk_def
    by (auto intro: settles_mono no_heavier_trans split: sum.split)
qed

subsection \<open>What decoding can return\<close>

text \<open>A line that was read ends at its first line feed, whatever the reads were.\<close>

lemma ReadSlice_loop_line:
  assumes "live b" "ReadSlice_loop c b = ((f, e), b')"
  shows "(e = None \<longrightarrow> (\<exists>xs. f = xs @ [c] \<and> c \<notin> set xs)) \<and> (e \<noteq> None \<longrightarrow> c \<notin> set f)"
  using assms
proof (induction c b rule: ReadSlice_loop.induct)
  case (1 c b)
  have inv: "rinv b" using "1.prems" by (simp add: live_def)
  show ?case
  proof (cases "index_byte c (window b)")
    case (Some i)
    then have "f = take i (window b) @ [c]" "e = None"
      using "1.prems" take_Suc_index [OF Some] by (simp_all add: ReadSlice_loop.simps [of c b])
    then show ?thesis using index_byte_SomeD [OF Some] by blast
  next
    case None
    obtain er b1 where fl: "fill b = (er, b1)" by (metis surj_pair)
    have w: "live b1" using fill_weight [OF "1.prems"(1) fl] by (rule no_heavier_live)
    have whole: "buffered b = length (rbuf b) \<Longrightarrow> window b = rbuf b"
    proof -
      assume full: "buffered b = length (rbuf b)"
      have "0 < length (rbuf b)" using inv by (simp add: rinv_def)
      then have "rpos b = 0" "wpos b = length (rbuf b)" using full inv by (auto simp: buffered_def rinv_def)
      then show "window b = rbuf b" by (simp add: window_def)
    qed
    show ?thesis
      using "1.IH" [OF None _ fl [symmetric] _ w] "1.prems"(2) None whole fl
      by (cases er; cases "buffered b = length (rbuf b)")
        (auto simp: ReadSlice_loop.simps [of c b] index_byte_None)
  qed
qed

lemma ReadSlice_line:
  assumes "live b" "ReadSlice c b = ((f, e), b')"
  shows "(e = None \<longrightarrow> (\<exists>xs. f = xs @ [c] \<and> c \<notin> set xs)) \<and> (e \<noteq> None \<longrightarrow> c \<notin> set f)"
proof (cases "rerr b")
  case None
  then show ?thesis using assms ReadSlice_loop_line [OF assms(1)] by (simp add: ReadSlice_def)
next
  case (Some x)
  then have "f = []" "e = Some x" using assms(2) by (simp_all add: ReadSlice_def)
  then show ?thesis by simp
qed

lemma ReadBytes_loop_line:
  assumes "live b" "c \<notin> set (concat full)" "ReadBytes_loop fuel c full b = Some (Inr l, b')"
  shows "l = [] \<or> (\<exists>xs. l = xs @ [c] \<and> c \<notin> set xs)"
  using assms
proof (induction fuel arbitrary: full b)
  case 0
  then show ?case by simp
next
  case (Suc fuel)
  obtain f e b1 where r: "ReadSlice c b = ((f, e), b1)" by (metis surj_pair)
  note line = ReadSlice_line [OF Suc.prems(1) r]
  have "live b1" using ReadSlice_weight [OF Suc.prems(1) r] no_heavier_live by blast
  note IH = Suc.IH [OF this, of "full @ [f]"]
  show ?case
  proof (cases e)
    case None
    then obtain xs where "f = xs @ [c]" "c \<notin> set xs" using line by auto
    then show ?thesis using Suc.prems(2,3) r None by (auto intro!: exI [of _ "concat full @ xs"])
  next
    case (Some x)
    then show ?thesis using Suc.prems(2,3) r IH line by (auto split: if_splits option.splits)
  qed
qed

lemma trim_line_no_LF: "trim_line (xs @ [LF]) = Some t \<Longrightarrow> LF \<notin> set xs \<Longrightarrow> LF \<notin> set t"
  by (auto simp: trim_line_def split: if_splits dest: in_set_takeD)

lemma decodeTextBytes_line:
  assumes "live b" "decodeTextBytes fuel b = Some (Inr t, b')"
  shows "LF \<notin> set t"
proof -
  obtain l b1 where l: "ReadBytes_loop fuel LF [] b = Some (Inr l, b1)" "trim_line l = Some t"
    using assms(2) by (auto simp: decodeTextBytes_def ReadBytes_def on_ok_Inr traced_Inr split: option.splits)
  then have "l \<noteq> []" by (auto simp: trim_line_def)
  then show ?thesis using ReadBytes_loop_line [OF assms(1) _ l(1)] l(2) trim_line_no_LF by auto
qed

lemma decodeBulkBytes_bound:
  "decodeBulkBytes fuel b = Some (Inr (Some v), b') \<Longrightarrow> int (length v) \<le> MaxBulkBytesLen"
  by (auto simp: decodeBulkBytes_def on_ok_Inr traced_Inr split: if_splits)

lemma settled: "settles m b \<Longrightarrow> m = Some (r, b') \<Longrightarrow> no_heavier b' b"
  by (simp add: settles_def)

lemma decodeItems_all:
  assumes "decodeItems dec k b = Some (Inr rs, b')" "live b" "Suc (weight b) < fuel"
    "\<And>b1 r b2. no_heavier b1 b \<Longrightarrow> dec b1 = Some (Inr r, b2) \<Longrightarrow> no_heavier b2 b1 \<and> P r"
  shows "list_all P rs \<and> length rs = k \<and> no_heavier b' b"
  using assms
proof (induction k arbitrary: b rs)
  case 0
  then show ?case by (simp add: no_heavier_refl)
next
  case (Suc k)
  obtain r b1 rs' where 1: "dec b = Some (Inr r, b1)" "decodeItems dec k b1 = Some (Inr rs', b')" "rs = r # rs'"
    using Suc.prems(1) by (auto simp: on_ok_Inr)
  note h = Suc.prems(4) [OF no_heavier_refl [OF Suc.prems(2)] 1(1)]
  then have "Suc (weight b1) < fuel" using Suc.prems(3) by (simp add: no_heavier_def)
  then have "list_all P rs' \<and> length rs' = k \<and> no_heavier b' b1"
    using Suc.IH [OF 1(2) no_heavier_live] Suc.prems(4) h no_heavier_trans by blast
  then show ?case using h 1(3) no_heavier_trans by auto
qed

lemma decodeResp_wf:
  "decodeResp fuel b = Some (Inr r, b') \<Longrightarrow> live b \<Longrightarrow> Suc (weight b) < fuel \<Longrightarrow> wf_resp r"
proof (induction fuel arbitrary: b r b')
  case 0
  then show ?case by simp
next
  case (Suc fuel)
  obtain t b1 where rb: "ReadByte b = (Inr t, b1)"
    using Suc.prems(1) by (cases "ReadByte b"; cases "fst (ReadByte b)") auto
  have l: "lighter b1 b" using ReadByte_weight [OF Suc.prems(2) rb] by simp
  then have b1: "live b1" "Suc (weight b1) < fuel" using Suc.prems by (auto simp: lighter_def)
  consider (simple) "is_text t" | (bulk) "t = TypeBulkBytes" | (arr) "t = TypeArray"
    using Suc.prems(1) rb by (auto simp: is_text_def split: if_splits)
  then show ?case
  proof cases
    case simple
    then obtain v where "decodeTextBytes fuel b1 = Some (Inr v, b')" "r = Resp t (Some v) None"
      using Suc.prems(1) rb by (auto simp: on_ok_Inr is_text_def)
    then show ?thesis using simple decodeTextBytes_line [OF b1(1)] by (simp add: wf_resp.simps)
  next
    case bulk
    then obtain v where "decodeBulkBytes fuel b1 = Some (Inr v, b')" "r = Resp t v None"
      using Suc.prems(1) rb by (auto simp: on_ok_Inr is_text_def)
    then show ?thesis using bulk decodeBulkBytes_bound by (auto simp: wf_resp.simps split: option.split)
  next
    case arr
    then obtain a where a: "decodeArray (decodeResp fuel) b1 = Some (Inr a, b')" "r = Resp t None a"
      using Suc.prems(1) rb by (auto simp: on_ok_Inr is_text_def)
    show ?thesis
    proof (cases a)
      case None
      then show ?thesis using a arr by (simp add: wf_resp.simps)
    next
      case (Some rs)
      obtain n b2 where n: "decodeInt b1 = Some (Inr n, b2)" "-1 < n" "n \<le> MaxArrayLen"
        "decodeItems (decodeResp fuel) (nat n) b2 = Some (Inr rs, b')"
        using a(1) Some by (auto simp: decodeArray_def on_ok_Inr split: if_splits)
      have h: "no_heavier b2 b1" using settled [OF decodeInt_settles [OF b1(1)] n(1)] .
      then have b2: "live b2" "Suc (weight b2) < fuel" using b1 by (auto simp: no_heavier_def)
      have "no_heavier b4 b3 \<and> wf_resp q" if "no_heavier b3 b2" "decodeResp fuel b3 = Some (Inr q, b4)" for b3 q b4
      proof -
        have "live b3" "Suc (weight b3) < fuel" using that(1) b2 by (auto simp: no_heavier_def)
        then show ?thesis using Suc.IH [OF that(2)] settled [OF decodeResp_settles that(2)] by blast
      qed
      then have "list_all wf_resp rs \<and> length rs = nat n"
        using decodeItems_all [OF n(4) b2] by blast
      then show ?thesis using a(2) arr Some n(2,3) by (simp add: wf_resp.simps)
    qed
  qed
qed

subsection \<open>Inline commands\<close>

text \<open>The scan yields the words of the line: its pieces between spaces that are not empty.\<close>

definition inline_words :: "bytes \<Rightarrow> bytes list" where
  "inline_words b = filter (\<lambda>w. w \<noteq> []) (split_on (CHR '' '') b)"

lemma take_piece: "l \<le> r \<Longrightarrow> r < length b \<Longrightarrow> drop l b = take (r - l) (drop l b) @ b ! r # drop (Suc r) b"
proof -
  assume r: "l \<le> r" "r < length b"
  have "drop l b = take (r - l) (drop l b) @ drop (r - l) (drop l b)" by (simp only: append_take_drop_id)
  also have "drop (r - l) (drop l b) = b ! r # drop (Suc r) b" using r by (simp add: Cons_nth_drop_Suc)
  finally show ?thesis .
qed

lemma splitLoop_words:
  assumes "l \<le> r" "r \<le> length b" "CHR '' '' \<notin> set (take (r - l) (drop l b))"
  shows "splitLoop l r b multi = multi @ map (\<lambda>w. NewBulkBytes (Some w)) (inline_words (drop l b))"
  using assms
proof (induction l r b multi rule: splitLoop.induct)
  case (1 l r b multi)
  let ?w = "take (r - l) (drop l b)"
  consider (fin) "r = length b" | (space) "r < length b" "b ! r = CHR '' ''" | (other) "r < length b" "b ! r \<noteq> CHR '' ''"
    using 1 by linarith
  then show ?case
  proof cases
    case fin
    then have "?w = drop l b" by simp
    then have "inline_words (drop l b) = (if l < r then [?w] else [])"
      using "1.prems" fin by (auto simp: inline_words_def)
    then show ?thesis using fin
      by (simp add: splitLoop.simps [of l "length b"] splitLoop.simps [of _ "Suc (length b)"])
  next
    case space
    let ?m = "if l < r then multi @ [NewBulkBytes (Some ?w)] else multi"
    have "splitLoop l r b multi = splitLoop (r + 1) (r + 1) b ?m"
      using space by (simp add: splitLoop.simps [of l r])
    also have "\<dots> = ?m @ map (\<lambda>w. NewBulkBytes (Some w)) (inline_words (drop (r + 1) b))"
      using "1.IH"(1) space by simp
    also have "inline_words (drop l b) = (if l < r then [?w] else []) @ inline_words (drop (r + 1) b)"
      using take_piece [OF "1.prems"(1) space(1)] split_on_at [OF "1.prems"(3), of "drop (Suc r) b"] space
      by (simp add: inline_words_def)
    ultimately show ?thesis by simp
  next
    case other
    have "take (Suc r - l) (drop l b) = ?w @ [b ! r]"
      using other "1.prems"(1) by (simp add: Suc_diff_le take_Suc_conv_app_nth)
    then have "splitLoop l (r + 1) b multi = multi @ map (\<lambda>w. NewBulkBytes (Some w)) (inline_words (drop l b))"
      using "1.IH"(2) "1.prems" other by simp
    then show ?thesis using other by (simp add: splitLoop.simps [of l r])
  qed
qed

lemma splitLoop_inline: "splitLoop 0 0 b [] = map (\<lambda>w. NewBulkBytes (Some w)) (inline_words b)"
  using splitLoop_words [of 0 0 b "[]"] by simp

subsection \<open>What a request can be\<close>

definition is_bulk_list :: "resp list \<Rightarrow> bool" where
  "is_bulk_list m \<longleftrightarrow> m \<noteq> [] \<and> list_all IsBulkBytes m"

lemma decodeBulkItems_bulk:
  "decodeBulkItems fuel k b = Some (Inr m, b') \<Longrightarrow> list_all IsBulkBytes m \<and> length m = k"
  by (induction k arbitrary: b m) (auto simp: on_ok_Inr is_resp split: if_splits)

lemma decodeMultiBulk_bulk:
  assumes "decodeMultiBulk fuel b = Some (Inr m, b')"
  shows "is_bulk_list m"
proof -
  obtain c b1 where p: "PeekByte b = (Inr c, b1)"
    using assms unfolding decodeMultiBulk_def by (cases "PeekByte b"; cases "fst (PeekByte b)") auto
  show ?thesis
  proof (cases "c = TypeArray")
    case False
    then obtain l where "m = splitLoop 0 0 l []" "m \<noteq> []"
      using assms p by (auto simp: decodeMultiBulk_def decodeSingleLineMultiBulk_def on_ok_Inr Let_def split: if_splits)
    then show ?thesis by (simp add: splitLoop_inline is_bulk_list_def list_all_iff is_resp new_resp)
  next
    case True
    then obtain q b2 where "ReadByte b1 = (Inr q, b2)"
      using assms p unfolding decodeMultiBulk_def by (cases "ReadByte b1"; cases "fst (ReadByte b1)") auto
    then obtain n b3 where "decodeBulkItems fuel (nat n) b3 = Some (Inr m, b')" "0 < n"
      using assms p True by (auto simp: decodeMultiBulk_def on_ok_Inr split: if_splits)
    then show ?thesis using decodeBulkItems_bulk by (fastforce simp: is_bulk_list_def)
  qed
qed

lemma Decode_failed: "dErr d \<noteq> None \<Longrightarrow> Decode fuel d = Some (Inl (Trace (ErrVar ErrFailedDecoder)), d)"
  by (simp add: Decode_def)

lemma Decode_err: "Decode fuel d = Some (Inl e, d') \<Longrightarrow> dErr d' \<noteq> None"
  by (auto simp: Decode_def split: option.splits sum.splits if_splits)

end
