(* ===== verification/BufWriter.thy ===== *)
theory BufWriter
  imports GoErrors
begin

section \<open>The buffered writer\<close>

text \<open>
  Models \<open>Writer\<close> of \<open>pkg/utils/bufio2/bufio.go\<close> over an \<open>io.Writer\<close>. The \<open>io.Writer\<close> is the
  environment: \<open>sink\<close> is what it has accepted so far and \<open>wscript\<close> the results of its next
  writes, each the number of bytes it takes at most and the error it reports; past the end of
  the script every write succeeds.
\<close>

record writer =
  werr :: "goerror option"
  wbuf :: bytes
  wrpos :: nat
  sink :: bytes
  wscript :: "(nat \<times> goerror option) list"

definition NewWriterSize :: "(nat \<times> goerror option) list \<Rightarrow> int \<Rightarrow> writer" where
  "NewWriterSize scr sz =
     (let n = (if sz \<le> 0 then 1024 else nat sz) in
      \<lparr>werr = None, wbuf = replicate n (char_of (0::nat)), wrpos = 0, sink = [], wscript = scr\<rparr>)"

definition NewWriterBuffer :: "(nat \<times> goerror option) list \<Rightarrow> bytes \<Rightarrow> writer" where
  "NewWriterBuffer scr buf =
     (let b = (if length buf = 0 then replicate 1024 (char_of (0::nat)) else buf) in
      \<lparr>werr = None, wbuf = b, wrpos = 0, sink = [], wscript = scr\<rparr>)"

text \<open>\<open>b.wr.Write(p)\<close>: the number of bytes taken and the error.\<close>

definition sink_write :: "bytes \<Rightarrow> writer \<Rightarrow> nat \<times> goerror option \<times> writer" where
  "sink_write p b =
     (case wscript b of
        [] \<Rightarrow> (length p, None, b\<lparr>sink := sink b @ p\<rparr>)
      | (k, e) # s \<Rightarrow> (min k (length p), e, b\<lparr>sink := sink b @ take k p, wscript := s\<rparr>))"

definition wflush :: "writer \<Rightarrow> goerror option \<times> writer" where
  "wflush b =
     (if werr b \<noteq> None then (werr b, b)
      else if wrpos b = 0 then (None, b)
      else
        (let (n, err, b1) = sink_write (take (wrpos b) (wbuf b)) b;
             b2 = (case err of
                     Some e \<Rightarrow> b1\<lparr>werr := Some e\<rparr>
                   | None \<Rightarrow> if n < wrpos b1 then b1\<lparr>werr := Some (ErrVar ErrShortWrite)\<rparr>
                             else b1\<lparr>wrpos := 0\<rparr>)
         in (werr b2, b2)))"

definition WFlush :: "writer \<Rightarrow> goerror option \<times> writer" where
  "WFlush b = wflush b"

definition available :: "writer \<Rightarrow> nat" where
  "available b = length (wbuf b) - wrpos b"

text \<open>\<open>copy(b.buf[b.wpos:], p)\<close> and the advance of the write position.\<close>

definition put :: "bytes \<Rightarrow> writer \<Rightarrow> nat \<times> writer" where
  "put p b =
     (let n = min (length p) (available b) in
      (n, b\<lparr>wbuf := overwrite (wbuf b) (wrpos b) (take n p), wrpos := wrpos b + n\<rparr>))"

lemma wscript_put [simp]: "wscript (snd (put p b)) = wscript b"
  by (simp add: put_def Let_def)

lemma wflush_fields [simp]: "wbuf (snd (wflush b)) = wbuf b"
  by (simp add: wflush_def sink_write_def Let_def split: list.split prod.split option.split)

text \<open>What a flush changes, as the loops below need it for their termination.\<close>

lemma wflush_progress:
  "werr b = None \<Longrightarrow> wrpos b \<noteq> 0 \<Longrightarrow>
   werr (snd (wflush b)) \<noteq> None \<or> length (wscript (snd (wflush b))) < length (wscript b)
   \<or> wscript (snd (wflush b)) = wscript b \<and> wrpos (snd (wflush b)) = 0"
  by (cases "wscript b") (auto simp: wflush_def sink_write_def Let_def split: option.splits prod.splits)

lemma put_flush_progress:
  assumes "werr b = None" "wrpos b \<noteq> 0" "put p b = (n, b1)"
  shows "werr (snd (wflush b1)) \<noteq> None \<or> length (wscript (snd (wflush b1))) < length (wscript b)
     \<or> wscript (snd (wflush b1)) = wscript b \<and> wrpos (snd (wflush b1)) < wrpos b"
proof -
  have "werr b1 = None" "wrpos b1 \<noteq> 0" "wscript b1 = wscript b"
    using assms by (auto simp: put_def Let_def)
  then show ?thesis using wflush_progress [of b1] assms(2) by auto
qed

text \<open>The loop of \<open>Write\<close>: while the rest does not fit into the buffer.\<close>

function Write_loop :: "nat \<Rightarrow> bytes \<Rightarrow> writer \<Rightarrow> nat \<times> bytes \<times> writer" where
  "Write_loop nn p b =
     (if werr b = None \<and> length p > available b then
        (if wrpos b = 0 then
           (let (n, err, b1) = sink_write p b; b2 = b1\<lparr>werr := err\<rparr>
            in Write_loop (nn + n) (drop n p) b2)
         else
           (let (n, b1) = put p b; b2 = snd (wflush b1)
            in Write_loop (nn + n) (drop n p) b2))
      else (nn, p, b))"
  by pat_completeness auto
termination
proof (relation "measures [\<lambda>(nn, p, b). if werr b = None then 1 else 0, \<lambda>(nn, p, b). length (wscript b),
    \<lambda>(nn, p, b). length p, \<lambda>(nn, p, b). wrpos b]", goal_cases)
  case 1
  show ?case by simp
next
  case 2
  then show ?case by (auto simp: sink_write_def split: list.splits prod.splits)
next
  case (3 nn p b x n b1 b2)
  then show ?case using put_flush_progress [of b p n b1] by auto
qed

declare Write_loop.simps [simp del]

definition Write :: "bytes \<Rightarrow> writer \<Rightarrow> (nat \<times> goerror option) \<times> writer" where
  "Write p b =
     (let (nn, q, b1) = Write_loop 0 p b in
      if werr b1 \<noteq> None \<or> length q = 0 then ((nn, werr b1), b1)
      else (let (n, b2) = put q b1 in ((nn + n, None), b2)))"

definition WriteByte :: "byte \<Rightarrow> writer \<Rightarrow> goerror option \<times> writer" where
  "WriteByte c b =
     (if werr b \<noteq> None then (werr b, b)
      else
        (let (e, b1) = (if available b = 0 then wflush b else (None, b)) in
         case e of
           Some err \<Rightarrow> (werr b1, b1)
         | None \<Rightarrow> (None, b1\<lparr>wbuf := (wbuf b1)[wrpos b1 := c], wrpos := wrpos b1 + 1\<rparr>)))"

text \<open>
  \<open>WriteString\<close> has no direct path, so on a writer with an empty buffer (which no constructor
  makes) it would loop for ever: \<open>None\<close> is not returning.
\<close>

partial_function (option) WriteString_loop :: "nat \<Rightarrow> string \<Rightarrow> writer \<Rightarrow> (nat \<times> string \<times> writer) option" where
  "WriteString_loop nn s b =
     (if werr b = None \<and> length s > available b then
        (let (n, b1) = put s b; b2 = snd (wflush b1)
         in WriteString_loop (nn + n) (drop n s) b2)
      else Some (nn, s, b))"

definition WriteString :: "string \<Rightarrow> writer \<Rightarrow> ((nat \<times> goerror option) \<times> writer) option" where
  "WriteString s b =
     (case WriteString_loop 0 s b of
        None \<Rightarrow> None
      | Some (nn, q, b1) \<Rightarrow>
          if werr b1 \<noteq> None \<or> length q = 0 then Some ((nn, werr b1), b1)
          else (let (n, b2) = put q b1 in Some ((nn + n, None), b2)))"

subsection \<open>What has been written\<close>

text \<open>
  \<open>written b\<close>: the bytes handed over so far, those in the sink and those still buffered.
  \<open>writes_to b w m\<close>: a healthy writer with a buffer of \<open>m\<close> bytes that was handed \<open>w\<close>, over an
  \<open>io.Writer\<close> that takes everything.
\<close>

definition written :: "writer \<Rightarrow> bytes" where
  "written b = sink b @ take (wrpos b) (wbuf b)"

definition writes_to :: "writer \<Rightarrow> bytes \<Rightarrow> nat \<Rightarrow> bool" where
  "writes_to b w m \<longleftrightarrow>
     werr b = None \<and> wscript b = [] \<and> wrpos b \<le> length (wbuf b) \<and> length (wbuf b) = m \<and> 0 < m \<and> written b = w"

lemma sink_write_ok: "wscript b = [] \<Longrightarrow> sink_write p b = (length p, None, b\<lparr>sink := sink b @ p\<rparr>)"
  by (simp add: sink_write_def)

lemma wflush_ok:
  "writes_to b w m \<Longrightarrow> \<exists>b'. wflush b = (None, b') \<and> writes_to b' w m \<and> wrpos b' = 0 \<and> sink b' = w"
  by (auto simp: wflush_def writes_to_def sink_write_ok written_def Let_def)

lemma put_ok:
  assumes "writes_to b w m"
  shows "\<exists>b'. put p b = (min (length p) (m - wrpos b), b')
     \<and> writes_to b' (w @ take (min (length p) (m - wrpos b)) p) m \<and> wrpos b' = wrpos b + min (length p) (m - wrpos b)"
  using assms
  by (auto simp: put_def Let_def available_def writes_to_def written_def overwrite_def)

lemma Write_loop_ok:
  assumes "writes_to b w m"
  shows "\<exists>nn' q b'. Write_loop nn p b = (nn', q, b') \<and> length q \<le> available b' \<and> nn' + length q = nn + length p
     \<and> (\<exists>w'. writes_to b' w' m \<and> w' @ q = w @ p)"
  using assms
proof (induction nn p b arbitrary: w rule: Write_loop.induct)
  case (1 nn p b)
  show ?case
  proof (cases "length p > available b")
    case False
    then show ?thesis using "1.prems" by (auto simp: Write_loop.simps [of nn p b])
  next
    case big: True
    then have guard: "werr b = None \<and> length p > available b" using "1.prems" by (simp add: writes_to_def)
    show ?thesis
    proof (cases "wrpos b = 0")
      case True
      let ?b = "b\<lparr>sink := sink b @ p, werr := None\<rparr>"
      have "Write_loop nn p b = Write_loop (nn + length p) [] ?b"
        using guard True "1.prems" by (subst Write_loop.simps) (simp add: sink_write_ok writes_to_def)
      also have "\<dots> = (nn + length p, [], ?b)" by (simp add: Write_loop.simps)
      finally have "Write_loop nn p b = (nn + length p, [], ?b)" .
      moreover have "writes_to ?b (w @ p) m" using "1.prems" True by (auto simp: writes_to_def written_def)
      ultimately show ?thesis by auto
    next
      case False
      let ?n = "min (length p) (m - wrpos b)"
      obtain b1 where b1: "put p b = (?n, b1)" "writes_to b1 (w @ take ?n p) m"
        using put_ok [OF "1.prems"] by blast
      obtain b2 where b2: "wflush b1 = (None, b2)" "writes_to b2 (w @ take ?n p) m"
        using wflush_ok [OF b1(2)] by blast
      have step: "Write_loop nn p b = Write_loop (nn + ?n) (drop ?n p) b2"
        using guard False b1(1) b2(1) by (subst Write_loop.simps) simp
      have IH: "\<exists>nn' q b'. Write_loop (nn + ?n) (drop ?n p) b2 = (nn', q, b') \<and> length q \<le> available b'
          \<and> nn' + length q = nn + ?n + length (drop ?n p)
          \<and> (\<exists>w'. writes_to b' w' m \<and> w' @ q = (w @ take ?n p) @ drop ?n p)"
        using "1.IH"(2) [OF guard False b1(1) [symmetric] refl refl, of "w @ take ?n p"] b2 by simp
      have "nn + ?n + length (drop ?n p) = nn + length p" "(w @ take ?n p) @ drop ?n p = w @ p"
        by simp_all
      with IH show ?thesis unfolding step by metis
    qed
  qed
qed

lemma put_all_ok:
  assumes "writes_to b w m" "length q \<le> available b"
  shows "\<exists>b'. put q b = (length q, b') \<and> writes_to b' (w @ q) m"
proof -
  have "min (length q) (m - wrpos b) = length q" using assms by (auto simp: writes_to_def available_def)
  then show ?thesis using put_ok [OF assms(1), of q] by auto
qed

lemma Write_ok:
  assumes "writes_to b w m"
  shows "\<exists>b'. Write p b = ((length p, None), b') \<and> writes_to b' (w @ p) m"
proof -
  obtain nn q b1 w1 where l: "Write_loop 0 p b = (nn, q, b1)" "length q \<le> available b1"
    "nn + length q = length p" "writes_to b1 w1 m" "w1 @ q = w @ p"
    using Write_loop_ok [OF assms, of 0 p] by auto
  obtain b2 where "put q b1 = (length q, b2)" "writes_to b2 (w @ p) m"
    using put_all_ok [OF l(4,2)] l(5) by auto
  then show ?thesis using l by (cases "q = []") (auto simp: Write_def writes_to_def)
qed

lemma WriteByte_ok:
  assumes "writes_to b w m"
  shows "\<exists>b'. WriteByte c b = (None, b') \<and> writes_to b' (w @ [c]) m"
proof -
  obtain b1 where b1: "(if available b = 0 then wflush b else (None, b)) = (None, b1)"
    "writes_to b1 w m" "wrpos b1 < m"
  proof (cases "available b = 0")
    case True
    then show thesis using that wflush_ok [OF assms] by (auto simp: writes_to_def)
  next
    case False
    then show thesis using that [of b] assms by (auto simp: writes_to_def available_def)
  qed
  have "writes_to (b1\<lparr>wbuf := (wbuf b1)[wrpos b1 := c], wrpos := wrpos b1 + 1\<rparr>) (w @ [c]) m"
    using b1 by (auto simp: writes_to_def written_def take_Suc_conv_app_nth)
  then show ?thesis using b1 assms by (auto simp: WriteByte_def writes_to_def)
qed

lemma WriteString_loop_ok:
  assumes "writes_to b w m"
  shows "\<exists>nn' q b' w'. WriteString_loop nn p b = Some (nn', q, b') \<and> length q \<le> available b'
     \<and> nn' + length q = nn + length p \<and> writes_to b' w' m \<and> w' @ q = w @ p"
  using assms
proof (induction "(length p, wrpos b)" arbitrary: nn p b w rule: wf_induct_rule [OF wf_measures [of "[fst, snd]"]])
  case 1
  note IH = 1(1) and wt = 1(2)
  show ?case
  proof (cases "length p > available b")
    case False
    then show ?thesis using wt by (subst WriteString_loop.simps) auto
  next
    case big: True
    let ?n = "min (length p) (m - wrpos b)"
    obtain b1 where b1: "put p b = (?n, b1)" "writes_to b1 (w @ take ?n p) m"
      using put_ok [OF wt] by blast
    obtain b2 where b2: "wflush b1 = (None, b2)" "writes_to b2 (w @ take ?n p) m" "wrpos b2 = 0"
      using wflush_ok [OF b1(2)] by blast
    have step: "WriteString_loop nn p b = WriteString_loop (nn + ?n) (drop ?n p) b2"
      using big wt b1(1) b2(1) by (subst WriteString_loop.simps) (simp add: writes_to_def)
    have less: "((length (drop ?n p), wrpos b2), (length p, wrpos b)) \<in> measures [fst, snd]"
    proof (cases "wrpos b")
      case 0
      then have "0 < m" using wt by (auto simp: writes_to_def)
      with 0 show ?thesis using big b2(3) wt by (auto simp: available_def writes_to_def)
    next
      case Suc
      then show ?thesis using big wt b2(3) by (auto simp: available_def writes_to_def)
    qed
    have sums: "(w @ take ?n p) @ drop ?n p = w @ p" "nn + ?n + length (drop ?n p) = nn + length p"
      by simp_all
    show ?thesis
      using IH [OF less b2(2), of "nn + ?n"] unfolding step sums by simp
  qed
qed

lemma WriteString_ok:
  assumes "writes_to b w m"
  shows "\<exists>b'. WriteString s b = Some ((length s, None), b') \<and> writes_to b' (w @ s) m"
proof -
  obtain nn q b1 w1 where l: "WriteString_loop 0 s b = Some (nn, q, b1)" "length q \<le> available b1"
    "nn + length q = length s" "writes_to b1 w1 m" "w1 @ q = w @ s"
    using WriteString_loop_ok [OF assms, of 0 s] by auto
  obtain b2 where "put q b1 = (length q, b2)" "writes_to b2 (w @ s) m"
    using put_all_ok [OF l(4,2)] l(5) by auto
  then show ?thesis using l by (cases "q = []") (auto simp: WriteString_def writes_to_def)
qed

lemma WFlush_ok:
  "writes_to b w m \<Longrightarrow> \<exists>b'. WFlush b = (None, b') \<and> writes_to b' w m \<and> sink b' = w"
  using wflush_ok unfolding WFlush_def by blast

lemma writes_to_new: "writes_to (NewWriterSize [] sz) [] (if sz \<le> 0 then 1024 else nat sz)"
  by (simp add: writes_to_def NewWriterSize_def written_def Let_def)

text \<open>Errors stick: once the writer has failed it reports the same error and hands over nothing.\<close>

lemma writer_err_sticks:
  assumes "werr b = Some e"
  shows "wflush b = (Some e, b)" "WriteByte c b = (Some e, b)" "Write p b = ((0, Some e), b)"
    "WriteString s b = Some ((0, Some e), b)"
  using assms
  by (simp_all add: wflush_def WriteByte_def Write_def WriteString_def Write_loop.simps WriteString_loop.simps)

subsection \<open>Any underlying writer\<close>

text \<open>
  Without the assumption on the \<open>io.Writer\<close>: short writes and errors can come at any point.
  \<open>sent b w m\<close>: the writer was handed \<open>w\<close>; unless it has failed everything is in the sink or
  buffered, and if it has failed the sink holds a prefix of \<open>w\<close>.
\<close>

definition sent :: "writer \<Rightarrow> bytes \<Rightarrow> nat \<Rightarrow> bool" where
  "sent b w m \<longleftrightarrow>
     wrpos b \<le> length (wbuf b) \<and> length (wbuf b) = m \<and> 0 < m
     \<and> (if werr b = None then written b = w else \<exists>rest. w = sink b @ rest)"

lemma sent_ok: "werr b = None \<Longrightarrow> sent b w m \<longleftrightarrow>
    wrpos b \<le> length (wbuf b) \<and> length (wbuf b) = m \<and> 0 < m \<and> written b = w"
  by (simp add: sent_def)

lemma sent_failed: "werr b \<noteq> None \<Longrightarrow> sent b w m \<Longrightarrow> sent b (w @ p) m"
  by (auto simp: sent_def)

lemma sent_prefix: "sent b w m \<Longrightarrow> \<exists>rest. w = sink b @ rest"
  by (auto simp: sent_def written_def split: if_splits)

lemma writes_to_sent: "writes_to b w m \<Longrightarrow> sent b w m"
  by (simp add: writes_to_def sent_def)

lemma wflush_sent:
  assumes "sent b w m"
  shows "\<exists>e b'. wflush b = (e, b') \<and> e = werr b' \<and> sent b' w m \<and> (e = None \<longrightarrow> wrpos b' = 0 \<and> sink b' = w)"
proof -
  consider (failed) "werr b \<noteq> None" | (clean) "werr b = None" "wrpos b = 0"
    | (all) "werr b = None" "wrpos b > 0" "wscript b = []"
    | (some) k e s where "werr b = None" "wrpos b > 0" "wscript b = (k, e) # s"
    by (cases "wscript b") auto
  then show ?thesis
  proof cases
    case failed
    then have "wflush b = (werr b, b)" by (simp add: wflush_def)
    then show ?thesis using assms failed by (intro exI [of _ "werr b"] exI [of _ b] conjI) auto
  next
    case clean
    then show ?thesis using assms by (auto simp: wflush_def sent_ok written_def)
  next
    case all
    then show ?thesis using assms by (auto simp: wflush_def sink_write_def sent_def written_def)
  next
    case some
    have w: "w = sink b @ take (wrpos b) (wbuf b)" "wrpos b \<le> length (wbuf b)" "length (wbuf b) = m" "0 < m"
      using assms some by (simp_all add: sent_ok written_def)
    have "\<exists>rest. w = (sink b @ take k (take (wrpos b) (wbuf b))) @ rest"
      using w(1) by (auto intro!: exI [of _ "drop k (take (wrpos b) (wbuf b))"] simp del: take_take)
    then show ?thesis
      using some w by (cases e) (auto simp: wflush_def sink_write_def sent_def written_def min_def split: if_splits)
  qed
qed

lemma put_sent:
  assumes "sent b w m"
  shows "\<exists>b'. put p b = (min (length p) (m - wrpos b), b') \<and> werr b' = werr b \<and> wscript b' = wscript b
    \<and> wrpos b' = wrpos b + min (length p) (m - wrpos b) \<and> sent b' (w @ take (m - wrpos b) p) m"
proof -
  let ?n = "min (length p) (m - wrpos b)"
  have b: "wrpos b \<le> length (wbuf b)" "length (wbuf b) = m" "0 < m" using assms by (simp_all add: sent_def)
  have "take ?n p = take (m - wrpos b) p" by (simp add: min_def)
  then have "take (wrpos b + ?n) (overwrite (wbuf b) (wrpos b) (take ?n p)) = take (wrpos b) (wbuf b) @ take (m - wrpos b) p"
    using take_overwrite [of "wrpos b" "wbuf b" "take ?n p"] b by (simp add: min_def split: if_splits)
  then show ?thesis
    using assms b by (auto simp: put_def available_def sent_def written_def Let_def split: if_splits)
qed

lemma sink_write_sent:
  assumes "sent b w m" "werr b = None" "wrpos b = 0" "sink_write p b = (n, err, b1)"
  shows "sent (b1\<lparr>werr := err\<rparr>) (w @ take n p) m" "wrpos b1 = 0"
  using assms by (cases "wscript b"; auto simp: sink_write_def sent_def written_def min_def split: if_splits)+

lemma Write_loop_sent:
  assumes "sent b w m"
  shows "\<exists>nn' q b' w'. Write_loop nn p b = (nn', q, b') \<and> (werr b' = None \<longrightarrow> length q \<le> available b')
    \<and> sent b' w' m \<and> w' @ q = w @ p"
  using assms
proof (induction nn p b arbitrary: w rule: Write_loop.induct)
  case (1 nn p b)
  show ?case
  proof (cases "werr b = None \<and> length p > available b")
    case False
    then show ?thesis using "1.prems" by (auto simp: Write_loop.simps [of nn p b])
  next
    case guard: True
    show ?thesis
    proof (cases "wrpos b = 0")
      case True
      obtain n err b1 where k: "sink_write p b = (n, err, b1)" by (metis surj_pair)
      have step: "Write_loop nn p b = Write_loop (nn + n) (drop n p) (b1\<lparr>werr := err\<rparr>)"
        using guard True k by (subst Write_loop.simps) simp
      have "(w @ take n p) @ drop n p = w @ p" by simp
      then show ?thesis
        using "1.IH"(1) [OF guard True k [symmetric] refl refl refl sink_write_sent(1) [OF "1.prems" _ True k]] guard
        unfolding step by simp
    next
      case False
      obtain b1 where b1: "put p b = (min (length p) (m - wrpos b), b1)" "sent b1 (w @ take (m - wrpos b) p) m"
        using put_sent [OF "1.prems"] by blast
      let ?n = "min (length p) (m - wrpos b)"
      have step: "Write_loop nn p b = Write_loop (nn + ?n) (drop ?n p) (snd (wflush b1))"
        using guard False b1(1) by (subst Write_loop.simps) simp
      obtain e b2 where b2: "wflush b1 = (e, b2)" "sent b2 (w @ take (m - wrpos b) p) m"
        using wflush_sent [OF b1(2)] by blast
      have whole: "(w @ take (m - wrpos b) p) @ drop ?n p = w @ p" by (simp add: min_def)
      have "sent (snd (wflush b1)) (w @ take (m - wrpos b) p) m" using b2 by simp
      from "1.IH"(2) [OF guard False refl b1(1) [symmetric] refl this] show ?thesis
        unfolding step whole .
    qed
  qed
qed

lemma put_all_sent:
  assumes "sent b w m" "length q \<le> available b"
  shows "\<exists>b'. put q b = (length q, b') \<and> werr b' = werr b \<and> sent b' (w @ q) m"
proof -
  have "min (length q) (m - wrpos b) = length q" "take (m - wrpos b) q = q"
    using assms by (auto simp: sent_def available_def)
  then show ?thesis using put_sent [OF assms(1), of q] by auto
qed

lemma sent_append_failed: "sent b w' m \<Longrightarrow> w' @ q = u \<Longrightarrow> werr b \<noteq> None \<Longrightarrow> sent b u m"
  using sent_failed by blast

lemma Write_sent:
  assumes "sent b w m"
  shows "\<exists>n b'. Write p b = ((n, werr b'), b') \<and> sent b' (w @ p) m"
proof -
  obtain nn q b1 w1 where l: "Write_loop 0 p b = (nn, q, b1)" "werr b1 = None \<longrightarrow> length q \<le> available b1"
    "sent b1 w1 m" "w1 @ q = w @ p" using Write_loop_sent [OF assms] by metis
  show ?thesis
  proof (cases "werr b1 \<noteq> None \<or> length q = 0")
    case True
    then show ?thesis using l sent_append_failed [OF l(3,4)] by (auto simp: Write_def)
  next
    case False
    then obtain b2 where "put q b1 = (length q, b2)" "werr b2 = werr b1" "sent b2 (w @ p) m"
      using put_all_sent [OF l(3), of q] l(2,4) by auto
    then show ?thesis using l(1) False by (auto simp: Write_def)
  qed
qed

lemma WriteByte_sent:
  assumes "sent b w m"
  shows "\<exists>b'. WriteByte c b = (werr b', b') \<and> sent b' (w @ [c]) m"
proof (cases "werr b")
  case (Some e)
  then have "WriteByte c b = (werr b, b)" by (simp add: WriteByte_def)
  then show ?thesis using sent_failed [OF _ assms] Some by blast
next
  case ok: None
  obtain e b1 where b1: "(if available b = 0 then wflush b else (None, b)) = (e, b1)" "e = werr b1" "sent b1 w m"
    "e = None \<Longrightarrow> wrpos b1 < m"
  proof (cases "available b = 0")
    case True
    then show thesis using that wflush_sent [OF assms] by (auto simp: sent_def)
  next
    case False
    then show thesis using that [of None b] assms ok by (auto simp: sent_def available_def)
  qed
  show ?thesis
  proof (cases e)
    case (Some x)
    then have "WriteByte c b = (werr b1, b1)" using ok b1(1) by (simp add: WriteByte_def)
    then show ?thesis using sent_failed [OF _ b1(3)] Some b1(2) by auto
  next
    case None
    then have "sent (b1\<lparr>wbuf := (wbuf b1)[wrpos b1 := c], wrpos := wrpos b1 + 1\<rparr>) (w @ [c]) m"
      using b1 by (auto simp: sent_ok written_def take_Suc_conv_app_nth)
    then show ?thesis using b1 ok None by (auto simp: WriteByte_def)
  qed
qed

text \<open>
  \<open>WriteString\<close> returns for every underlying writer: each round reports an error, uses up a
  result of the script, or shortens the string.
\<close>

lemma WriteString_loop_sent:
  assumes "sent b w m"
  shows "\<exists>nn' q b' w'. WriteString_loop nn p b = Some (nn', q, b') \<and> (werr b' = None \<longrightarrow> length q \<le> available b')
    \<and> sent b' w' m \<and> w' @ q = w @ p"
  using assms
proof (induction "(if werr b = None then 1 else 0 :: nat, length (wscript b), length p, wrpos b)" arbitrary: nn p b w
    rule: wf_induct_rule [OF wf_measures [of "[fst, fst \<circ> snd, fst \<circ> snd \<circ> snd, snd \<circ> snd \<circ> snd]"]])
  case 1
  note IH = 1(1) and wt = 1(2)
  show ?case
  proof (cases "werr b = None \<and> length p > available b")
    case False
    then show ?thesis using wt by (subst WriteString_loop.simps) auto
  next
    case big: True
    let ?n = "min (length p) (m - wrpos b)"
    obtain b1 where b1: "put p b = (?n, b1)" "werr b1 = werr b" "wscript b1 = wscript b" "wrpos b1 = wrpos b + ?n"
      "sent b1 (w @ take (m - wrpos b) p) m"
      using put_sent [OF wt] by blast
    obtain e b2 where b2: "wflush b1 = (e, b2)" "e = werr b2" "sent b2 (w @ take (m - wrpos b) p) m" "e = None \<longrightarrow> wrpos b2 = 0"
      using wflush_sent [OF b1(5)] by auto
    have step: "WriteString_loop nn p b = WriteString_loop (nn + ?n) (drop ?n p) b2"
      using big b1(1) b2(1) by (subst WriteString_loop.simps) simp
    have whole: "(w @ take (m - wrpos b) p) @ drop ?n p = w @ p" by (simp add: min_def)
    have "0 < m" "wrpos b \<le> m" "length p > m - wrpos b" using wt big by (auto simp: sent_def available_def)
    then have pos: "0 < wrpos b1" and shorter: "0 < wrpos b \<or> length (drop ?n p) < length p"
      using b1(4) by auto
    have "werr b2 \<noteq> None \<or> length (wscript b2) < length (wscript b) \<or> wscript b2 = wscript b \<and> wrpos b2 = 0"
      using wflush_progress [of b1] big pos b1(2,3) b2(1) by auto
    then have less: "((if werr b2 = None then 1 else 0 :: nat, length (wscript b2), length (drop ?n p), wrpos b2),
        (if werr b = None then 1 else 0, length (wscript b), length p, wrpos b))
        \<in> measures [fst, fst \<circ> snd, fst \<circ> snd \<circ> snd, snd \<circ> snd \<circ> snd]"
      using big shorter by auto
    show ?thesis using IH [OF less b2(3), of "nn + ?n"] unfolding step whole .
  qed
qed

lemma WriteString_sent:
  assumes "sent b w m"
  shows "\<exists>n b'. WriteString s b = Some ((n, werr b'), b') \<and> sent b' (w @ s) m"
proof -
  obtain nn q b1 w1 where l: "WriteString_loop 0 s b = Some (nn, q, b1)" "werr b1 = None \<longrightarrow> length q \<le> available b1"
    "sent b1 w1 m" "w1 @ q = w @ s" using WriteString_loop_sent [OF assms] by metis
  show ?thesis
  proof (cases "werr b1 \<noteq> None \<or> length q = 0")
    case True
    then show ?thesis using l sent_append_failed [OF l(3,4)] by (auto simp: WriteString_def)
  next
    case False
    then obtain b2 where "put q b1 = (length q, b2)" "werr b2 = werr b1" "sent b2 (w @ s) m"
      using put_all_sent [OF l(3), of q] l(2,4) by auto
    then show ?thesis using l(1) False by (auto simp: WriteString_def)
  qed
qed

lemma sent_new: "sent (NewWriterSize scr sz) [] (if sz \<le> 0 then 1024 else nat sz)"
  by (simp add: sent_def NewWriterSize_def written_def Let_def)

lemma sent_new_buffer: "sent (NewWriterBuffer scr buf) [] (if buf = [] then 1024 else length buf)"
  by (simp add: sent_def NewWriterBuffer_def written_def Let_def)

end
