(* ===== verification/Encoder.thy ===== *)
theory Encoder
  imports Resp BufWriter
begin

section \<open>The encoder\<close>

text \<open>
  Models \<open>pkg/proxy/redis/encoder.go\<close> over the buffered writer. A step takes the writer and
  returns the error and the writer after it; the outer option is the one of \<open>WriteString\<close>,
  whose \<open>None\<close> (not returning) the lemmas of this theory exclude.
\<close>

type_synonym encoding = "(goerror option \<times> writer) option"

text \<open>\<open>if err := f(); err != nil { return errors.Trace(err) }\<close> and its variant without the trace.\<close>

definition then_do :: "encoding \<Rightarrow> (writer \<Rightarrow> encoding) \<Rightarrow> encoding" where
  "then_do m f = (case m of None \<Rightarrow> None | Some (Some e, b) \<Rightarrow> Some (Some e, b) | Some (None, b) \<Rightarrow> f b)"

definition wtraced :: "encoding \<Rightarrow> encoding" where
  "wtraced m = (case m of None \<Rightarrow> None | Some (err, b) \<Rightarrow> Some (TraceOpt err, b))"

definition no_count :: "((nat \<times> goerror option) \<times> writer) option \<Rightarrow> encoding" where
  "no_count m = (case m of None \<Rightarrow> None | Some ((n, err), b) \<Rightarrow> Some (err, b))"

lemma then_do_simps [simp]:
  "then_do None f = None" "then_do (Some (Some e, b)) f = Some (Some e, b)" "then_do (Some (None, b)) f = f b"
  by (simp_all add: then_do_def)

lemma wtraced_simps [simp]: "wtraced None = None" "wtraced (Some (err, b)) = Some (TraceOpt err, b)"
  by (simp_all add: wtraced_def)

lemma no_count_simps [simp]: "no_count None = None" "no_count (Some ((n, err), b)) = Some (err, b)"
  by (simp_all add: no_count_def)

subsection \<open>Encoding a value\<close>

definition encodeTextBytes :: "bytes \<Rightarrow> writer \<Rightarrow> encoding" where
  "encodeTextBytes p b =
     then_do (wtraced (no_count (Some (Write p b)))) (\<lambda>b1.
       then_do (wtraced (no_count (WriteString CRLF b1))) (\<lambda>b2. Some (None, b2)))"

definition encodeTextString :: "string \<Rightarrow> writer \<Rightarrow> encoding" where
  "encodeTextString s b =
     then_do (wtraced (no_count (WriteString s b))) (\<lambda>b1.
       then_do (wtraced (no_count (WriteString CRLF b1))) (\<lambda>b2. Some (None, b2)))"

definition encodeInt :: "int \<Rightarrow> writer \<Rightarrow> encoding" where
  "encodeInt v b = encodeTextString (itoa v) b"

definition encodeBulkBytes :: "bytes option \<Rightarrow> writer \<Rightarrow> encoding" where
  "encodeBulkBytes v b =
     (case v of
        None \<Rightarrow> encodeInt (-1) b
      | Some p \<Rightarrow> then_do (encodeInt (int (length p)) b) (encodeTextBytes p))"

text \<open>A nil value written as text is the empty text.\<close>

definition value_bytes :: "bytes option \<Rightarrow> bytes" where
  "value_bytes v = (case v of None \<Rightarrow> [] | Some p \<Rightarrow> p)"

fun encodeResp :: "resp \<Rightarrow> writer \<Rightarrow> encoding"
  and encodeItems :: "resp list \<Rightarrow> writer \<Rightarrow> encoding" where
  "encodeResp (Resp t v a) b =
     then_do (wtraced (Some (WriteByte t b))) (\<lambda>b1.
       if t = TypeString \<or> t = TypeError \<or> t = TypeInt then encodeTextBytes (value_bytes v) b1
       else if t = TypeBulkBytes then encodeBulkBytes v b1
       else if t = TypeArray then
         (case a of
            None \<Rightarrow> encodeInt (-1) b1
          | Some rs \<Rightarrow> then_do (encodeInt (int (length rs)) b1) (encodeItems rs))
       else Some (Some (Errorf (''bad resp type '' @ RespType_String t)), b1))"
| "encodeItems [] b = Some (None, b)"
| "encodeItems (r # rs) b = then_do (encodeResp r b) (encodeItems rs)"

declare encodeResp.simps [simp del]

definition encodeArray :: "resp list option \<Rightarrow> writer \<Rightarrow> encoding" where
  "encodeArray a b =
     (case a of
        None \<Rightarrow> encodeInt (-1) b
      | Some rs \<Rightarrow> then_do (encodeInt (int (length rs)) b) (encodeItems rs))"

definition encodeMultiBulk :: "resp list option \<Rightarrow> writer \<Rightarrow> encoding" where
  "encodeMultiBulk multi b = then_do (wtraced (Some (WriteByte TypeArray b))) (encodeArray multi)"

subsection \<open>The encoder object\<close>

record encoder =
  bw :: writer
  eErr :: "goerror option"

definition NewEncoderBuffer :: "writer \<Rightarrow> encoder" where
  "NewEncoderBuffer w = \<lparr>bw = w, eErr = None\<rparr>"

definition NewEncoderSize :: "(nat \<times> goerror option) list \<Rightarrow> int \<Rightarrow> encoder" where
  "NewEncoderSize scr sz = NewEncoderBuffer (NewWriterSize scr sz)"

definition NewEncoder :: "(nat \<times> goerror option) list \<Rightarrow> encoder" where
  "NewEncoder scr = NewEncoderBuffer (NewWriterSize scr 8192)"

text \<open>The common tail of \<open>Encode\<close> and \<open>EncodeMultiBulk\<close>: record the error, or flush.\<close>

definition encode_with :: "(writer \<Rightarrow> encoding) \<Rightarrow> bool \<Rightarrow> encoder \<Rightarrow> (goerror option \<times> encoder) option" where
  "encode_with enc flush e =
     (if eErr e \<noteq> None then Some (Some (Trace (ErrVar ErrFailedEncoder)), e)
      else
        (case enc (bw e) of
           None \<Rightarrow> None
         | Some (Some err, b) \<Rightarrow> Some (Some err, e\<lparr>bw := b, eErr := Some err\<rparr>)
         | Some (None, b) \<Rightarrow>
             if flush then
               (case WFlush b of (err, b1) \<Rightarrow> Some (TraceOpt err, e\<lparr>bw := b1, eErr := TraceOpt err\<rparr>))
             else Some (None, e\<lparr>bw := b\<rparr>)))"

definition Encode :: "resp \<Rightarrow> bool \<Rightarrow> encoder \<Rightarrow> (goerror option \<times> encoder) option" where
  "Encode r flush e = encode_with (encodeResp r) flush e"

definition EncodeMultiBulk :: "resp list option \<Rightarrow> bool \<Rightarrow> encoder \<Rightarrow> (goerror option \<times> encoder) option" where
  "EncodeMultiBulk multi flush e = encode_with (encodeMultiBulk multi) flush e"

definition EncoderFlush :: "encoder \<Rightarrow> goerror option \<times> encoder" where
  "EncoderFlush e =
     (if eErr e \<noteq> None then (Some (Trace (ErrVar ErrFailedEncoder)), e)
      else
        (case WFlush (bw e) of
           (Some err, b) \<Rightarrow> (Some (Trace err), e\<lparr>bw := b, eErr := Some (Trace err)\<rparr>)
         | (None, b) \<Rightarrow> (None, e\<lparr>bw := b\<rparr>)))"

text \<open>\<open>EncodeToBytes\<close>: the \<open>bytes.Buffer\<close> takes every write.\<close>

definition EncodeToBytes :: "resp \<Rightarrow> (goerror + bytes) option" where
  "EncodeToBytes r =
     (case Encode r True (NewEncoder []) of
        None \<Rightarrow> None
      | Some (Some err, e) \<Rightarrow> Some (Inl err)
      | Some (None, e) \<Rightarrow> Some (Inr (sink (bw e))))"

subsection \<open>What encoding writes\<close>

text \<open>\<open>encodable\<close>: the types are the five of the protocol, all the way down.\<close>

fun encodable :: "resp \<Rightarrow> bool" where
  "encodable (Resp t v a) \<longleftrightarrow>
     is_text t \<or> t = TypeBulkBytes \<or>
     t = TypeArray \<and> (case a of None \<Rightarrow> True | Some rs \<Rightarrow> list_all encodable rs)"

declare encodable.simps [simp del]

text \<open>
  \<open>writes m b p\<close>: from a healthy writer \<open>b\<close> the step \<open>m\<close> returns; it reports an error exactly when
  the writer has failed, and it hands over \<open>p\<close> after what was handed over before.
\<close>

definition writes :: "encoding \<Rightarrow> writer \<Rightarrow> bytes \<Rightarrow> bool" where
  "writes m b p \<longleftrightarrow>
     (\<forall>w n. sent b w n \<longrightarrow> werr b = None \<longrightarrow>
        (\<exists>err b'. m = Some (err, b') \<and> (err = None \<longleftrightarrow> werr b' = None) \<and> sent b' (w @ p) n))"

lemma writesE:
  assumes "writes m b p" "sent b w n" "werr b = None"
  obtains err b' where "m = Some (err, b')" "err = None \<longleftrightarrow> werr b' = None" "sent b' (w @ p) n"
proof -
  have "\<exists>err b'. m = Some (err, b') \<and> (err = None \<longleftrightarrow> werr b' = None) \<and> sent b' (w @ p) n"
    using assms unfolding writes_def by (elim allE impE) assumption+
  then show thesis by (elim exE conjE) (rule that)
qed

lemma writes_then:
  assumes "writes m b p" "\<And>b'. writes (f b') b' q"
  shows "writes (then_do m f) b (p @ q)"
  unfolding writes_def
proof (intro allI impI)
  fix w n assume "sent b w n" "werr b = None"
  then obtain err b' where m: "m = Some (err, b')" "err = None \<longleftrightarrow> werr b' = None" "sent b' (w @ p) n"
    by (rule writesE [OF assms(1)])
  show "\<exists>err b''. then_do m f = Some (err, b'') \<and> (err = None \<longleftrightarrow> werr b'' = None) \<and> sent b'' (w @ p @ q) n"
  proof (cases err)
    case None
    then have "werr b' = None" using m(2) by simp
    from writesE [OF assms(2) m(3) this] show ?thesis using m(1) None by (metis append_assoc then_do_simps(3))
  next
    case (Some e)
    then show ?thesis using m sent_failed [of b' "w @ p" n q] by simp
  qed
qed

lemma writes_none [simp]: "writes (Some (None, b)) b []"
  by (simp add: writes_def)

lemma writes_traced: "writes m b p \<Longrightarrow> writes (wtraced m) b p"
proof -
  assume m: "writes m b p"
  show ?thesis
  proof (unfold writes_def, intro allI impI)
  fix w n assume "sent b w n" "werr b = None"
  then obtain err b' where "m = Some (err, b')" "err = None \<longleftrightarrow> werr b' = None" "sent b' (w @ p) n"
    by (rule writesE [OF m])
  then show "\<exists>err b'. wtraced m = Some (err, b') \<and> (err = None \<longleftrightarrow> werr b' = None) \<and> sent b' (w @ p) n"
    by (cases err) auto
  qed
qed

lemma writes_Write: "writes (wtraced (no_count (Some (Write p b)))) b p"
proof (rule writes_traced, unfold writes_def, intro allI impI)
  fix w n assume "sent b w n"
  then obtain k b' where "Write p b = ((k, werr b'), b')" "sent b' (w @ p) n" using Write_sent by blast
  then show "\<exists>err b'. no_count (Some (Write p b)) = Some (err, b') \<and> (err = None \<longleftrightarrow> werr b' = None) \<and> sent b' (w @ p) n"
    by simp
qed

lemma writes_WriteString: "writes (wtraced (no_count (WriteString p b))) b p"
proof (rule writes_traced, unfold writes_def, intro allI impI)
  fix w n assume "sent b w n"
  then obtain k b' where "WriteString p b = Some ((k, werr b'), b')" "sent b' (w @ p) n" using WriteString_sent by blast
  then show "\<exists>err b'. no_count (WriteString p b) = Some (err, b') \<and> (err = None \<longleftrightarrow> werr b' = None) \<and> sent b' (w @ p) n"
    by simp
qed

lemma writes_WriteByte: "writes (wtraced (Some (WriteByte c b))) b [c]"
proof (rule writes_traced, unfold writes_def, intro allI impI)
  fix w n assume "sent b w n"
  then obtain b' where "WriteByte c b = (werr b', b')" "sent b' (w @ [c]) n" using WriteByte_sent by blast
  then show "\<exists>err b'. Some (WriteByte c b) = Some (err, b') \<and> (err = None \<longleftrightarrow> werr b' = None) \<and> sent b' (w @ [c]) n"
    by simp
qed

lemma writes_TextBytes: "writes (encodeTextBytes p b) b (p @ CRLF)"
  unfolding encodeTextBytes_def
  using writes_then [OF writes_Write writes_then [OF writes_WriteString writes_none]] by simp

lemma writes_Int: "writes (encodeInt v b) b (FormatInt v @ CRLF)"
  unfolding encodeInt_def encodeTextString_def itoa_FormatInt
  using writes_then [OF writes_WriteString writes_then [OF writes_WriteString writes_none]] by simp

lemma writes_Bulk: "writes (encodeBulkBytes v b) b (wire_bulk v)"
  using writes_then [OF writes_Int writes_TextBytes] by (cases v) (simp_all add: encodeBulkBytes_def wire_bulk_def writes_Int)

lemma encodeResp_writes:
  "encodable r \<Longrightarrow> writes (encodeResp r b) b (wire r)"
  "list_all encodable rs \<Longrightarrow> writes (encodeItems rs b) b (concat (map wire rs))"
proof (induction r b and rs b rule: encodeResp_encodeItems.induct)
  case (1 t v a b)
  consider (simple) "is_text t" | (bulk) "t = TypeBulkBytes" | (null) "t = TypeArray" "a = None"
    | (arr) rs where "t = TypeArray" "a = Some rs" "list_all encodable rs"
    using 1(2) by (cases a) (auto simp: encodable.simps)
  then show ?case
  proof cases
    case simple
    then have t: "t \<noteq> TypeBulkBytes" "t \<noteq> TypeArray" by (auto simp: is_text_def)
    show ?thesis
      using writes_then [OF writes_WriteByte [of t b] writes_TextBytes [of "value_bytes v"]] simple t
      by (simp add: encodeResp.simps wire.simps is_text_def value_bytes_def)
  next
    case bulk
    show ?thesis
      using writes_then [OF writes_WriteByte [of t b] writes_Bulk [of v]] bulk by (simp add: encodeResp.simps wire.simps)
  next
    case null
    show ?thesis
      using writes_then [OF writes_WriteByte [of t b] writes_Int [of "-1"]] null by (simp add: encodeResp.simps wire.simps)
  next
    case arr
    have "writes (encodeItems rs b') b' (concat (map wire rs))" for b'
      using 1(1) arr by (simp add: is_text_def resp_types)
    then show ?thesis
      using writes_then [OF writes_WriteByte [of t b] writes_then [OF writes_Int [of "int (length rs)"]]] arr
      by (simp add: encodeResp.simps wire.simps)
  qed
next
  case (2 b)
  then show ?case by simp
next
  case (3 r rs b)
  then show ?case by (auto intro!: writes_then)
qed

lemma encodeMultiBulk_writes:
  "list_all encodable rs \<Longrightarrow> writes (encodeMultiBulk (Some rs) b) b (wire_multi rs)"
  unfolding encodeMultiBulk_def wire_multi_def encodeArray_def
  using writes_then [OF writes_WriteByte [of TypeArray b] writes_then [OF writes_Int encodeResp_writes(2)], of rs]
  by simp

lemma wf_encodable: "wf_resp r \<Longrightarrow> encodable r"
proof (induction r rule: encodable.induct)
  case (1 t v a)
  then show ?case
    by (auto simp: wf_resp.simps encodable.simps list_all_iff split: if_splits option.splits)
qed

end
