(* ===== verification/RespCodec.thy ===== *)
theory RespCodec
  imports Decoder Encoder
begin

section \<open>Encoding and decoding agree\<close>

text \<open>
  The contract between the two ends of a connection: what \<open>encoder.go\<close> writes, \<open>decoder.go\<close>
  reads back, however the network cuts the bytes into reads and whatever the buffer sizes
  (at least 16 bytes on the reading side, so that a length line fits). The contract is the locale \<open>codec\<close>,
  whose lemmas (pipelining, unambiguous framing) hold for values and for requests.
\<close>

subsection \<open>Decoding a wire format\<close>

lemma trim_line_CRLF [simp]: "trim_line (v @ CRLF) = Some v"
  by (simp add: trim_line_def nth_append)

lemma decodeInt_stream:
  assumes "reader_at b (FormatInt i @ CRLF @ s) e n" "int64 i" "length (FormatInt i) + 2 \<le> n"
  shows "\<exists>b'. decodeInt b = Some (Inr i, b') \<and> reader_at b' s e n"
proof -
  have "LF \<notin> set (FormatInt i @ [CR])" using FormatInt_no_LF by simp
  then have "index_byte LF ((FormatInt i @ [CR]) @ LF # s) = Some (length (FormatInt i @ [CR]))"
    by (rule index_byte_at)
  then have ix: "index_byte LF (FormatInt i @ CRLF @ s) = Some (Suc (length (FormatInt i)))" by simp
  obtain b' where b': "ReadSlice LF b = ((FormatInt i @ CRLF, None), b')" "reader_at b' s e n"
    using ReadSlice_found [OF assms(1) ix] assms(3) by auto
  show ?thesis using b' assms(2) by (auto simp: decodeInt_def trim_line_CRLF simp del: append.simps)
qed

lemma decodeTextBytes_stream:
  assumes "reader_at b (v @ CRLF @ s) e n" "LF \<notin> set v" "length (v @ CRLF @ s) < fuel"
  shows "\<exists>b'. decodeTextBytes fuel b = Some (Inr v, b') \<and> reader_at b' s e n"
proof -
  have "LF \<notin> set (v @ [CR])" "reader_at b ((v @ [CR]) @ LF # s) e n" using assms(1,2) by auto
  then obtain b' where "ReadBytes fuel LF b = Some (Inr ((v @ [CR]) @ [LF]), b')" "reader_at b' s e n"
    using ReadBytes_found [of b "v @ [CR]" LF s e n fuel] assms(3) by auto
  then show ?thesis by (auto simp: decodeTextBytes_def)
qed

lemma small_line: "0 \<le> i \<Longrightarrow> i \<le> MaxBulkBytesLen \<Longrightarrow> int64 i \<and> length (FormatInt i) \<le> 9"
  using length_FormatInt [of i 8] by (simp add: MaxBulkBytesLen_def int64_def)

lemma minus_one_line: "int64 (-1)" "length (FormatInt (-1)) = 2"
  by (simp_all add: int64_def FormatInt_def nat_digits.simps)

lemma decodeBulkBytes_stream:
  assumes "reader_at b (wire_bulk v @ s) e n" "16 \<le> n" "Suc (length (wire_bulk v @ s)) < fuel"
    "case v of None \<Rightarrow> True | Some x \<Rightarrow> int (length x) \<le> MaxBulkBytesLen"
  shows "\<exists>b'. decodeBulkBytes fuel b = Some (Inr v, b') \<and> reader_at b' s e n"
proof (cases v)
  case None
  then obtain b' where "decodeInt b = Some (Inr (-1), b')" "reader_at b' s e n"
    using decodeInt_stream [of b "-1" s e n] assms minus_one_line by (auto simp: wire_bulk_def)
  then show ?thesis using None by (simp add: decodeBulkBytes_def MaxBulkBytesLen_def)
next
  case (Some x)
  have l: "int64 (int (length x)) \<and> length (FormatInt (int (length x))) \<le> 9"
    using small_line [of "int (length x)"] assms(4) Some by simp
  obtain b1 where b1: "decodeInt b = Some (Inr (int (length x)), b1)" "reader_at b1 (x @ CRLF @ s) e n"
    using decodeInt_stream [of b "int (length x)" "x @ CRLF @ s" e n] assms l Some by (auto simp: wire_bulk_def)
  have "Suc (length (x @ CRLF @ s)) < fuel" using assms(3) Some by (simp add: wire_bulk_def)
  then obtain b' where b': "ReadFull fuel (length x + 2) b1 = Some (Inr (x @ CRLF), b')" "reader_at b' s e n"
    using ReadFull_spec [OF b1(2), of "length x + 2" fuel] by auto
  have "\<not> MaxBulkBytesLen < int (length x)" using assms(4) Some by simp
  then show ?thesis using b1 b' Some by (simp add: decodeBulkBytes_def nth_append)
qed

lemma decodeItems_stream:
  assumes "reader_at b (concat (map wire rs) @ s) e n"
    "\<And>r b' s'. r \<in> set rs \<Longrightarrow> reader_at b' (wire r @ s') e n \<Longrightarrow>
       length (wire r @ s') \<le> length (concat (map wire rs) @ s) \<Longrightarrow>
       \<exists>b''. dec b' = Some (Inr r, b'') \<and> reader_at b'' s' e n"
  shows "\<exists>b'. decodeItems dec (length rs) b = Some (Inr rs, b') \<and> reader_at b' s e n"
  using assms
proof (induction rs arbitrary: b)
  case Nil
  then show ?case by simp
next
  case (Cons r rs)
  obtain b1 where b1: "dec b = Some (Inr r, b1)" "reader_at b1 (concat (map wire rs) @ s) e n"
    using Cons.prems(2) [of r b "concat (map wire rs) @ s"] Cons.prems(1) by auto
  obtain b' where "decodeItems dec (length rs) b1 = Some (Inr rs, b')" "reader_at b' s e n"
    using Cons.IH [OF b1(2)] Cons.prems(2) by (auto simp: trans_le_add2)
  then show ?case using b1(1) by simp
qed

lemma decodeArray_stream:
  assumes "reader_at b (FormatInt (int (length rs)) @ CRLF @ concat (map wire rs) @ s) e n" "16 \<le> n"
    "int (length rs) \<le> MaxArrayLen"
    "\<And>r b' s'. r \<in> set rs \<Longrightarrow> reader_at b' (wire r @ s') e n \<Longrightarrow>
       length (wire r @ s') \<le> length (concat (map wire rs) @ s) \<Longrightarrow>
       \<exists>b''. dec b' = Some (Inr r, b'') \<and> reader_at b'' s' e n"
  shows "\<exists>b'. decodeArray dec b = Some (Inr (Some rs), b') \<and> reader_at b' s e n"
proof -
  have l: "int64 (int (length rs)) \<and> length (FormatInt (int (length rs))) \<le> 9"
    using small_line [of "int (length rs)"] assms(3) by (simp add: MaxArrayLen_def MaxBulkBytesLen_def)
  obtain b1 where b1: "decodeInt b = Some (Inr (int (length rs)), b1)" "reader_at b1 (concat (map wire rs) @ s) e n"
    using decodeInt_stream [OF assms(1)] assms(2) l by auto
  obtain b' where b': "decodeItems dec (length rs) b1 = Some (Inr rs, b')" "reader_at b' s e n"
    using decodeItems_stream [of b1 rs s e n dec] b1(2) assms(4) by blast
  then show ?thesis using b1(1) assms(3) by (simp add: decodeArray_def)
qed

lemma decodeResp_stream:
  assumes "wf_resp r" "reader_at b (wire r @ s) e n" "16 \<le> n" "Suc (length (wire r @ s)) < fuel"
  shows "\<exists>b'. decodeResp fuel b = Some (Inr r, b') \<and> reader_at b' s e n"
  using assms(1,2,4)
proof (induction fuel arbitrary: r b s)
  case 0
  then show ?case by simp
next
  case (Suc fuel)
  from Suc.prems(1) show ?case
  proof (cases rule: wf_resp_cases)
    case (simple t v)
    then have w: "wire r = t # v @ CRLF" by (auto simp: wire.simps is_text_def)
    then obtain b1 where b1: "ReadByte b = (Inr t, b1)" "reader_at b1 (v @ CRLF @ s) e n"
      using ReadByte_Cons Suc.prems(2) by fastforce
    obtain b' where "decodeTextBytes fuel b1 = Some (Inr v, b')" "reader_at b' s e n"
      using decodeTextBytes_stream [OF b1(2) simple(3), of fuel] Suc.prems(3) w by auto
    then show ?thesis using b1(1) simple(1,2) by (simp add: is_text_def)
  next
    case null_bulk
    then have w: "wire r = TypeBulkBytes # wire_bulk None" by (simp add: wire.simps NewBulkBytes_def)
    then obtain b1 where b1: "ReadByte b = (Inr TypeBulkBytes, b1)" "reader_at b1 (wire_bulk None @ s) e n"
      using ReadByte_Cons Suc.prems(2) by fastforce
    then show ?thesis
      using decodeBulkBytes_stream [OF b1(2) assms(3), of fuel] Suc.prems(3) null_bulk w by (auto simp: NewBulkBytes_def)
  next
    case (bulk v)
    then have w: "wire r = TypeBulkBytes # wire_bulk (Some v)" by (simp add: wire.simps NewBulkBytes_def)
    then obtain b1 where b1: "ReadByte b = (Inr TypeBulkBytes, b1)" "reader_at b1 (wire_bulk (Some v) @ s) e n"
      using ReadByte_Cons Suc.prems(2) by fastforce
    then show ?thesis
      using decodeBulkBytes_stream [OF b1(2) assms(3), of fuel] Suc.prems(3) bulk w by (auto simp: NewBulkBytes_def)
  next
    case null_array
    then have w: "wire r = TypeArray # FormatInt (-1) @ CRLF" by (simp add: wire.simps NewArray_def)
    then obtain b1 where b1: "ReadByte b = (Inr TypeArray, b1)" "reader_at b1 (FormatInt (-1) @ CRLF @ s) e n"
      using ReadByte_Cons Suc.prems(2) by fastforce
    obtain b' where "decodeInt b1 = Some (Inr (-1), b')" "reader_at b' s e n"
      using decodeInt_stream [OF b1(2)] assms(3) minus_one_line by auto
    then show ?thesis using b1(1) null_array by (simp add: decodeArray_def MaxArrayLen_def NewArray_def)
  next
    case (array rs)
    then have w: "wire r = TypeArray # FormatInt (int (length rs)) @ CRLF @ concat (map wire rs)"
      by (simp add: wire.simps NewArray_def)
    then obtain b1 where b1: "ReadByte b = (Inr TypeArray, b1)"
      "reader_at b1 (FormatInt (int (length rs)) @ CRLF @ concat (map wire rs) @ s) e n"
      using ReadByte_Cons Suc.prems(2) by fastforce
    have "\<exists>b''. decodeResp fuel b' = Some (Inr q, b'') \<and> reader_at b'' s' e n"
      if "q \<in> set rs" "reader_at b' (wire q @ s') e n" "length (wire q @ s') \<le> length (concat (map wire rs) @ s)" for q b' s'
      using Suc.IH [of q b' s'] that Suc.prems(3) w array(3) by (auto simp: list_all_iff)
    then obtain b' where "decodeArray (decodeResp fuel) b1 = Some (Inr (Some rs), b')" "reader_at b' s e n"
      using decodeArray_stream [OF b1(2) assms(3) array(2)] by blast
    then show ?thesis using b1(1) array(1) by (simp add: NewArray_def)
  qed
qed

lemma wire_bulk_item: "IsBulkBytes r \<Longrightarrow> wf_resp r \<Longrightarrow> wire r = TypeBulkBytes # wire_bulk (rvalue r)"
  by (cases r) (simp add: is_resp wire.simps)

lemma decodeBulkItems_stream:
  assumes "reader_at b (concat (map wire rs) @ s) e n" "16 \<le> n" "list_all wf_resp rs" "list_all IsBulkBytes rs"
    "Suc (length (concat (map wire rs) @ s)) < fuel"
  shows "\<exists>b'. decodeBulkItems fuel (length rs) b = Some (Inr rs, b') \<and> reader_at b' s e n"
  using assms
proof (induction rs arbitrary: b)
  case Nil
  then show ?case by simp
next
  case (Cons r rs)
  obtain b1 where b1: "decodeResp fuel b = Some (Inr r, b1)" "reader_at b1 (concat (map wire rs) @ s) e n"
    using decodeResp_stream [of r b "concat (map wire rs) @ s" e n fuel] Cons.prems by auto
  then show ?case using Cons.IH [OF b1(2)] Cons.prems by (auto simp: is_resp)
qed

text \<open>\<open>good_request\<close>: what \<open>EncodeMultiBulk\<close> is given and \<open>DecodeMultiBulk\<close> accepts as an array.\<close>

definition good_request :: "resp list \<Rightarrow> bool" where
  "good_request m \<longleftrightarrow>
     is_bulk_list m \<and> list_all wf_resp m \<and> int (length m) \<le> MaxArrayLen"

lemma decodeMultiBulk_stream:
  assumes "good_request m" "reader_at b (wire_multi m @ s) e n" "16 \<le> n" "Suc (length (wire_multi m @ s)) < fuel"
  shows "\<exists>b'. decodeMultiBulk fuel b = Some (Inr m, b') \<and> reader_at b' s e n"
proof -
  let ?k = "int (length m)"
  have m: "m \<noteq> []" "list_all IsBulkBytes m" "list_all wf_resp m" "?k \<le> MaxArrayLen"
    using assms(1) by (auto simp: good_request_def is_bulk_list_def)
  have at: "reader_at b (TypeArray # FormatInt ?k @ CRLF @ concat (map wire m) @ s) e n"
    using assms(2) by (simp add: wire_multi_def)
  obtain b1 where b1: "PeekByte b = (Inr TypeArray, b1)" "reader_at b1 (TypeArray # FormatInt ?k @ CRLF @ concat (map wire m) @ s) e n"
    using PeekByte_Cons [OF at] by blast
  obtain b2 where b2: "ReadByte b1 = (Inr TypeArray, b2)" "reader_at b2 (FormatInt ?k @ CRLF @ concat (map wire m) @ s) e n"
    using ReadByte_Cons [OF b1(2)] by blast
  have "int64 ?k \<and> length (FormatInt ?k) \<le> 9"
    using small_line [of ?k] m(4) by (simp add: MaxArrayLen_def MaxBulkBytesLen_def)
  then obtain b3 where b3: "decodeInt b2 = Some (Inr ?k, b3)" "reader_at b3 (concat (map wire m) @ s) e n"
    using decodeInt_stream [OF b2(2)] assms(3) by auto
  have "Suc (length (concat (map wire m) @ s)) < fuel" using assms(4) by (simp add: wire_multi_def)
  then obtain b' where "decodeBulkItems fuel (length m) b3 = Some (Inr m, b')" "reader_at b' s e n"
    using decodeBulkItems_stream [OF b3(2) assms(3) m(3,2)] by blast
  then show ?thesis using b1(1) b2(1) b3(1) m(1,4) by (simp add: decodeMultiBulk_def)
qed

subsection \<open>The contract of a codec\<close>

text \<open>
  A codec: \<open>good\<close> values, their encoding, a decoding step on a state, and \<open>at st s\<close>: the state
  stands for the stream \<open>s\<close>. The law is that a decoding step on an encoded value followed by
  anything returns the value and stands for the rest; \<open>start\<close> is a state for any stream.
\<close>

locale codec =
  fixes good :: "'a \<Rightarrow> bool" and enc :: "'a \<Rightarrow> bytes"
    and dec :: "'s \<Rightarrow> ((goerror + 'a) \<times> 's) option" and at :: "'s \<Rightarrow> bytes \<Rightarrow> bool"
    and room :: "bytes \<Rightarrow> bool" and start :: "bytes \<Rightarrow> 's"
  assumes dec_enc: "good x \<Longrightarrow> at st (enc x @ s) \<Longrightarrow> \<exists>st'. dec st = Some (Inr x, st') \<and> at st' s"
    and at_start: "room s \<Longrightarrow> at (start s) s"
begin

text \<open>Reading \<open>k\<close> values one after the other, as a peer does with a pipelined stream.\<close>

primrec dec_many :: "nat \<Rightarrow> 's \<Rightarrow> ('a list \<times> 's) option" where
  "dec_many 0 st = Some ([], st)"
| "dec_many (Suc k) st =
     (case dec st of
        Some (Inr x, st1) \<Rightarrow> (case dec_many k st1 of Some (xs, st2) \<Rightarrow> Some (x # xs, st2) | None \<Rightarrow> None)
      | _ \<Rightarrow> None)"

lemma pipelined:
  "list_all good xs \<Longrightarrow> at st (concat (map enc xs) @ s) \<Longrightarrow>
   \<exists>st'. dec_many (length xs) st = Some (xs, st') \<and> at st' s"
proof (induction xs arbitrary: st)
  case Nil
  then show ?case by simp
next
  case (Cons x xs)
  then obtain st1 where 1: "dec st = Some (Inr x, st1)" "at st1 (concat (map enc xs) @ s)"
    using dec_enc [of x st "concat (map enc xs) @ s"] by auto
  then show ?case using Cons.IH [OF _ 1(2)] Cons.prems by auto
qed

lemma framing:
  assumes "good x" "good y" "enc x @ s = enc y @ t" "room (enc x @ s)"
  shows "x = y"
proof -
  have "at (start (enc x @ s)) (enc x @ s)" "at (start (enc x @ s)) (enc y @ t)"
    using at_start [OF assms(4)] assms(3) by simp_all
  then show ?thesis using dec_enc [OF assms(1)] dec_enc [OF assms(2)] by fastforce
qed

end

text \<open>\<open>dec_at fuel e d s\<close>: a healthy decoder over a buffer of at least 16 bytes stands for \<open>s\<close>.\<close>

definition dec_at :: "nat \<Rightarrow> goerror \<Rightarrow> decoder \<Rightarrow> bytes \<Rightarrow> bool" where
  "dec_at fuel e d s \<longleftrightarrow>
     dErr d = None \<and> (\<exists>n \<ge> 16. reader_at (dbr d) s e n) \<and> Suc (length s) < fuel"

lemma NewDecoder_at:
  assumes "clean scr" "serr scr \<noteq> ErrVar ErrBufferFull" "sz \<le> 0 \<or> 16 \<le> sz" "Suc (length (sdata scr)) < fuel"
  shows "dec_at fuel (serr scr) (NewDecoderSize scr sz) (sdata scr)"
proof -
  have "reader_at (NewReaderSize scr sz) (sdata scr) (serr scr) (if sz \<le> 0 then DefaultBufferSize else nat sz)"
    using assms by (auto simp: reader_at_def NewReaderSize_def rinv_def window_def Let_def DefaultBufferSize_def)
  moreover have "16 \<le> (if sz \<le> 0 then DefaultBufferSize else nat sz)"
    using assms(3) by (auto simp: DefaultBufferSize_def)
  ultimately show ?thesis
    using assms(4) unfolding dec_at_def NewDecoderSize_def NewDecoderBuffer_def by auto
qed

lemma bytes_reader_stream: "clean (bytes_reader p)" "serr (bytes_reader p) = ErrVar EOF" "sdata (bytes_reader p) = p"
  by (simp_all add: bytes_reader_def)

lemma NewDecoder_bytes_at: "Suc (length p) < fuel \<Longrightarrow> dec_at fuel (ErrVar EOF) (NewDecoder (bytes_reader p)) p"
  using NewDecoder_at [of "bytes_reader p" 8192 fuel]
  by (simp add: bytes_reader_stream NewDecoder_def NewDecoderSize_def)

lemma Decode_wire:
  assumes "wf_resp r" "dec_at fuel e d (wire r @ s)"
  shows "\<exists>d'. Decode fuel d = Some (Inr r, d') \<and> dec_at fuel e d' s"
proof -
  obtain n where n: "16 \<le> n" "reader_at (dbr d) (wire r @ s) e n" using assms(2) by (auto simp: dec_at_def)
  then obtain b' where "decodeResp fuel (dbr d) = Some (Inr r, b')" "reader_at b' s e n"
    using decodeResp_stream [OF assms(1) n(2,1), of fuel] assms(2) by (auto simp: dec_at_def)
  then show ?thesis using assms(2) n(1) by (auto simp: dec_at_def Decode_def)
qed

lemma DecodeMultiBulk_wire:
  assumes "good_request m" "dec_at fuel e d (wire_multi m @ s)"
  shows "\<exists>d'. DecodeMultiBulk fuel d = Some (Inr m, d') \<and> dec_at fuel e d' s"
proof -
  obtain n where n: "16 \<le> n" "reader_at (dbr d) (wire_multi m @ s) e n" using assms(2) by (auto simp: dec_at_def)
  then obtain b' where "decodeMultiBulk fuel (dbr d) = Some (Inr m, b')" "reader_at b' s e n"
    using decodeMultiBulk_stream [OF assms(1) n(2,1), of fuel] assms(2) by (auto simp: dec_at_def)
  then show ?thesis using assms(2) n(1) by (auto simp: dec_at_def DecodeMultiBulk_def)
qed

interpretation reply_codec: codec wf_resp wire "Decode fuel" "dec_at fuel (ErrVar EOF)"
    "\<lambda>s. Suc (length s) < fuel" "\<lambda>s. NewDecoder (bytes_reader s)" for fuel
  by unfold_locales (auto simp: NewDecoder_bytes_at intro: Decode_wire)

interpretation request_codec: codec good_request wire_multi "DecodeMultiBulk fuel" "dec_at fuel (ErrVar EOF)"
    "\<lambda>s. Suc (length s) < fuel" "\<lambda>s. NewDecoder (bytes_reader s)" for fuel
  by unfold_locales (auto simp: NewDecoder_bytes_at intro: DecodeMultiBulk_wire)

subsection \<open>The encoder object\<close>

text \<open>\<open>enc_at e w n\<close>: an encoder that was handed \<open>w\<close> and has failed exactly if its writer has.\<close>

definition enc_at :: "encoder \<Rightarrow> bytes \<Rightarrow> nat \<Rightarrow> bool" where
  "enc_at e w n \<longleftrightarrow> sent (bw e) w n \<and> (eErr e = None \<longleftrightarrow> werr (bw e) = None)"

lemma enc_at_prefix: "enc_at e w n \<Longrightarrow> \<exists>rest. w = sink (bw e) @ rest"
  unfolding enc_at_def by (blast intro: sent_prefix)

lemma encode_with_at:
  assumes "enc_at e w n" "\<And>b. writes (enc b) b p"
  shows "\<exists>err e'. encode_with enc flush e = Some (err, e') \<and> enc_at e' (w @ p) n
    \<and> (err = None \<longrightarrow> eErr e' = None \<and> (flush \<longrightarrow> sink (bw e') = w @ p)) \<and> (err \<noteq> None \<longrightarrow> eErr e' \<noteq> None)"
proof (cases "eErr e")
  case (Some x)
  then have "enc_at e (w @ p) n" using assms(1) sent_failed by (auto simp: enc_at_def)
  then show ?thesis using Some by (simp add: encode_with_def)
next
  case None
  then have b: "sent (bw e) w n" "werr (bw e) = None" using assms(1) by (simp_all add: enc_at_def)
  obtain err b1 where m: "enc (bw e) = Some (err, b1)" "err = None \<longleftrightarrow> werr b1 = None" "sent b1 (w @ p) n"
    using b by (rule writesE [OF assms(2)])
  obtain er b2 where f: "wflush b1 = (er, b2)" "er = werr b2" "sent b2 (w @ p) n"
    "er = None \<longrightarrow> wrpos b2 = 0 \<and> sink b2 = w @ p"
    using wflush_sent [OF m(3)] by auto
  show ?thesis
  proof (cases err)
    case (Some x)
    then show ?thesis using m None by (simp add: encode_with_def enc_at_def)
  next
    case ok: None
    let ?r = "if flush then (TraceOpt er, e\<lparr>bw := b2, eErr := TraceOpt er\<rparr>) else (None, e\<lparr>bw := b1\<rparr>)"
    have fin: "enc_at (e\<lparr>bw := b2, eErr := TraceOpt er\<rparr>) (w @ p) n" "enc_at (e\<lparr>bw := b1\<rparr>) (w @ p) n"
    proof -
      show "enc_at (e\<lparr>bw := b2, eErr := TraceOpt er\<rparr>) (w @ p) n"
        using f(2) [symmetric] f(3) by (cases er) (simp_all add: enc_at_def)
      show "enc_at (e\<lparr>bw := b1\<rparr>) (w @ p) n"
        using m(2,3) ok None by (simp add: enc_at_def)
    qed
    have "encode_with enc flush e = Some ?r"
      using m(1) ok None f(1) by (simp add: encode_with_def WFlush_def)
    moreover have "enc_at (snd ?r) (w @ p) n
      \<and> (fst ?r = None \<longrightarrow> eErr (snd ?r) = None \<and> (flush \<longrightarrow> sink (bw (snd ?r)) = w @ p))
      \<and> (fst ?r \<noteq> None \<longrightarrow> eErr (snd ?r) \<noteq> None)"
      using fin f(4) None by (cases er) simp_all
    ultimately show ?thesis by (metis prod.collapse)
  qed
qed

lemma NewEncoder_at: "enc_at (NewEncoderSize scr sz) [] (if sz \<le> 0 then 1024 else nat sz)"
  using sent_new [of scr sz] by (simp add: enc_at_def NewEncoderSize_def NewEncoderBuffer_def NewWriterSize_def Let_def)

lemma Encode_at:
  assumes "enc_at e w n" "encodable r"
  shows "\<exists>err e'. Encode r flush e = Some (err, e') \<and> enc_at e' (w @ wire r) n
    \<and> (err = None \<longrightarrow> eErr e' = None \<and> (flush \<longrightarrow> sink (bw e') = w @ wire r)) \<and> (err \<noteq> None \<longrightarrow> eErr e' \<noteq> None)"
  unfolding Encode_def using assms by (intro encode_with_at encodeResp_writes)

lemma EncodeMultiBulk_at:
  assumes "enc_at e w n" "list_all encodable rs"
  shows "\<exists>err e'. EncodeMultiBulk (Some rs) flush e = Some (err, e') \<and> enc_at e' (w @ wire_multi rs) n
    \<and> (err = None \<longrightarrow> eErr e' = None \<and> (flush \<longrightarrow> sink (bw e') = w @ wire_multi rs)) \<and> (err \<noteq> None \<longrightarrow> eErr e' \<noteq> None)"
  unfolding EncodeMultiBulk_def using assms by (intro encode_with_at encodeMultiBulk_writes)

text \<open>Over a sink that takes everything no error can come up.\<close>

definition quiet :: "encoding \<Rightarrow> writer \<Rightarrow> bool" where
  "quiet m b \<longleftrightarrow> (\<forall>w n. writes_to b w n \<longrightarrow> (\<exists>b' w'. m = Some (None, b') \<and> writes_to b' w' n))"

lemma quietE:
  assumes "quiet m b" "writes_to b w n"
  obtains b' w' where "m = Some (None, b')" "writes_to b' w' n"
  using assms unfolding quiet_def by metis

lemma quiet_none [simp]: "quiet (Some (None, b)) b"
  unfolding quiet_def by auto

lemma quiet_then:
  assumes "quiet m b" "\<And>b'. quiet (f b') b'"
  shows "quiet (then_do m f) b"
  unfolding quiet_def
proof (intro allI impI)
  fix w n assume "writes_to b w n"
  then obtain b1 w1 where 1: "m = Some (None, b1)" "writes_to b1 w1 n" by (rule quietE [OF assms(1)])
  from 1(2) obtain b2 w2 where "f b1 = Some (None, b2)" "writes_to b2 w2 n" by (rule quietE [OF assms(2)])
  with 1(1) show "\<exists>b' w'. then_do m f = Some (None, b') \<and> writes_to b' w' n" by auto
qed

lemma quiet_steps:
  "quiet (wtraced (no_count (Some (Write p b)))) b" "quiet (wtraced (no_count (WriteString p b))) b"
  "quiet (wtraced (Some (WriteByte c b))) b"
proof -
  show "quiet (wtraced (no_count (Some (Write p b)))) b"
    unfolding quiet_def
  proof (intro allI impI)
    fix w n assume "writes_to b w n"
    from Write_ok [OF this, of p] show "\<exists>b' w'. wtraced (no_count (Some (Write p b))) = Some (None, b') \<and> writes_to b' w' n"
      by auto
  qed
  show "quiet (wtraced (no_count (WriteString p b))) b"
    unfolding quiet_def
  proof (intro allI impI)
    fix w n assume "writes_to b w n"
    from WriteString_ok [OF this, of p] show "\<exists>b' w'. wtraced (no_count (WriteString p b)) = Some (None, b') \<and> writes_to b' w' n"
      by auto
  qed
  show "quiet (wtraced (Some (WriteByte c b))) b"
    unfolding quiet_def
  proof (intro allI impI)
    fix w n assume "writes_to b w n"
    from WriteByte_ok [OF this, of c] show "\<exists>b' w'. wtraced (Some (WriteByte c b)) = Some (None, b') \<and> writes_to b' w' n"
      by auto
  qed
qed

lemma quiet_parts: "quiet (encodeTextBytes p b) b" "quiet (encodeInt v b) b" "quiet (encodeBulkBytes q b) b"
proof -
  show t: "quiet (encodeTextBytes p b) b" for p b
    unfolding encodeTextBytes_def by (intro quiet_then quiet_steps quiet_none)
  show i: "quiet (encodeInt v b) b" for v b
    unfolding encodeInt_def encodeTextString_def by (intro quiet_then quiet_steps quiet_none)
  show "quiet (encodeBulkBytes q b) b"
    unfolding encodeBulkBytes_def by (cases q) (auto intro: quiet_then t i)
qed

lemma encodeResp_quiet:
  "encodable r \<Longrightarrow> quiet (encodeResp r b) b"
  "list_all encodable rs \<Longrightarrow> quiet (encodeItems rs b) b"
proof (induction r b and rs b rule: encodeResp_encodeItems.induct)
  case (1 t v a b)
  have "quiet (encodeItems rs b') b'" if "a = Some rs" "t = TypeArray" for rs b'
    using 1 that by (auto simp: encodable.simps is_text_def)
  then show ?case
    unfolding encodeResp.simps using 1(2)
    by (intro quiet_then quiet_steps) (auto simp: encodable.simps is_text_def intro: quiet_then quiet_parts split: option.split)
next
  case (2 b)
  then show ?case by simp
next
  case (3 r rs b)
  then show ?case by (auto intro!: quiet_then)
qed

lemma EncodeToBytes_wire:
  assumes "encodable r"
  shows "EncodeToBytes r = Some (Inr (wire r))"
proof -
  let ?e = "NewEncoder []"
  have at: "enc_at ?e [] 8192" using NewEncoder_at [of "[]" 8192] by (simp add: NewEncoder_def NewEncoderSize_def)
  have wt: "writes_to (bw ?e) [] 8192"
    using writes_to_new [of 8192] by (simp add: NewEncoder_def NewEncoderBuffer_def)
  obtain b1 w1 where b1: "encodeResp r (bw ?e) = Some (None, b1)" "writes_to b1 w1 8192"
    using wt by (rule quietE [OF encodeResp_quiet(1) [OF assms]])
  obtain b2 where "WFlush b1 = (None, b2)" using WFlush_ok [OF b1(2)] by blast
  then have "\<exists>e'. Encode r True ?e = Some (None, e')"
    using b1(1) by (simp add: Encode_def encode_with_def NewEncoder_def NewEncoderBuffer_def)
  then obtain e' where e': "Encode r True ?e = Some (None, e')" ..
  then have "sink (bw e') = wire r" using Encode_at [OF at assms, of True] by auto
  then show ?thesis using e' by (simp add: EncodeToBytes_def)
qed

subsection \<open>Properties\<close>

text \<open>
  Round trip. Encoding a well-formed value with \<open>EncodeToBytes\<close> succeeds, and
  \<open>DecodeFromBytes\<close> of the bytes returns the very same value: null and empty bulks and arrays
  stay apart, nesting and binary contents survive.
\<close>

theorem reply_roundtrip:
  assumes "wf_resp r" "Suc (length (wire r)) < fuel"
  shows "\<exists>p. EncodeToBytes r = Some (Inr p) \<and> DecodeFromBytes fuel p = Some (Inr r)"
proof -
  obtain d' where "Decode fuel (NewDecoder (bytes_reader (wire r))) = Some (Inr r, d')"
    using Decode_wire [OF assms(1), of fuel "ErrVar EOF" _ "[]"] NewDecoder_bytes_at [OF assms(2)] by auto
  then show ?thesis
    using EncodeToBytes_wire [OF wf_encodable [OF assms(1)]] by (auto simp: DecodeFromBytes_def)
qed

theorem reply_roundtrip_witness:
  "\<exists>p. EncodeToBytes (NewArray (Some [NewInt ''7'', NewBulkBytes None, NewBulkBytes (Some CRLF)])) = Some (Inr p)
     \<and> DecodeFromBytes 50 p = Some (Inr (NewArray (Some [NewInt ''7'', NewBulkBytes None, NewBulkBytes (Some CRLF)])))"
proof (rule reply_roundtrip)
  show "wf_resp (NewArray (Some [NewInt ''7'', NewBulkBytes None, NewBulkBytes (Some CRLF)]))"
    by (simp add: MaxArrayLen_def MaxBulkBytesLen_def)
  show "Suc (length (wire (NewArray (Some [NewInt ''7'', NewBulkBytes None, NewBulkBytes (Some CRLF)])))) < 50"
    by (simp add: new_resp wire.simps wire_bulk_def FormatInt_def nat_digits.simps)
qed

text \<open>
  C19. Pipelined replies. A decoder whose connection delivers the encodings of well-formed values
  one after the other, cut into reads in any way, returns these values in order and then
  stands for exactly the bytes that follow.
\<close>

theorem replies_pipelined:
  assumes "list_all wf_resp rs" "clean scr" "sdata scr = concat (map wire rs) @ s" "serr scr = ErrVar EOF"
    "16 \<le> sz" "Suc (length (sdata scr)) < fuel"
  shows "\<exists>d'. reply_codec.dec_many fuel (length rs) (NewDecoderSize scr sz) = Some (rs, d')
     \<and> dec_at fuel (ErrVar EOF) d' s"
proof -
  have "dec_at fuel (ErrVar EOF) (NewDecoderSize scr sz) (concat (map wire rs) @ s)"
    using NewDecoder_at [of scr sz fuel] assms by simp
  then show ?thesis by (rule reply_codec.pipelined [OF assms(1)])
qed

theorem replies_pipelined_witness:
  "\<exists>d'. reply_codec.dec_many 50 (length [NewString ''OK'', NewError ''E'']) (NewDecoderSize [(''+OK'', None), ([CR], None), ([LF] @ ''-E'', None), (CRLF @ ''x'', None)] 16)
     = Some ([NewString ''OK'', NewError ''E''], d') \<and> dec_at 50 (ErrVar EOF) d' ''x''"
  by (rule replies_pipelined) (simp_all add: new_resp wire.simps wf_resp.simps resp_types is_text_def)

text \<open>
  C20. Pipelined requests. The same for requests: what a client sends with \<open>EncodeMultiBulk\<close> is
  what \<open>DecodeMultiBulk\<close> returns, request by request and in order.
\<close>

theorem requests_pipelined:
  assumes "list_all good_request ms" "clean scr" "sdata scr = concat (map wire_multi ms) @ s" "serr scr = ErrVar EOF"
    "16 \<le> sz" "Suc (length (sdata scr)) < fuel"
  shows "\<exists>d'. request_codec.dec_many fuel (length ms) (NewDecoderSize scr sz) = Some (ms, d')
     \<and> dec_at fuel (ErrVar EOF) d' s"
proof -
  have "dec_at fuel (ErrVar EOF) (NewDecoderSize scr sz) (concat (map wire_multi ms) @ s)"
    using NewDecoder_at [of scr sz fuel] assms by simp
  then show ?thesis by (rule request_codec.pipelined [OF assms(1)])
qed

theorem requests_pipelined_witness:
  "\<exists>d'. request_codec.dec_many 60 (length [[NewBulkBytes (Some ''PING'')], [NewBulkBytes (Some ''x'')]])
      (NewDecoderSize [(''*1'' @ CRLF @ ''$4'' @ CRLF @ ''PI'', None), (''NG'' @ CRLF @ ''*1'' @ CRLF @ ''$1'', None), (CRLF @ ''x'' @ CRLF, None)] 16)
     = Some ([[NewBulkBytes (Some ''PING'')], [NewBulkBytes (Some ''x'')]], d') \<and> dec_at 60 (ErrVar EOF) d' []"
  by (rule requests_pipelined)
    (simp_all add: good_request_def is_bulk_list_def is_resp wire_multi_def NewBulkBytes_def wire.simps wire_bulk_def wf_resp.simps
      FormatInt_def nat_digits.simps MaxArrayLen_def MaxBulkBytesLen_def resp_types is_text_def)

text \<open>
  Unambiguous framing. Two requests whose encodings agree on a common stream are the same
  request: no request's encoding is a prefix of another's.
\<close>

theorem request_framing:
  assumes "good_request m" "good_request m'" "wire_multi m @ s = wire_multi m' @ s'"
  shows "m = m' \<and> s = s'"
proof -
  have "m = m'" by (rule request_codec.framing [of m m' s s' "Suc (Suc (length (wire_multi m @ s)))"]) (use assms in simp_all)
  then show ?thesis using assms(3) by simp
qed

theorem request_framing_witness:
  "good_request [NewBulkBytes (Some ''GET''), NewBulkBytes (Some ''k'')] \<and>
   [NewBulkBytes (Some ''GET''), NewBulkBytes (Some ''k'')] = [NewBulkBytes (Some ''GET''), NewBulkBytes (Some ''k'')] \<and>
   CRLF = CRLF"
proof -
  have g: "good_request [NewBulkBytes (Some ''GET''), NewBulkBytes (Some ''k'')]"
    by (simp add: good_request_def is_bulk_list_def is_resp NewBulkBytes_def wf_resp.simps MaxArrayLen_def MaxBulkBytesLen_def
        resp_types is_text_def)
  show ?thesis using g request_framing [OF g g refl, of CRLF] by (rule conjI)
qed

text \<open>
  C21. The decoder is total and its results are bounded. Over any connection, whatever reads and
  errors it delivers, \<open>Decode\<close> returns; a value it returns is well formed (five types, no line
  feed in a text, lengths within the limits), and an error makes every later call fail.
\<close>

theorem Decode_total:
  assumes "live (dbr d)" "Suc (weight (dbr d)) < fuel"
  shows "\<exists>res d'. Decode fuel d = Some (res, d') \<and> live (dbr d') \<and>
    (case res of Inr r \<Rightarrow> wf_resp r
     | Inl e \<Rightarrow> \<forall>fuel'. Decode fuel' d' = Some (Inl (Trace (ErrVar ErrFailedDecoder)), d'))"
proof (cases "dErr d")
  case (Some e)
  then show ?thesis using assms by (auto simp: Decode_failed)
next
  case None
  obtain res b' where r: "decodeResp fuel (dbr d) = Some (res, b')" "no_heavier b' (dbr d)"
    using decodeResp_settles [OF assms] by (auto simp: settles_def)
  show ?thesis
  proof (cases res)
    case (Inl e)
    then show ?thesis using r None no_heavier_live [OF r(2)] by (auto simp: Decode_def)
  next
    case (Inr x)
    then show ?thesis using r None no_heavier_live [OF r(2)] decodeResp_wf [OF _ assms] by (auto simp: Decode_def)
  qed
qed

theorem Decode_total_witness:
  "\<exists>res d'. Decode 50 (NewDecoderSize [(''+O'', None), ([], None)] 16) = Some (res, d') \<and> live (dbr d') \<and>
    (case res of Inr r \<Rightarrow> wf_resp r
     | Inl e \<Rightarrow> \<forall>fuel'. Decode fuel' d' = Some (Inl (Trace (ErrVar ErrFailedDecoder)), d'))"
  by (rule Decode_total)
    (simp_all add: NewDecoderSize_def NewDecoderBuffer_def NewReaderSize_def live_def rinv_def no_full_def weight_def window_def)

text \<open>
  C22. Requests are never empty. Over any connection \<open>DecodeMultiBulk\<close> returns, and a request it
  returns, inline or array, is a non-empty list of bulk strings, so that reading its command
  name cannot fail.
\<close>

theorem DecodeMultiBulk_total:
  assumes "live (dbr d)" "Suc (weight (dbr d)) < fuel"
  shows "\<exists>res d'. DecodeMultiBulk fuel d = Some (res, d') \<and> live (dbr d') \<and>
    (case res of Inr m \<Rightarrow> is_bulk_list m | Inl e \<Rightarrow> dErr d' \<noteq> None)"
proof (cases "dErr d")
  case (Some e)
  then show ?thesis using assms by (auto simp: DecodeMultiBulk_def)
next
  case None
  obtain res b' where r: "decodeMultiBulk fuel (dbr d) = Some (res, b')" "no_heavier b' (dbr d)"
    using decodeMultiBulk_settles [OF assms] by (auto simp: settles_def)
  show ?thesis
    using r None no_heavier_live [OF r(2)] decodeMultiBulk_bulk [of fuel "dbr d" _ b']
    by (cases res) (auto simp: DecodeMultiBulk_def)
qed

theorem DecodeMultiBulk_total_witness:
  "\<exists>res d'. DecodeMultiBulk 50 (NewDecoderSize [('' GET  k'' @ CRLF, None)] 16) = Some (res, d') \<and> live (dbr d') \<and>
    (case res of Inr m \<Rightarrow> is_bulk_list m | Inl e \<Rightarrow> dErr d' \<noteq> None)"
  by (rule DecodeMultiBulk_total)
    (simp_all add: NewDecoderSize_def NewDecoderBuffer_def NewReaderSize_def live_def rinv_def no_full_def weight_def window_def)

text \<open>
  C23. Nothing but encodings reaches the wire. Whatever short writes and errors the connection
  reports, encoding a reply returns, what the connection has taken is a prefix of the replies'
  encodings, a flushed reply without error is out in full, and an error is sticky.
\<close>

theorem Encode_safe:
  assumes "enc_at e w n" "encodable r"
  shows "\<exists>err e'. Encode r flush e = Some (err, e') \<and> enc_at e' (w @ wire r) n \<and> (\<exists>rest. w @ wire r = sink (bw e') @ rest)
    \<and> (err = None \<longrightarrow> flush \<longrightarrow> sink (bw e') = w @ wire r)
    \<and> (err \<noteq> None \<longrightarrow> (\<forall>r' fl. Encode r' fl e' = Some (Some (Trace (ErrVar ErrFailedEncoder)), e')))"
proof -
  obtain err e' where 1: "Encode r flush e = Some (err, e')" "enc_at e' (w @ wire r) n"
    "err = None \<longrightarrow> eErr e' = None \<and> (flush \<longrightarrow> sink (bw e') = w @ wire r)" "err \<noteq> None \<longrightarrow> eErr e' \<noteq> None"
    using Encode_at [OF assms, of flush] by blast
  have "err \<noteq> None \<longrightarrow> (\<forall>r' fl. Encode r' fl e' = Some (Some (Trace (ErrVar ErrFailedEncoder)), e'))"
    using 1(4) by (simp add: Encode_def encode_with_def)
  then show ?thesis using 1 enc_at_prefix [OF 1(2)] by blast
qed

theorem Encode_safe_witness:
  "\<exists>err e'. Encode (NewString ''PONG'') True (NewEncoderSize [(3, None)] 2) = Some (err, e') \<and> enc_at e' ([] @ wire (NewString ''PONG'')) 2
    \<and> (\<exists>rest. [] @ wire (NewString ''PONG'') = sink (bw e') @ rest)
    \<and> (err = None \<longrightarrow> True \<longrightarrow> sink (bw e') = [] @ wire (NewString ''PONG''))
    \<and> (err \<noteq> None \<longrightarrow> (\<forall>r' fl. Encode r' fl e' = Some (Some (Trace (ErrVar ErrFailedEncoder)), e')))"
proof (rule Encode_safe)
  show "enc_at (NewEncoderSize [(3, None)] 2) [] 2" using NewEncoder_at [of "[(3, None)]" 2] by simp
  show "encodable (NewString ''PONG'')" by (simp add: NewString_def encodable.simps)
qed

text \<open>
  Inline commands. A line that does not start with \<open>*\<close> is a request of its words: the
  pieces between spaces, empty pieces dropped, in order; a line without words is an error.
\<close>

theorem inline_request:
  assumes "reader_at b (v @ CRLF @ s) e n" "LF \<notin> set v" "length (v @ CRLF @ s) < fuel" "hd (v @ CRLF) \<noteq> TypeArray"
  shows "\<exists>b'. reader_at b' s e n \<and> decodeMultiBulk fuel b =
    (if inline_words v = [] then fail_with ErrBadMultiBulkLen b'
     else Some (Inr (map (\<lambda>w. NewBulkBytes (Some w)) (inline_words v)), b'))"
proof -
  obtain c t where ct: "v @ CRLF @ s = c # t" "c \<noteq> TypeArray" using assms(4) by (cases v) auto
  obtain b1 where b1: "PeekByte b = (Inr c, b1)" "reader_at b1 (v @ CRLF @ s) e n"
    using PeekByte_Cons [of b c t e n] assms(1) ct(1) by auto
  obtain b' where "decodeTextBytes fuel b1 = Some (Inr v, b')" "reader_at b' s e n"
    using decodeTextBytes_stream [OF b1(2) assms(2,3)] by blast
  then show ?thesis using b1(1) ct(2)
    by (auto simp: decodeMultiBulk_def decodeSingleLineMultiBulk_def splitLoop_inline)
qed

theorem inline_request_witness:
  "\<exists>b'. reader_at b' [] (ErrVar EOF) 16 \<and> decodeMultiBulk 20 (NewReaderSize [(''GET  k'' @ CRLF, None)] 16) =
    (if inline_words ''GET  k'' = [] then fail_with ErrBadMultiBulkLen b'
     else Some (Inr (map (\<lambda>w. NewBulkBytes (Some w)) (inline_words ''GET  k'')), b'))"
  by (rule inline_request [where s = "[]"])
    (simp_all add: reader_at_def NewReaderSize_def rinv_def window_def resp_types)

text \<open>
  C38. The hand-written integer parser of the hot path agrees with \<open>strconv.ParseInt\<close> on every
  input: same values, same errors, with the sign and length cases of its fast path.
\<close>

theorem Btoi64_is_ParseInt:
  "Btoi64 b = (case ParseInt b of Inl e \<Rightarrow> Inl (Trace (NumError b e)) | Inr n \<Rightarrow> Inr n)"
  by (rule Btoi64_ParseInt)

text \<open>
  The precomputed integer formatter agrees with \<open>strconv.FormatInt\<close> on every integer, inside
  its table from -128 to 32768 and outside, and the parser reads the text back.
\<close>

theorem itoa_is_FormatInt: "itoa i = FormatInt i \<and> (int64 i \<longrightarrow> Btoi64 (itoa i) = Inr i)"
  by simp

theorem itoa_is_FormatInt_witness: "itoa 32768 = FormatInt 32768 \<and> Btoi64 (itoa 32768) = Inr 32768"
  using itoa_is_FormatInt [of 32768] by (simp add: int64_def)

end
