(* ===== verification/Conn.thy ===== *)
theory Conn
  imports RespCodec
begin

section \<open>Connections\<close>

text \<open>
  Models \<open>pkg/proxy/redis/conn.go\<close>: a socket with a decoder and an encoder, deadlines that are
  renewed before each read and write, and the \<open>FlushEncoder\<close> a session answers through. The
  socket is the environment: for each read and write it says when it starts, what the call that
  sets the deadline returns, what is transferred, with what error, and when it ends.
\<close>

subsection \<open>Deadlines\<close>

text \<open>
  One direction of a connection: its timeout, the flag \<open>hasDeadline\<close>, and the deadline that the
  socket has. Times and durations are nanoseconds; the timeout 0 stands for none.
\<close>

record connSide =
  sideTimeout :: int
  hasDeadline :: bool
  deadline :: "int option"
  LastWrite :: int

definition new_side :: "int \<Rightarrow> connSide" where
  "new_side timeout = \<lparr>sideTimeout = timeout, hasDeadline = False, deadline = None, LastWrite = 0\<rparr>"

text \<open>The call before a transfer: \<open>SetReadDeadline\<close> or \<open>SetWriteDeadline\<close>, which may fail.\<close>

definition set_deadline :: "int \<Rightarrow> goerror option \<Rightarrow> connSide \<Rightarrow> goerror option \<times> connSide" where
  "set_deadline now dlerr s =
     (if sideTimeout s \<noteq> 0 then
        (case dlerr of
           Some e \<Rightarrow> (Some (Trace e), s)
         | None \<Rightarrow> (None, s\<lparr>deadline := Some (now + sideTimeout s), hasDeadline := True\<rparr>))
      else if hasDeadline s then
        (case dlerr of
           Some e \<Rightarrow> (Some (Trace e), s)
         | None \<Rightarrow> (None, s\<lparr>deadline := None, hasDeadline := False\<rparr>))
      else (None, s))"

text \<open>A socket read: start time, deadline error, data, error. A write has the end time as well.\<close>

type_synonym sockRead = "int \<times> goerror option \<times> bytes \<times> goerror option"
type_synonym sockWrite = "int \<times> goerror option \<times> nat \<times> goerror option \<times> int"

definition conn_read :: "sockRead \<Rightarrow> connSide \<Rightarrow> (bytes \<times> goerror option) \<times> connSide" where
  "conn_read ev s =
     (case ev of (now, dlerr, d, err) \<Rightarrow>
      case set_deadline now dlerr s of
        (Some e, s1) \<Rightarrow> (([], Some e), s1)
      | (None, s1) \<Rightarrow> ((d, TraceOpt err), s1))"

definition conn_write :: "sockWrite \<Rightarrow> connSide \<Rightarrow> (nat \<times> goerror option) \<times> connSide" where
  "conn_write ev s =
     (case ev of (now, dlerr, k, err, fin) \<Rightarrow>
      case set_deadline now dlerr s of
        (Some e, s1) \<Rightarrow> ((0, Some e), s1)
      | (None, s1) \<Rightarrow> ((k, TraceOpt err), s1\<lparr>LastWrite := fin\<rparr>))"

text \<open>What the buffered reader and writer above the connection get to see.\<close>

primrec read_script :: "sockRead list \<Rightarrow> connSide \<Rightarrow> script" where
  "read_script [] s = []"
| "read_script (ev # evs) s = (case conn_read ev s of (r, s1) \<Rightarrow> r # read_script evs s1)"

primrec write_script :: "sockWrite list \<Rightarrow> connSide \<Rightarrow> (nat \<times> goerror option) list" where
  "write_script [] s = []"
| "write_script (ev # evs) s = (case conn_write ev s of (r, s1) \<Rightarrow> r # write_script evs s1)"

text \<open>The new decoder and encoder; \<open>buf\<close> is the memory \<open>unsafe2.MakeSlice\<close> returns.\<close>

definition newConnDecoder :: "sockRead list \<Rightarrow> int \<Rightarrow> bytes \<Rightarrow> decoder" where
  "newConnDecoder evs timeout buf = NewDecoderBuffer (NewReaderBuffer (read_script evs (new_side timeout)) buf)"

definition newConnEncoder :: "sockWrite list \<Rightarrow> int \<Rightarrow> bytes \<Rightarrow> encoder" where
  "newConnEncoder evs timeout buf = NewEncoderBuffer (NewWriterBuffer (write_script evs (new_side timeout)) buf)"

text \<open>A connection: what its reader and writer make of the socket. The timeouts are those set on it.\<close>

record conn =
  cDecoder :: decoder
  cEncoder :: encoder

definition NewConn :: "sockRead list \<Rightarrow> sockWrite list \<Rightarrow> int \<Rightarrow> int \<Rightarrow> bytes \<Rightarrow> bytes \<Rightarrow> conn" where
  "NewConn evs wevs rtimeout wtimeout rb wb =
     \<lparr>cDecoder = newConnDecoder evs rtimeout rb, cEncoder = newConnEncoder wevs wtimeout wb\<rparr>"

definition DialTimeout :: "goerror option \<Rightarrow> sockRead list \<Rightarrow> sockWrite list \<Rightarrow> int \<Rightarrow> int \<Rightarrow> bytes \<Rightarrow> bytes \<Rightarrow> goerror + conn" where
  "DialTimeout dialErr evs wevs rtimeout wtimeout rb wb =
     (case dialErr of Some e \<Rightarrow> Inl (Trace e) | None \<Rightarrow> Inr (NewConn evs wevs rtimeout wtimeout rb wb))"

text \<open>The flag knows of every deadline the socket may still have.\<close>

definition side_inv :: "connSide \<Rightarrow> bool" where
  "side_inv s \<longleftrightarrow> (deadline s \<noteq> None \<longrightarrow> hasDeadline s)"

lemma new_side_inv [simp]: "side_inv (new_side t)"
  by (simp add: side_inv_def new_side_def)

text \<open>
  A transfer that is tried runs under exactly the deadline its timeout asks for, counted from
  its own start; a timeout changed to 0 clears the old deadline.
\<close>

lemma set_deadline_exact:
  assumes "side_inv s" "set_deadline now dlerr s = (None, s1)"
  shows "deadline s1 = (if sideTimeout s = 0 then None else Some (now + sideTimeout s))" "side_inv s1"
    "sideTimeout s1 = sideTimeout s"
  using assms by (auto simp: set_deadline_def side_inv_def split: if_splits option.splits)

lemma set_deadline_failed:
  assumes "set_deadline now dlerr s = (Some e, s1)"
  shows "s1 = s" "\<exists>c. e = TracedError c"
  using assms by (auto simp: set_deadline_def Trace_def split: if_splits option.splits goerror.splits)

subsection \<open>Socket options\<close>

text \<open>
  \<open>op_timeout\<close>: whether an error is a \<open>*net.OpError\<close> that reports a timeout.
\<close>

definition IsTimeout :: "(goerror \<Rightarrow> bool) \<Rightarrow> goerror option \<Rightarrow> bool" where
  "IsTimeout op_timeout err = (case CauseOpt err of None \<Rightarrow> False | Some e \<Rightarrow> op_timeout e)"

datatype sockCall = KeepAliveFlag bool | KeepAlivePeriod int | CloseReadCall | CloseCall

text \<open>Over anything but TCP nothing is set, and closing for reading closes altogether.\<close>

definition CloseReader :: "bool \<Rightarrow> sockCall" where
  "CloseReader tcp = (if tcp then CloseReadCall else CloseCall)"

definition SetKeepAlivePeriod :: "bool \<Rightarrow> goerror option \<Rightarrow> goerror option \<Rightarrow> int \<Rightarrow> goerror option \<times> sockCall list" where
  "SetKeepAlivePeriod tcp err1 err2 d =
     (if \<not> tcp then (None, [])
      else
        (case err1 of
           Some e \<Rightarrow> (Some (Trace e), [KeepAliveFlag (d \<noteq> 0)])
         | None \<Rightarrow>
             if d = 0 then (None, [KeepAliveFlag False])
             else (TraceOpt err2, [KeepAliveFlag True, KeepAlivePeriod d])))"

subsection \<open>FlushEncoder\<close>

text \<open>\<open>since\<close> is \<open>time.Since(LastWrite)\<close> at the moment of the call.\<close>

record flushEncoder =
  fenc :: encoder
  MaxInterval :: int
  MaxBuffered :: int
  nbuffered :: int

definition NewFlushEncoder :: "encoder \<Rightarrow> flushEncoder" where
  "NewFlushEncoder e = \<lparr>fenc = e, MaxInterval = 0, MaxBuffered = 0, nbuffered = 0\<rparr>"

definition NeedFlush :: "int \<Rightarrow> flushEncoder \<Rightarrow> bool" where
  "NeedFlush since p =
     (if nbuffered p \<noteq> 0 then (if MaxBuffered p < nbuffered p then True else MaxInterval p < since) else False)"

definition FEFlush :: "int \<Rightarrow> bool \<Rightarrow> flushEncoder \<Rightarrow> goerror option \<times> flushEncoder" where
  "FEFlush since force p =
     (if force \<or> NeedFlush since p then
        (case EncoderFlush (fenc p) of
           (Some e, en) \<Rightarrow> (Some e, p\<lparr>fenc := en\<rparr>)
         | (None, en) \<Rightarrow> (None, p\<lparr>fenc := en, nbuffered := 0\<rparr>))
      else (None, p))"

definition FEEncode :: "resp \<Rightarrow> flushEncoder \<Rightarrow> (goerror option \<times> flushEncoder) option" where
  "FEEncode r p =
     (case Encode r False (fenc p) of
        None \<Rightarrow> None
      | Some (Some e, en) \<Rightarrow> Some (Some e, p\<lparr>fenc := en\<rparr>)
      | Some (None, en) \<Rightarrow> Some (None, p\<lparr>fenc := en, nbuffered := nbuffered p + 1\<rparr>))"

definition FEEncodeMultiBulk :: "resp list option \<Rightarrow> flushEncoder \<Rightarrow> (goerror option \<times> flushEncoder) option" where
  "FEEncodeMultiBulk multi p =
     (case EncodeMultiBulk multi False (fenc p) of
        None \<Rightarrow> None
      | Some (Some e, en) \<Rightarrow> Some (Some e, p\<lparr>fenc := en\<rparr>)
      | Some (None, en) \<Rightarrow> Some (None, p\<lparr>fenc := en, nbuffered := nbuffered p + 1\<rparr>))"

subsection \<open>What has reached the socket stays there\<close>

definition grows :: "writer \<Rightarrow> writer \<Rightarrow> bool" where
  "grows b b' \<longleftrightarrow> (\<exists>x. sink b' = sink b @ x)"

lemma grows_refl [simp]: "grows b b"
  and grows_trans: "grows b b' \<Longrightarrow> grows b' b'' \<Longrightarrow> grows b b''"
  by (auto simp: grows_def)

lemma grows_fields [simp]: "grows b (b'\<lparr>werr := e\<rparr>) = grows b b'" "grows b (b'\<lparr>wrpos := k\<rparr>) = grows b b'"
  "grows b (b'\<lparr>wbuf := u\<rparr>) = grows b b'" "grows b (b'\<lparr>wbuf := u, wrpos := k\<rparr>) = grows b b'"
  by (simp_all add: grows_def)

lemma sink_write_grows: "sink_write p b = (n, e, b') \<Longrightarrow> grows b b'"
  by (auto simp: sink_write_def grows_def split: list.splits prod.splits)

lemma wflush_grows: "grows b (snd (wflush b))"
  using sink_write_grows [of "take (wrpos b) (wbuf b)" b]
  by (auto simp: wflush_def Let_def split: prod.split option.split)

lemma put_grows: "grows b (snd (put p b))"
  by (simp add: put_def Let_def)

lemma put_flush_grows: "put p b = (n, b1) \<Longrightarrow> grows b (snd (wflush b1))"
  using put_grows [of b p] wflush_grows [of b1] grows_trans by simp

lemma Write_loop_grows: "Write_loop nn p b = (nn', q, b') \<Longrightarrow> grows b b'"
proof (induction nn p b arbitrary: nn' q b' rule: Write_loop.induct)
  case (1 nn p b)
  show ?case
  proof (cases "werr b = None \<and> length p > available b")
    case False
    then show ?thesis using 1(3) Write_loop.simps [of nn p b] by auto
  next
    case more: True
    show ?thesis
    proof (cases "wrpos b = 0")
      case True
      obtain n e b1 where s: "sink_write p b = (n, e, b1)" by (metis surj_pair)
      then have "Write_loop (nn + n) (drop n p) (b1\<lparr>werr := e\<rparr>) = (nn', q, b')"
        using 1(3) Write_loop.simps [of nn p b] more True by (simp add: Let_def)
      from 1(1) [OF more True s [symmetric] _ _ _ this] s sink_write_grows [OF s] show ?thesis
        using grows_trans [of b "b1\<lparr>werr := e\<rparr>" b'] by simp
    next
      case False
      obtain n b1 where s: "put p b = (n, b1)" by (metis surj_pair)
      then have "Write_loop (nn + n) (drop n p) (snd (wflush b1)) = (nn', q, b')"
        using 1(3) Write_loop.simps [of nn p b] more False by (simp add: Let_def)
      from 1(2) [OF more False s [symmetric] _ _ this] show ?thesis
        using put_flush_grows [OF s] grows_trans by blast
    qed
  qed
qed


lemma Write_grows: "Write p b = (r, b') \<Longrightarrow> grows b b'"
proof -
  assume w: "Write p b = (r, b')"
  obtain n q b1 where l: "Write_loop 0 p b = (n, q, b1)" by (metis surj_pair)
  then show ?thesis using w Write_loop_grows [OF l] put_grows [of b1 q] grows_trans
    by (auto simp: Write_def Let_def split: if_splits prod.splits)
qed

lemma WriteByte_grows: "WriteByte c b = (r, b') \<Longrightarrow> grows b b'"
  using wflush_grows [of b] by (auto simp: WriteByte_def Let_def split: if_splits option.splits prod.splits)

lemma WriteString_loop_grows:
  assumes "WriteString_loop nn s b = Some y"
  shows "grows b (snd (snd y))"
proof (rule WriteString_loop.raw_induct [where P = "\<lambda>nn s b y. grows b (snd (snd y))", OF _ assms])
  fix f :: "nat \<Rightarrow> string \<Rightarrow> writer \<Rightarrow> (nat \<times> string \<times> writer) option" and nn s b y
  assume ih: "\<And>nn s b y. f nn s b = Some y \<Longrightarrow> grows b (snd (snd y))"
    and step: "(if werr b = None \<and> available b < length s
      then (let (n, b1) = put s b; b2 = snd (wflush b1) in f (nn + n) (drop n s) b2) else Some (nn, s, b)) = Some y"
  show "grows b (snd (snd y))"
  proof (cases "werr b = None \<and> length s > available b")
    case True
    obtain n b1 where p: "put s b = (n, b1)" by (metis surj_pair)
    then have "f (nn + n) (drop n s) (snd (wflush b1)) = Some y" using step True by (simp add: Let_def)
    from ih [OF this] show ?thesis using put_flush_grows [OF p] grows_trans by blast
  next
    case False
    then show ?thesis using step by auto
  qed
qed

lemma WriteString_grows: "WriteString s b = Some (r, b') \<Longrightarrow> grows b b'"
proof -
  assume w: "WriteString s b = Some (r, b')"
  then obtain n q b1 where l: "WriteString_loop 0 s b = Some (n, q, b1)"
    by (auto simp: WriteString_def split: option.splits)
  then show ?thesis using w WriteString_loop_grows [OF l] put_grows [of b1 q] grows_trans [of b b1]
    by (auto simp: WriteString_def Let_def split: if_splits prod.splits)
qed

definition enc_grows :: "encoding \<Rightarrow> writer \<Rightarrow> bool" where
  "enc_grows m b \<longleftrightarrow> (\<forall>err b'. m = Some (err, b') \<longrightarrow> grows b b')"

lemma enc_grows_none [simp]: "enc_grows (Some (err, b)) b"
  by (simp add: enc_grows_def)

lemma enc_grows_then:
  assumes "enc_grows m b" "\<And>b'. enc_grows (f b') b'"
  shows "enc_grows (then_do m f) b"
  using assms grows_trans unfolding enc_grows_def then_do_def
  by (fastforce split: option.splits prod.splits)

lemma enc_grows_steps:
  "enc_grows (wtraced (no_count (Some (Write p b)))) b" "enc_grows (wtraced (no_count (WriteString p b))) b"
  "enc_grows (wtraced (Some (WriteByte c b))) b"
  using Write_grows WriteString_grows WriteByte_grows
  by (fastforce simp: enc_grows_def wtraced_def no_count_def split: option.splits prod.splits)+

lemma enc_grows_parts: "enc_grows (encodeTextBytes p b) b" "enc_grows (encodeInt v b) b" "enc_grows (encodeBulkBytes q b) b"
proof -
  show t: "enc_grows (encodeTextBytes p b) b" for p b
    unfolding encodeTextBytes_def by (intro enc_grows_then enc_grows_steps enc_grows_none)
  show i: "enc_grows (encodeInt v b) b" for v b
    unfolding encodeInt_def encodeTextString_def by (intro enc_grows_then enc_grows_steps enc_grows_none)
  show "enc_grows (encodeBulkBytes q b) b"
    unfolding encodeBulkBytes_def by (cases q) (auto intro: enc_grows_then t i)
qed

lemma encodeResp_grows: "enc_grows (encodeResp r b) b" "enc_grows (encodeItems rs b) b"
proof (induction r b and rs b rule: encodeResp_encodeItems.induct)
  case (1 t v a b)
  have "enc_grows (encodeItems rs b') b'" if "a = Some rs" "t = TypeArray" for rs b'
    using 1 that by auto
  then show ?case
    unfolding encodeResp.simps
    by (intro enc_grows_then enc_grows_steps) (auto intro: enc_grows_then enc_grows_parts split: option.split)
next
  case (2 b)
  then show ?case by simp
next
  case (3 r rs b)
  then show ?case by (auto intro!: enc_grows_then)
qed

lemma Encode_grows: "Encode r fl e = Some (err, e') \<Longrightarrow> grows (bw e) (bw e')"
proof -
  assume a: "Encode r fl e = Some (err, e')"
  show ?thesis
  proof (cases "encodeResp r (bw e)")
    case None
    then show ?thesis using a by (auto simp: Encode_def encode_with_def split: if_splits)
  next
    case (Some x)
    then have g: "grows (bw e) (snd x)" using encodeResp_grows(1) [of r "bw e"] by (cases x) (simp add: enc_grows_def)
    show ?thesis using a Some g grows_trans [OF g wflush_grows]
      by (cases x) (auto simp: Encode_def encode_with_def WFlush_def split: if_splits option.splits prod.splits)
  qed
qed

lemma EncoderFlush_grows: "EncoderFlush e = (err, e') \<Longrightarrow> grows (bw e) (bw e')"
  using wflush_grows [of "bw e"] by (auto simp: EncoderFlush_def WFlush_def split: if_splits option.splits prod.splits)


subsection \<open>Which replies are still held back\<close>

definition wires :: "resp list \<Rightarrow> bytes" where
  "wires rs = concat (map wire rs)"

lemma wires_simps [simp]: "wires [] = []" "wires (rs @ qs) = wires rs @ wires qs" "wires [r] = wire r"
  by (simp_all add: wires_def)

text \<open>
  \<open>fe_at p rs n\<close>: the encoder was handed the replies \<open>rs\<close> without an error, and all of them but
  the last \<open>nbuffered\<close> ones are on the socket.
\<close>

definition fe_at :: "flushEncoder \<Rightarrow> resp list \<Rightarrow> nat \<Rightarrow> bool" where
  "fe_at p rs n \<longleftrightarrow> enc_at (fenc p) (wires rs) n \<and> eErr (fenc p) = None \<and> 0 \<le> nbuffered p \<and>
     (\<exists>out held. rs = out @ held \<and> length held = nat (nbuffered p) \<and> (\<exists>x. sink (bw (fenc p)) = wires out @ x))"

lemma EncoderFlush_at:
  assumes "enc_at e w n"
  shows "\<exists>err e'. EncoderFlush e = (err, e') \<and> enc_at e' w n \<and>
    (err = None \<longrightarrow> eErr e' = None \<and> sink (bw e') = w) \<and> (err \<noteq> None \<longrightarrow> eErr e' \<noteq> None)"
proof (cases "eErr e")
  case (Some x)
  then show ?thesis using assms by (simp add: EncoderFlush_def)
next
  case None
  then have "sent (bw e) w n" "werr (bw e) = None" using assms by (simp_all add: enc_at_def)
  then obtain er b where f: "wflush (bw e) = (er, b)" "er = werr b" "sent b w n" "er = None \<longrightarrow> wrpos b = 0 \<and> sink b = w"
    using wflush_sent [of "bw e" w n] by auto
  then show ?thesis using None by (cases "werr b") (auto simp: EncoderFlush_def WFlush_def enc_at_def)
qed

lemma FEEncode_at:
  assumes "fe_at p rs n" "encodable r"
  shows "\<exists>err p'. FEEncode r p = Some (err, p') \<and> enc_at (fenc p') (wires (rs @ [r])) n \<and>
    (err = None \<longrightarrow> fe_at p' (rs @ [r]) n \<and> nbuffered p' = nbuffered p + 1) \<and>
    MaxBuffered p' = MaxBuffered p \<and> MaxInterval p' = MaxInterval p"
proof -
  have p: "enc_at (fenc p) (wires rs) n" "0 \<le> nbuffered p" using assms(1) by (simp_all add: fe_at_def)
  obtain out held x where o: "rs = out @ held" "length held = nat (nbuffered p)" "sink (bw (fenc p)) = wires out @ x"
    using assms(1) by (auto simp: fe_at_def)
  obtain err e' where e: "Encode r False (fenc p) = Some (err, e')" "enc_at e' (wires rs @ wire r) n"
    "err = None \<longrightarrow> eErr e' = None"
    using Encode_at [OF p(1) assms(2), of False] by blast
  obtain y where g: "sink (bw e') = wires out @ x @ y" using Encode_grows [OF e(1)] o(3) by (auto simp: grows_def)
  show ?thesis
  proof (cases err)
    case None
    have "fe_at (p\<lparr>fenc := e', nbuffered := nbuffered p + 1\<rparr>) (rs @ [r]) n"
      unfolding fe_at_def using e None p(2) o g
      by (intro conjI exI [of _ out] exI [of _ "held @ [r]"]) auto
    then show ?thesis using e None by (simp add: FEEncode_def)
  next
    case (Some z)
    then show ?thesis using e by (simp add: FEEncode_def)
  qed
qed

lemma FEFlush_at:
  assumes "fe_at p rs n"
  shows "\<exists>err p'. FEFlush since force p = (err, p') \<and> enc_at (fenc p') (wires rs) n \<and>
    (err = None \<longrightarrow> fe_at p' rs n \<and> (force \<or> MaxInterval p < since \<longrightarrow> sink (bw (fenc p')) = wires rs \<or> nbuffered p = 0 \<and> \<not> force) \<and>
       (0 \<le> MaxBuffered p \<longrightarrow> nbuffered p' \<le> MaxBuffered p)) \<and>
    MaxBuffered p' = MaxBuffered p \<and> MaxInterval p' = MaxInterval p"
proof (cases "force \<or> NeedFlush since p")
  case True
  have p: "enc_at (fenc p) (wires rs) n" using assms by (simp add: fe_at_def)
  obtain err e' where e: "EncoderFlush (fenc p) = (err, e')" "enc_at e' (wires rs) n"
    "err = None \<longrightarrow> eErr e' = None \<and> sink (bw e') = wires rs"
    using EncoderFlush_at [OF p] by blast
  show ?thesis
  proof (cases err)
    case None
    then have "fe_at (p\<lparr>fenc := e', nbuffered := 0\<rparr>) rs n"
      unfolding fe_at_def using e by (auto intro!: exI [of _ rs] exI [of _ "[]"])
    then show ?thesis using e None True by (simp add: FEFlush_def)
  next
    case (Some z)
    then show ?thesis using e True by (simp add: FEFlush_def)
  qed
next
  case False
  then show ?thesis using assms by (auto simp: FEFlush_def NeedFlush_def fe_at_def split: if_splits)
qed

text \<open>
  C37. Replies are not held back. Encoding one more reply and flushing without an error leaves at
  most \<open>MaxBuffered\<close> replies, the last ones, away from the socket, whatever short writes it did
  on the way; none at all if the flush is forced or the last write is longer ago than
  \<open>MaxInterval\<close>.
\<close>

theorem replies_not_held:
  assumes "fe_at p rs n" "encodable r" "0 \<le> MaxBuffered p"
    "FEEncode r p = Some (None, p1)" "FEFlush since force p1 = (None, p2)"
  shows "\<exists>out held x. rs @ [r] = out @ held \<and> sink (bw (fenc p2)) = wires out @ x \<and> int (length held) \<le> MaxBuffered p \<and>
    (force \<or> MaxInterval p < since \<longrightarrow> sink (bw (fenc p2)) = wires (rs @ [r]))"
proof -
  have 1: "fe_at p1 (rs @ [r]) n" "nbuffered p1 = nbuffered p + 1" "MaxBuffered p1 = MaxBuffered p" "MaxInterval p1 = MaxInterval p"
    using FEEncode_at [OF assms(1,2)] assms(4) by auto
  have 2: "fe_at p2 (rs @ [r]) n" "nbuffered p2 \<le> MaxBuffered p"
    "force \<or> MaxInterval p < since \<longrightarrow> sink (bw (fenc p2)) = wires (rs @ [r]) \<or> nbuffered p1 = 0"
    using FEFlush_at [OF 1(1), of since force] assms(3,5) 1(3,4) by auto
  have "nbuffered p1 \<noteq> 0" using 1(2) assms(1) by (simp add: fe_at_def)
  moreover obtain out held x where "rs @ [r] = out @ held" "length held = nat (nbuffered p2)" "sink (bw (fenc p2)) = wires out @ x"
    using 2(1) unfolding fe_at_def by blast
  moreover have "0 \<le> nbuffered p2" using 2(1) by (simp add: fe_at_def)
  ultimately show ?thesis using 2(2,3) by (intro exI [of _ out] exI [of _ held] exI [of _ x]) auto
qed

definition small_fe :: flushEncoder where
  "small_fe = (NewFlushEncoder (NewEncoderSize [] 4))\<lparr>MaxInterval := 1000000, MaxBuffered := 2\<rparr>"

theorem replies_not_held_witness:
  "\<exists>p1 p2. FEEncode (NewString ''PONG'') small_fe = Some (None, p1) \<and> FEFlush 0 True p1 = (None, p2) \<and>
     sink (bw (fenc p2)) = wires ([] @ [NewString ''PONG''])"
proof -
  let ?p = small_fe
  have at: "fe_at ?p [] 4"
    using NewEncoder_at [of "[]" 4]
    by (simp add: fe_at_def small_fe_def NewFlushEncoder_def NewEncoderSize_def NewEncoderBuffer_def)
  have enc: "encodable (NewString ''PONG'')" by (simp add: NewString_def encodable.simps)
  have wt: "writes_to (bw (fenc ?p)) [] 4"
    using writes_to_new [of 4] by (simp add: small_fe_def NewFlushEncoder_def NewEncoderSize_def NewEncoderBuffer_def)
  obtain b1 w1 where b1: "encodeResp (NewString ''PONG'') (bw (fenc ?p)) = Some (None, b1)" "writes_to b1 w1 4"
    using wt by (rule quietE [OF encodeResp_quiet(1) [OF enc]])
  let ?p1 = "?p\<lparr>fenc := (fenc ?p)\<lparr>bw := b1\<rparr>, nbuffered := 1\<rparr>"
  have 1: "FEEncode (NewString ''PONG'') ?p = Some (None, ?p1)"
    using b1(1) by (simp add: FEEncode_def Encode_def encode_with_def small_fe_def NewFlushEncoder_def NewEncoderSize_def NewEncoderBuffer_def)
  obtain b2 where b2: "WFlush b1 = (None, b2)" using WFlush_ok [OF b1(2)] by blast
  let ?p2 = "?p1\<lparr>fenc := (fenc ?p1)\<lparr>bw := b2\<rparr>, nbuffered := 0\<rparr>"
  have 2: "FEFlush 0 True ?p1 = (None, ?p2)"
    using b2 by (simp add: FEFlush_def EncoderFlush_def small_fe_def NewFlushEncoder_def NewEncoderSize_def NewEncoderBuffer_def)
  have "sink (bw (fenc ?p2)) = wires ([] @ [NewString ''PONG''])"
    using replies_not_held [OF at enc _ 1 2] by (auto simp: small_fe_def NewFlushEncoder_def)
  then show ?thesis using 1 2 by blast
qed


text \<open>Over a socket that takes everything no error comes up.\<close>

definition fe_quiet :: "flushEncoder \<Rightarrow> nat \<Rightarrow> bool" where
  "fe_quiet p n \<longleftrightarrow> (\<exists>w. writes_to (bw (fenc p)) w n) \<and> eErr (fenc p) = None"

lemma FEEncode_quiet:
  assumes "fe_quiet p n" "encodable r"
  shows "\<exists>p'. FEEncode r p = Some (None, p') \<and> fe_quiet p' n"
proof -
  obtain w where w: "writes_to (bw (fenc p)) w n" "eErr (fenc p) = None" using assms(1) by (auto simp: fe_quiet_def)
  obtain b' w' where "encodeResp r (bw (fenc p)) = Some (None, b')" "writes_to b' w' n"
    using w(1) by (rule quietE [OF encodeResp_quiet(1) [OF assms(2)]])
  then show ?thesis using w(2) by (auto simp: FEEncode_def Encode_def encode_with_def fe_quiet_def)
qed

lemma FEFlush_quiet:
  assumes "fe_quiet p n"
  shows "\<exists>p'. FEFlush t fl p = (None, p') \<and> fe_quiet p' n"
proof -
  obtain w where w: "writes_to (bw (fenc p)) w n" "eErr (fenc p) = None" using assms(1) by (auto simp: fe_quiet_def)
  obtain b' where "WFlush (bw (fenc p)) = (None, b')" "writes_to b' w n" using WFlush_ok [OF w(1)] by blast
  then show ?thesis using w assms by (auto simp: FEFlush_def EncoderFlush_def fe_quiet_def)
qed

end
