(* ===== verification/Mapper.thy ===== *)
theory Mapper
  imports Resp "HOL-Library.List_Lexorder"
begin

unbundle bit_operations_syntax

section \<open>The command table\<close>

text \<open>
  Models \<open>pkg/proxy/mapper.go\<close>: the table of commands with their flags, the lookup of a
  request's command, and the hash of a key. \<open>strings.ToUpper\<close> is modelled on ASCII text; what it
  does to a text with other bytes (the Unicode tables of the Go library) is the parameter \<open>uni\<close>.
\<close>

subsection \<open>Flags\<close>

definition FlagWrite :: "32 word" where "FlagWrite = push_bit 0 1"
definition FlagMasterOnly :: "32 word" where "FlagMasterOnly = push_bit 1 1"
definition FlagMayWrite :: "32 word" where "FlagMayWrite = push_bit 2 1"
definition FlagNotAllow :: "32 word" where "FlagNotAllow = push_bit 3 1"

lemmas op_flags = FlagWrite_def FlagMasterOnly_def FlagMayWrite_def FlagNotAllow_def

definition IsNotAllowed :: "32 word \<Rightarrow> bool" where
  "IsNotAllowed f = (f AND FlagNotAllow \<noteq> 0)"

definition IsReadOnly :: "32 word \<Rightarrow> bool" where
  "IsReadOnly f = (f AND (FlagWrite OR FlagMayWrite) = 0)"

definition IsMasterOnly :: "32 word \<Rightarrow> bool" where
  "IsMasterOnly f = (f AND (FlagWrite OR FlagMayWrite OR FlagMasterOnly) \<noteq> 0)"

lemmas op_flag_tests = IsNotAllowed_def IsReadOnly_def IsMasterOnly_def

subsection \<open>Upper case\<close>

text \<open>\<open>init\<close> fills \<open>charmap\<close>: a letter maps to its upper case, any other byte to zero.\<close>

definition charmap :: "byte list" where
  "charmap = map (\<lambda>i. if 65 \<le> i \<and> i \<le> 90 then char_of i
                      else if 97 \<le> i \<and> i \<le> 122 then char_of (i - 97 + 65)
                      else char_of (0::nat)) [0..<256]"

definition ascii_upper :: "byte \<Rightarrow> byte" where
  "ascii_upper c =
     (if 97 \<le> (of_char c :: nat) \<and> (of_char c :: nat) \<le> 122 then char_of ((of_char c :: nat) - 32) else c)"

definition is_ascii :: "string \<Rightarrow> bool" where
  "is_ascii s = list_all (\<lambda>c. (of_char c :: nat) < 128) s"

definition to_upper :: "(string \<Rightarrow> string) \<Rightarrow> string \<Rightarrow> string" where
  "to_upper uni s = (if is_ascii s then map ascii_upper s else uni s)"

definition is_letter :: "byte \<Rightarrow> bool" where
  "is_letter c \<longleftrightarrow> (65 \<le> (of_char c :: nat) \<and> (of_char c :: nat) \<le> 90) \<or> (97 \<le> (of_char c :: nat) \<and> (of_char c :: nat) \<le> 122)"

lemma of_char_lt_256: "(of_char c :: nat) < 256"
  using of_char_mod_256 [of c, where ?'a = nat] mod_less_divisor [of 256 "of_char c :: nat"] by simp

lemma charmap_at:
  "charmap ! of_char c = (if is_letter c then ascii_upper c else char_of (0::nat))"
  using of_char_lt_256 [of c] by (auto simp: charmap_def is_letter_def ascii_upper_def)

lemma ascii_upper_letter: "is_letter c \<Longrightarrow> ascii_upper c \<noteq> char_of (0::nat)"
proof
  assume "is_letter c" "ascii_upper c = char_of (0::nat)"
  then have "(of_char (ascii_upper c) :: nat) = 0" by simp
  moreover have "(of_char (ascii_upper c) :: nat) \<ge> 65"
    using \<open>is_letter c\<close> by (auto simp: is_letter_def ascii_upper_def)
  ultimately show False by simp
qed

subsection \<open>The table\<close>

definition opEntries1 :: "(string \<times> 32 word) list" where
  "opEntries1 = [
     (''APPEND'', FlagWrite), (''ASKING'', FlagNotAllow), (''AUTH'', 0), (''BGREWRITEAOF'', FlagNotAllow),
     (''BGSAVE'', FlagNotAllow), (''BITCOUNT'', 0), (''BITFIELD'', FlagWrite),
     (''BITOP'', FlagWrite OR FlagNotAllow), (''BITPOS'', 0), (''BLPOP'', FlagWrite OR FlagNotAllow),
     (''BRPOP'', FlagWrite OR FlagNotAllow), (''BRPOPLPUSH'', FlagWrite OR FlagNotAllow),
     (''CLIENT'', FlagNotAllow), (''CLUSTER'', FlagNotAllow), (''COMMAND'', 0),
     (''CONFIG'', FlagNotAllow), (''DBSIZE'', FlagNotAllow), (''DEBUG'', FlagNotAllow),
     (''DECR'', FlagWrite), (''DECRBY'', FlagWrite), (''DEL'', FlagWrite), (''DISCARD'', FlagNotAllow),
     (''DUMP'', 0), (''ECHO'', 0), (''EVAL'', FlagWrite), (''EVALSHA'', FlagWrite),
     (''EXEC'', FlagNotAllow), (''EXISTS'', 0), (''EXPIRE'', FlagWrite), (''EXPIREAT'', FlagWrite),
     (''FLUSHALL'', FlagWrite OR FlagNotAllow), (''FLUSHDB'', FlagWrite OR FlagNotAllow),
     (''GEOADD'', FlagWrite), (''GEODIST'', 0), (''GEOHASH'', 0), (''GEOPOS'', 0),
     (''GEORADIUS'', FlagWrite), (''GEORADIUSBYMEMBER'', FlagWrite), (''GET'', 0), (''GETBIT'', 0),
     (''GETRANGE'', 0), (''GETSET'', FlagWrite), (''HDEL'', FlagWrite), (''HEXISTS'', 0), (''HGET'', 0),
     (''HGETALL'', 0), (''HINCRBY'', FlagWrite), (''HINCRBYFLOAT'', FlagWrite)]"

definition opEntries2 :: "(string \<times> 32 word) list" where
  "opEntries2 = [
     (''HKEYS'', 0), (''HLEN'', 0), (''HMGET'', 0), (''HMSET'', FlagWrite), (''HSCAN'', FlagMasterOnly),
     (''HSET'', FlagWrite), (''HSETNX'', FlagWrite), (''HSTRLEN'', 0), (''HVALS'', 0),
     (''INCR'', FlagWrite), (''INCRBY'', FlagWrite), (''INCRBYFLOAT'', FlagWrite), (''INFO'', 0),
     (''KEYS'', 0), (''LASTSAVE'', FlagNotAllow), (''LATENCY'', FlagNotAllow), (''LINDEX'', 0),
     (''LINSERT'', FlagWrite), (''LLEN'', 0), (''LPOP'', FlagWrite), (''LPUSH'', FlagWrite),
     (''LPUSHX'', FlagWrite), (''LRANGE'', 0), (''LREM'', FlagWrite), (''LSET'', FlagWrite),
     (''LTRIM'', FlagWrite), (''MGET'', 0), (''MIGRATE'', FlagWrite OR FlagNotAllow),
     (''MONITOR'', FlagNotAllow), (''MOVE'', FlagWrite OR FlagNotAllow), (''MSET'', FlagWrite),
     (''MSETNX'', FlagWrite OR FlagNotAllow), (''MULTI'', FlagNotAllow), (''OBJECT'', FlagNotAllow),
     (''PERSIST'', FlagWrite), (''PEXPIRE'', FlagWrite), (''PEXPIREAT'', FlagWrite),
     (''PFADD'', FlagWrite), (''PFCOUNT'', 0), (''PFDEBUG'', FlagWrite), (''PFMERGE'', FlagWrite),
     (''PFSELFTEST'', 0), (''PING'', 0), (''PSETEX'', FlagWrite), (''PSUBSCRIBE'', FlagNotAllow),
     (''PSYNC'', FlagNotAllow), (''PTTL'', 0), (''PUBLISH'', FlagNotAllow), (''PUBSUB'', 0)]"

definition opEntries3 :: "(string \<times> 32 word) list" where
  "opEntries3 = [
     (''PUNSUBSCRIBE'', FlagNotAllow), (''QUIT'', 0), (''RANDOMKEY'', FlagNotAllow),
     (''READONLY'', FlagNotAllow), (''READWRITE'', FlagNotAllow), (''RENAME'', FlagWrite OR FlagNotAllow),
     (''RENAMENX'', FlagWrite OR FlagNotAllow), (''REPLCONF'', FlagNotAllow),
     (''RESTORE'', FlagWrite OR FlagNotAllow), (''RESTORE-ASKING'', FlagWrite OR FlagNotAllow),
     (''ROLE'', 0), (''RPOP'', FlagWrite), (''RPOPLPUSH'', FlagWrite), (''RPUSH'', FlagWrite),
     (''RPUSHX'', FlagWrite), (''SADD'', FlagWrite), (''SAVE'', FlagNotAllow),
     (''SCAN'', FlagMasterOnly OR FlagNotAllow), (''SCARD'', 0), (''SCRIPT'', FlagNotAllow),
     (''SDIFF'', 0), (''SDIFFSTORE'', FlagWrite), (''SELECT'', 0), (''SET'', FlagWrite),
     (''SETBIT'', FlagWrite), (''SETEX'', FlagWrite), (''SETNX'', FlagWrite), (''SETRANGE'', FlagWrite),
     (''SHUTDOWN'', FlagNotAllow), (''SINTER'', 0), (''SINTERSTORE'', FlagWrite), (''SISMEMBER'', 0),
     (''SLAVEOF'', FlagNotAllow), (''SLOTSCHECK'', FlagNotAllow),
     (''SLOTSDEL'', FlagWrite OR FlagNotAllow), (''SLOTSHASHKEY'', 0), (''SLOTSINFO'', FlagMasterOnly),
     (''SLOTSMAPPING'', 0), (''SLOTSMGRTONE'', FlagWrite OR FlagNotAllow),
     (''SLOTSMGRTSLOT'', FlagWrite OR FlagNotAllow), (''SLOTSMGRTTAGONE'', FlagWrite OR FlagNotAllow),
     (''SLOTSMGRTTAGSLOT'', FlagWrite OR FlagNotAllow), (''SLOTSRESTORE'', FlagWrite),
     (''SLOTSMGRTONE-ASYNC'', FlagWrite OR FlagNotAllow),
     (''SLOTSMGRTSLOT-ASYNC'', FlagWrite OR FlagNotAllow),
     (''SLOTSMGRTTAGONE-ASYNC'', FlagWrite OR FlagNotAllow),
     (''SLOTSMGRTTAGSLOT-ASYNC'', FlagWrite OR FlagNotAllow), (''SLOTSMGRT-ASYNC-FENCE'', FlagNotAllow),
     (''SLOTSMGRT-ASYNC-CANCEL'', FlagNotAllow)]"

definition opEntries4 :: "(string \<times> 32 word) list" where
  "opEntries4 = [
     (''SLOTSMGRT-ASYNC-STATUS'', FlagNotAllow), (''SLOTSMGRT-EXEC-WRAPPER'', FlagWrite OR FlagNotAllow),
     (''SLOTSRESTORE-ASYNC'', FlagWrite OR FlagNotAllow),
     (''SLOTSRESTORE-ASYNC-AUTH'', FlagWrite OR FlagNotAllow),
     (''SLOTSRESTORE-ASYNC-ACK'', FlagWrite OR FlagNotAllow), (''SLOTSSCAN'', FlagMasterOnly),
     (''SLOWLOG'', FlagNotAllow), (''SMEMBERS'', 0), (''SMOVE'', FlagWrite), (''SORT'', FlagWrite),
     (''SPOP'', FlagWrite), (''SRANDMEMBER'', 0), (''SREM'', FlagWrite), (''SSCAN'', FlagMasterOnly),
     (''STRLEN'', 0), (''SUBSCRIBE'', FlagNotAllow), (''SUBSTR'', 0), (''SUNION'', 0),
     (''SUNIONSTORE'', FlagWrite), (''SYNC'', FlagNotAllow), (''TIME'', FlagNotAllow),
     (''TOUCH'', FlagWrite), (''TTL'', 0), (''TYPE'', 0), (''UNSUBSCRIBE'', FlagNotAllow),
     (''UNWATCH'', FlagNotAllow), (''WAIT'', FlagNotAllow), (''WATCH'', FlagNotAllow),
     (''ZADD'', FlagWrite), (''ZCARD'', 0), (''ZCOUNT'', 0), (''ZINCRBY'', FlagWrite),
     (''ZINTERSTORE'', FlagWrite), (''ZLEXCOUNT'', 0), (''ZRANGE'', 0), (''ZRANGEBYLEX'', 0),
     (''ZRANGEBYSCORE'', 0), (''ZRANK'', 0), (''ZREM'', FlagWrite), (''ZREMRANGEBYLEX'', FlagWrite),
     (''ZREMRANGEBYRANK'', FlagWrite), (''ZREMRANGEBYSCORE'', FlagWrite), (''ZREVRANGE'', 0),
     (''ZREVRANGEBYLEX'', 0), (''ZREVRANGEBYSCORE'', 0), (''ZREVRANK'', 0), (''ZSCAN'', FlagMasterOnly),
     (''ZSCORE'', 0), (''ZUNIONSTORE'', FlagWrite)]"

definition opEntries :: "(string \<times> 32 word) list" where
  "opEntries = opEntries1 @ opEntries2 @ opEntries3 @ opEntries4"

text \<open>\<open>opTable[i.Name] = i\<close> for every entry in turn, so that the last entry of a name counts.\<close>

primrec fill_table :: "(string \<times> 32 word) list \<Rightarrow> (string \<rightharpoonup> string \<times> 32 word) \<Rightarrow> (string \<rightharpoonup> string \<times> 32 word)" where
  "fill_table [] m = m"
| "fill_table (i # is) m = fill_table is (m(fst i \<mapsto> i))"

definition opTable :: "string \<rightharpoonup> string \<times> 32 word" where
  "opTable = fill_table opEntries Map.empty"

lemma fill_table_other: "k \<notin> fst ` set is \<Longrightarrow> fill_table is m k = m k"
  by (induction "is" arbitrary: m) auto

lemma fill_table_entry:
  "distinct (map fst is) \<Longrightarrow> (k, f) \<in> set is \<Longrightarrow> fill_table is m k = Some (k, f)"
proof (induction "is" arbitrary: m)
  case Nil
  then show ?case by simp
next
  case (Cons i "is")
  show ?case
  proof (cases "i = (k, f)")
    case True
    then have "k \<notin> fst ` set is" using Cons.prems(1) by auto
    then show ?thesis using True by (simp add: fill_table_other)
  next
    case False
    then show ?thesis using Cons by simp
  qed
qed

lemmas op_entries = opEntries_def opEntries1_def opEntries2_def opEntries3_def opEntries4_def

text \<open>
  No name occurs twice. The names are almost in order, so an insertion sort that fails on a
  repeated element checks it in a few steps per name.
\<close>

primrec ins_new :: "'a :: linorder \<Rightarrow> 'a list \<Rightarrow> 'a list option" where
  "ins_new x [] = Some [x]"
| "ins_new x (y # ys) =
     (if x < y then Some (x # y # ys) else if x = y then None else map_option ((#) y) (ins_new x ys))"

primrec sort_new :: "'a :: linorder list \<Rightarrow> 'a list option" where
  "sort_new [] = Some []"
| "sort_new (x # xs) = (case sort_new xs of None \<Rightarrow> None | Some ys \<Rightarrow> ins_new x ys)"

lemma ins_new_spec:
  "ins_new x ys = Some zs \<Longrightarrow> sorted_wrt (<) ys \<Longrightarrow> sorted_wrt (<) zs \<and> set zs = insert x (set ys) \<and> x \<notin> set ys"
  by (induction ys arbitrary: zs) (force split: if_splits)+

lemma sort_new_spec: "sort_new xs = Some ys \<Longrightarrow> sorted_wrt (<) ys \<and> set ys = set xs \<and> distinct xs"
proof (induction xs arbitrary: ys)
  case Nil
  then show ?case by simp
next
  case (Cons x xs)
  then obtain zs where "sort_new xs = Some zs" "ins_new x zs = Some ys" by (auto split: option.splits)
  then show ?case using Cons.IH [of zs] ins_new_spec [of x zs ys] by auto
qed

lemma opEntries_sort: "sort_new (map fst opEntries) \<noteq> None"
  by code_simp

lemma opEntries_distinct: "distinct (map fst opEntries)"
  using opEntries_sort sort_new_spec by blast

lemma opTable_entry: "(k, f) \<in> set opEntries \<Longrightarrow> opTable k = Some (k, f)"
  unfolding opTable_def by (rule fill_table_entry [OF opEntries_distinct])

lemma opTable_none: "k \<notin> fst ` set opEntries \<Longrightarrow> opTable k = None"
  by (simp add: opTable_def fill_table_other)

lemma opTable_name: "opTable k = Some (n, f) \<Longrightarrow> n = k \<and> (k, f) \<in> set opEntries"
proof -
  assume t: "opTable k = Some (n, f)"
  then have "k \<in> fst ` set opEntries" using opTable_none [of k] by (cases "k \<in> fst ` set opEntries") simp_all
  then obtain g where "(k, g) \<in> set opEntries" by auto
  then show ?thesis using opTable_entry [of k g] t by simp
qed

text \<open>Every entry with a character that is not a letter (all of them have a dash) is a forbidden command.\<close>

lemma dashed_entries: "list_all (\<lambda>(n, f). list_all is_letter n \<or> IsNotAllowed f) opEntries"
  by code_simp

lemma entries_short: "list_all (\<lambda>(n, f). n \<noteq> [] \<and> length n \<le> 64 \<and> map ascii_upper n = n \<and> is_ascii n) opEntries"
  by code_simp

subsection \<open>The command of a request\<close>

definition MaxOpStrLen :: nat where "MaxOpStrLen = 64"

text \<open>The loop over the bytes: \<open>None\<close> when it meets one without an upper-case letter.\<close>

primrec upper_scan :: "bytes \<Rightarrow> bytes option" where
  "upper_scan [] = Some []"
| "upper_scan (c # cs) =
     (let u = charmap ! of_char c in
      if u \<noteq> char_of (0::nat) then map_option (\<lambda>us. u # us) (upper_scan cs) else None)"

definition getOpInfo :: "(string \<Rightarrow> string) \<Rightarrow> resp list \<Rightarrow> goerror + (string \<times> 32 word)" where
  "getOpInfo uni multi =
     (case multi of
        [] \<Rightarrow> Inl (ErrVar ErrBadMultiBulk)
      | m # _ \<Rightarrow>
          (let op = (case rvalue m of None \<Rightarrow> [] | Some v \<Rightarrow> v) in
           if length op = 0 \<or> length op > MaxOpStrLen then Inl (ErrVar ErrBadOpStrLen)
           else
             (case upper_scan op of
                None \<Rightarrow> Inr (to_upper uni op, FlagMayWrite)
              | Some u \<Rightarrow>
                  (case opTable u of
                     Some (n, f) \<Rightarrow> Inr (n, f)
                   | None \<Rightarrow> Inr (u, FlagMayWrite)))))"

lemma upper_scan_spec:
  "upper_scan s = (if list_all is_letter s then Some (map ascii_upper s) else None)"
  by (induction s) (auto simp: charmap_at Let_def ascii_upper_letter)

text \<open>The flags of a command name in upper case.\<close>

definition flag_of :: "string \<Rightarrow> 32 word" where
  "flag_of n = (case opTable n of Some (_, f) \<Rightarrow> f | None \<Rightarrow> FlagMayWrite)"

lemma getOpInfo_letters:
  assumes "list_all is_letter op" "op \<noteq> []" "length op \<le> 64" "rvalue m = Some op"
  shows "getOpInfo uni (m # ms) = Inr (map ascii_upper op, flag_of (map ascii_upper op))"
  using assms opTable_name
  by (auto simp: getOpInfo_def upper_scan_spec flag_of_def MaxOpStrLen_def Let_def split: option.splits)

lemma getOpInfo_other:
  assumes "\<not> list_all is_letter op" "length op \<le> 64" "rvalue m = Some op"
  shows "getOpInfo uni (m # ms) = Inr (to_upper uni op, FlagMayWrite)"
  using assms by (auto simp: getOpInfo_def upper_scan_spec MaxOpStrLen_def Let_def)

lemma is_letter_upper: "is_letter (ascii_upper c) = is_letter c"
  by (auto simp: is_letter_def ascii_upper_def)

lemma entry_props:
  assumes "(n, f) \<in> set opEntries"
  shows "list_all is_letter n \<or> IsNotAllowed f" "n \<noteq> []" "length n \<le> 64" "map ascii_upper n = n" "is_ascii n"
  using dashed_entries entries_short assms by (auto simp: list_all_iff)

lemma getOpInfo_entry:
  assumes "(n, f) \<in> set opEntries" "list_all is_letter n" "map ascii_upper op = n" "rvalue m = Some op"
  shows "getOpInfo uni (m # ms) = Inr (n, f)"
proof -
  have "list_all is_letter op" using assms(2,3) is_letter_upper by (auto simp: list_all_iff)
  moreover have "op \<noteq> []" "length op \<le> 64" using entry_props(2,3) [OF assms(1)] assms(3) by auto
  ultimately show ?thesis
    using getOpInfo_letters [of op m uni ms] assms(3,4) opTable_entry [OF assms(1)] by (simp add: flag_of_def)
qed

text \<open>
  A command of the table is recognised in any mixture of upper and lower case, and gets the
  name and the flags of its entry, provided its name has letters only.
\<close>

theorem command_any_case:
  assumes "(n, f) \<in> set opEntries" "list_all is_letter n" "map ascii_upper op = n" "rvalue m = Some op"
  shows "getOpInfo uni (m # ms) = Inr (n, f)"
  by (rule getOpInfo_entry [OF assms])

theorem command_any_case_witness:
  "getOpInfo id [NewBulkBytes (Some ''sHutDown'')] = Inr (''SHUTDOWN'', FlagNotAllow)"
proof (rule command_any_case)
  show "(''SHUTDOWN'', FlagNotAllow) \<in> set opEntries" by (simp add: op_entries)
  show "map ascii_upper ''sHutDown'' = ''SHUTDOWN''" by code_simp
qed (simp_all add: is_letter_def NewBulkBytes_def)

text \<open>
  Every command of the table whose name is not made of letters only (a dash: the slot
  migration commands, \<open>RESTORE-ASKING\<close>) is meant to be forbidden and is not: the scan of the
  name stops at the dash, before the table is looked up, and the command passes as an unknown
  one that may write.
\<close>

theorem dashed_commands_pass:
  assumes "(n, f) \<in> set opEntries" "\<not> list_all is_letter n" "rvalue m = Some n"
  shows "IsNotAllowed f \<and> getOpInfo uni (m # ms) = Inr (n, FlagMayWrite) \<and> \<not> IsNotAllowed FlagMayWrite"
  using getOpInfo_other [OF assms(2) _ assms(3)] entry_props [OF assms(1)] assms(2)
  by (simp add: to_upper_def op_flag_tests op_flags)

theorem dashed_commands_pass_witness:
  "getOpInfo id [NewBulkBytes (Some ''RESTORE-ASKING'')] = Inr (''RESTORE-ASKING'', FlagMayWrite)"
proof -
  obtain f where "(''RESTORE-ASKING'', f) \<in> set opEntries" by (simp add: op_entries)
  then show ?thesis
    using dashed_commands_pass [of "''RESTORE-ASKING''" f "NewBulkBytes (Some ''RESTORE-ASKING'')" id "[]"]
    by (simp add: is_letter_def NewBulkBytes_def)
qed

subsection \<open>Hash and key\<close>

text \<open>\<open>crc32.ChecksumIEEE\<close>, bit by bit.\<close>

primrec crc_bits :: "nat \<Rightarrow> 32 word \<Rightarrow> 32 word" where
  "crc_bits 0 c = c"
| "crc_bits (Suc k) c =
     crc_bits k (if c AND 1 = 1 then drop_bit 1 c XOR 0xEDB88320 else drop_bit 1 c)"

definition crc32 :: "bytes \<Rightarrow> 32 word" where
  "crc32 p = NOT (foldl (\<lambda>c b. crc_bits 8 (c XOR of_nat (of_char b))) (NOT 0) p)"

definition Hash :: "bytes \<Rightarrow> 32 word" where
  "Hash key =
     (let key' =
        (case index_byte (CHR ''{'') key of
           None \<Rightarrow> key
         | Some b \<Rightarrow>
             (case index_byte (CHR ''}'') (drop (b + 1) key) of
                None \<Rightarrow> key
              | Some e \<Rightarrow> take e (drop (b + 1) key)))
      in crc32 key')"

definition getHashKey :: "resp list \<Rightarrow> string \<Rightarrow> bytes option" where
  "getHashKey multi opstr =
     (let index = (if opstr \<in> {''ZINTERSTORE'', ''ZUNIONSTORE'', ''EVAL'', ''EVALSHA''} then 3 else (1::nat)) in
      if index < length multi then rvalue (multi ! index) else None)"

text \<open>
  Keys with a tag in braces hash by the tag alone: two keys with the same first tag have the
  same hash, whatever stands before and after it.
\<close>

theorem hash_by_tag:
  assumes "CHR ''{'' \<notin> set a" "CHR ''{'' \<notin> set b" "CHR ''}'' \<notin> set tag"
  shows "Hash (a @ CHR ''{'' # tag @ CHR ''}'' # rest) = crc32 tag
    \<and> Hash (a @ CHR ''{'' # tag @ CHR ''}'' # rest) = Hash (b @ CHR ''{'' # tag @ CHR ''}'' # rest')"
  using assms by (simp_all add: Hash_def index_byte_at)

theorem hash_by_tag_witness:
  "Hash ''user{1}name'' = Hash ''{1}''"
proof -
  have "Hash (''user'' @ CHR ''{'' # ''1'' @ CHR ''}'' # ''name'') = Hash ([] @ CHR ''{'' # ''1'' @ CHR ''}'' # [])"
    by (rule hash_by_tag [THEN conjunct2]) simp_all
  then show ?thesis by simp
qed

end
