(* ===== verification/Request.thy ===== *)
theory Request
  imports Mapper
begin

section \<open>Requests and their queue\<close>

text \<open>
  Models \<open>pkg/proxy/request.go\<close>. The fields of a request that are pointers shared with other
  requests or with the session (the wait groups \<open>Batch\<close> and \<open>Group\<close>, the flag \<open>Broken\<close>) are
  addresses of type \<open>nat\<close>; the flags themselves are a function from addresses, passed where they
  are read. \<open>Coalesce\<close>, which no code of the repository sets, is the result of calling it.
\<close>

subsection \<open>Requests\<close>

record request =
  rMulti :: "resp list"
  rBatch :: "nat option"
  rGroup :: "nat option"
  rBroken :: "nat option"
  rOpStr :: string
  rOpFlag :: "32 word"
  rDatabase :: int
  rUnixNano :: int
  rResp :: "resp option"
  rErr :: "goerror option"
  rCoalesce :: "goerror option option"

text \<open>The zero value \<open>Request{}\<close>.\<close>

definition zero_request :: request where
  "zero_request = \<lparr>rMulti = [], rBatch = None, rGroup = None, rBroken = None, rOpStr = [], rOpFlag = 0,
     rDatabase = 0, rUnixNano = 0, rResp = None, rErr = None, rCoalesce = None\<rparr>"

definition text_of :: "bytes option \<Rightarrow> string" where
  "text_of v = (case v of None \<Rightarrow> [] | Some s \<Rightarrow> s)"

definition getKey :: "request \<Rightarrow> string" where
  "getKey r = (if length (rMulti r) \<ge> 2 then text_of (rvalue (rMulti r ! 1)) else [])"

definition IsBroken :: "(nat \<Rightarrow> bool) \<Rightarrow> request \<Rightarrow> bool" where
  "IsBroken flags r = (case rBroken r of None \<Rightarrow> False | Some p \<Rightarrow> flags p)"

definition MakeSubRequest :: "nat \<Rightarrow> request \<Rightarrow> request list" where
  "MakeSubRequest n r =
     replicate n (zero_request\<lparr>rBatch := rBatch r, rOpStr := rOpStr r, rOpFlag := rOpFlag r, rBroken := rBroken r,
       rDatabase := rDatabase r, rUnixNano := rUnixNano r, rMulti := rMulti r\<rparr>)"

text \<open>\<open>CPRequest\<close> gives every copy a wait group of its own; \<open>fresh\<close> is the first unused address.\<close>

definition CPRequest :: "nat \<Rightarrow> nat \<Rightarrow> request \<Rightarrow> request list" where
  "CPRequest fresh n r =
     map (\<lambda>i. zero_request\<lparr>rBatch := Some (fresh + i), rOpStr := rOpStr r, rOpFlag := rOpFlag r,
       rDatabase := rDatabase r, rUnixNano := rUnixNano r, rMulti := rMulti r\<rparr>) [0..<n]"

definition GOLDEN_RATIO_PRIME_32 :: "32 word" where
  "GOLDEN_RATIO_PRIME_32 = 0x9e370001"

text \<open>\<open>ptr\<close> is the address of the request, truncated to 32 bits like the time.\<close>

definition Seed16 :: "32 word \<Rightarrow> request \<Rightarrow> nat" where
  "Seed16 ptr r =
     (let h32 = word_of_int (rUnixNano r) + ptr; h32' = h32 * GOLDEN_RATIO_PRIME_32
      in unat (drop_bit 16 h32'))"

definition bulk :: "string \<Rightarrow> resp" where
  "bulk s = NewBulkBytes (Some s)"

definition GetRequest :: "nat \<Rightarrow> string \<Rightarrow> request" where
  "GetRequest b key = zero_request\<lparr>rBatch := Some b, rMulti := [bulk ''get'', bulk key]\<rparr>"

definition TTLRequest :: "nat \<Rightarrow> string \<Rightarrow> request" where
  "TTLRequest b key = zero_request\<lparr>rBatch := Some b, rMulti := [bulk ''ttl'', bulk key]\<rparr>"

definition SetRequest :: "nat \<Rightarrow> string \<Rightarrow> string \<Rightarrow> int \<Rightarrow> request" where
  "SetRequest b key val expire = zero_request\<lparr>rBatch := Some b, rMulti :=
     (if expire < 0 then [bulk ''set'', bulk key, bulk val]
      else [bulk ''set'', bulk key, bulk val, bulk ''EX'', bulk (Itoa expire)])\<rparr>"

definition DELRequest :: "nat \<Rightarrow> string \<Rightarrow> request" where
  "DELRequest b key = zero_request\<lparr>rBatch := Some b, rMulti := [bulk ''del'', bulk key]\<rparr>"

lemma Seed16_bound: "Seed16 ptr r < 65536"
proof -
  have "unat (drop_bit 16 w) < 65536" for w :: "32 word"
  proof -
    have "unat (drop_bit 16 w) = unat w div 65536" by (simp add: unat_drop_bit_eq) (simp add: drop_bit_eq_div)
    moreover have "unat w < 2 ^ 32" using unsigned_less [of w, where ?'a = nat] by simp
    ultimately show ?thesis by (simp add: less_mult_imp_div_less)
  qed
  then show ?thesis by (simp add: Seed16_def Let_def)
qed

lemma request_keys [simp]:
  "getKey (GetRequest b k) = k" "getKey (TTLRequest b k) = k" "getKey (SetRequest b k v e) = k" "getKey (DELRequest b k) = k"
  by (simp_all add: getKey_def GetRequest_def TTLRequest_def SetRequest_def DELRequest_def bulk_def NewBulkBytes_def text_of_def)

text \<open>A copy has the command and key of the original, and shares none of its wait groups.\<close>

lemma CPRequest_copy:
  "c \<in> set (CPRequest fresh n r) \<Longrightarrow>
   rMulti c = rMulti r \<and> getKey c = getKey r \<and> rOpStr c = rOpStr r \<and> rResp c = None \<and> rErr c = None
   \<and> (\<exists>i < n. rBatch c = Some (fresh + i))"
  by (auto simp: CPRequest_def getKey_def zero_request_def)

lemma CPRequest_batches: "map rBatch (CPRequest fresh n r) = map (\<lambda>i. Some (fresh + i)) [0..<n]"
  by (simp add: CPRequest_def)

subsection \<open>The contract of a queue\<close>

text \<open>
  A queue hands out what was put into it in the order it was put. \<open>push\<close> gives \<open>None\<close> when it is
  refused (closed or full), \<open>pop\<close> when there is nothing to take.
\<close>

datatype 'a qop = Push 'a | Pop

locale fifo =
  fixes push :: "'a \<Rightarrow> 'q \<Rightarrow> 'q option" and pop :: "'q \<Rightarrow> ('a \<times> 'q) option" and items :: "'q \<Rightarrow> 'a list"
  assumes push_items: "push x q = Some q' \<Longrightarrow> items q' = items q @ [x]"
    and pop_items: "pop q = Some (x, q') \<Longrightarrow> items q = x # items q'"
    and pop_ready: "items q \<noteq> [] \<Longrightarrow> pop q \<noteq> None"
begin

text \<open>Any interleaving of operations: what was accepted, what was handed out, the queue after it.\<close>

primrec runq :: "'a qop list \<Rightarrow> 'q \<Rightarrow> 'a list \<times> 'a list \<times> 'q" where
  "runq [] q = ([], [], q)"
| "runq (x # xs) q =
     (case x of
        Push a \<Rightarrow>
          (case push a q of
             None \<Rightarrow> runq xs q
           | Some q1 \<Rightarrow> (let (i, out, q2) = runq xs q1 in (a # i, out, q2)))
      | Pop \<Rightarrow>
          (case pop q of
             None \<Rightarrow> runq xs q
           | Some (a, q1) \<Rightarrow> (let (i, out, q2) = runq xs q1 in (i, a # out, q2))))"

lemma in_order: "runq ops q = (i, out, q') \<Longrightarrow> items q @ i = out @ items q'"
proof (induction ops arbitrary: q i out)
  case Nil
  then show ?case by simp
next
  case (Cons op ops)
  show ?case
  proof (cases op)
    case (Push a)
    then show ?thesis using Cons push_items [of a q]
      by (cases "push a q") (force split: prod.splits simp: Let_def)+
  next
    case Pop
    then show ?thesis using Cons pop_items [of q]
      by (cases "pop q") (force split: prod.splits simp: Let_def)+
  qed
qed

text \<open>Nothing is lost: popping as often as there are items empties the queue.\<close>

lemma drain: "length (items q) = n \<Longrightarrow> \<exists>q'. runq (replicate n Pop) q = ([], items q, q') \<and> items q' = []"
proof (induction n arbitrary: q)
  case 0
  then show ?case by simp
next
  case (Suc n)
  then have "items q \<noteq> []" by auto
  then obtain a q1 where p: "pop q = Some (a, q1)" using pop_ready by fastforce
  then have "length (items q1) = n" using pop_items [OF p] Suc.prems by simp
  then obtain q' where "runq (replicate n Pop) q1 = ([], items q1, q')" "items q' = []" using Suc.IH by blast
  then show ?case using p pop_items [OF p] by simp
qed

end

subsection \<open>The request channel\<close>

text \<open>
  \<open>RequestChan\<close>: a queue guarded by a mutex, so each method is one atomic step. The slice \<open>buff\<close>
  is the backing store that an empty queue starts over in, which a list needs not show. \<open>waits\<close>
  counts the consumers inside \<open>cond.Wait\<close>: those still asleep (\<open>asleep\<close>) and those signalled
  but not running yet (\<open>woken\<close>), which only the condition variable knows.
\<close>

record 'a requestChan =
  cdata :: "'a list"
  asleep :: nat
  woken :: nat
  cclosed :: bool

definition waits :: "'a requestChan \<Rightarrow> nat" where
  "waits c = asleep c + woken c"

definition NewRequestChan :: "'a requestChan" where
  "NewRequestChan = \<lparr>cdata = [], asleep = 0, woken = 0, cclosed = False\<rparr>"

text \<open>\<open>cond.Signal\<close> wakes one sleeper if there is one, \<open>cond.Broadcast\<close> all of them.\<close>

definition signal :: "'a requestChan \<Rightarrow> 'a requestChan" where
  "signal c = (if asleep c = 0 then c else c\<lparr>asleep := asleep c - 1, woken := woken c + 1\<rparr>)"

definition broadcast :: "'a requestChan \<Rightarrow> 'a requestChan" where
  "broadcast c = c\<lparr>asleep := 0, woken := woken c + asleep c\<rparr>"

definition CloseChan :: "'a requestChan \<Rightarrow> 'a requestChan" where
  "CloseChan c = (if \<not> cclosed c then broadcast (c\<lparr>cclosed := True\<rparr>) else c)"

definition Buffered :: "'a requestChan \<Rightarrow> nat" where
  "Buffered c = length (cdata c)"

definition IsEmpty :: "'a requestChan \<Rightarrow> bool" where
  "IsEmpty c = (Buffered c = 0)"

text \<open>\<open>None\<close> is the panic \<open>send on closed chan\<close>.\<close>

definition lockedPushBack :: "'a \<Rightarrow> 'a requestChan \<Rightarrow> (nat \<times> 'a requestChan) option" where
  "lockedPushBack r c =
     (if cclosed c then None
      else
        (let c1 = (if waits c \<noteq> 0 then signal c else c); c2 = c1\<lparr>cdata := cdata c1 @ [r]\<rparr>
         in Some (length (cdata c2), c2)))"

text \<open>
  \<open>lockedPopFront\<close> up to the point where it returns or goes to sleep in \<open>cond.Wait\<close>; a consumer
  that is woken leaves the wait (\<open>wake_up\<close>) and runs the loop body again.
\<close>

datatype 'a popped = PopItem 'a | PopClosed | PopSleeps

definition lockedPopFront :: "'a requestChan \<Rightarrow> 'a popped \<times> 'a requestChan" where
  "lockedPopFront c =
     (case cdata c of
        [] \<Rightarrow> if cclosed c then (PopClosed, c) else (PopSleeps, c\<lparr>asleep := asleep c + 1\<rparr>)
      | r # rs \<Rightarrow> (PopItem r, c\<lparr>cdata := rs\<rparr>))"

definition wake_up :: "'a requestChan \<Rightarrow> ('a popped \<times> 'a requestChan) option" where
  "wake_up c = (if woken c = 0 then None else Some (lockedPopFront (c\<lparr>woken := woken c - 1\<rparr>)))"

definition chan_push :: "'a \<Rightarrow> 'a requestChan \<Rightarrow> 'a requestChan option" where
  "chan_push r c = map_option snd (lockedPushBack r c)"

definition chan_pop :: "'a requestChan \<Rightarrow> ('a \<times> 'a requestChan) option" where
  "chan_pop c = (case lockedPopFront c of (PopItem r, c') \<Rightarrow> Some (r, c') | _ \<Rightarrow> None)"

interpretation rq: fifo chan_push chan_pop cdata
  by unfold_locales
    (auto simp: chan_push_def chan_pop_def lockedPushBack_def lockedPopFront_def signal_def Let_def
      split: if_splits list.splits)

text \<open>
  \<open>PopFrontAll\<close> on a channel that is closed: the handler is applied to the rest of the queue,
  up to its first error.
\<close>

fun PopFrontAll :: "('a \<Rightarrow> 's \<Rightarrow> goerror option \<times> 's) \<Rightarrow> 'a list \<Rightarrow> 's \<Rightarrow> (goerror option \<times> 'a list) \<times> 's" where
  "PopFrontAll onRequest [] s = ((None, []), s)"
| "PopFrontAll onRequest (r # rs) s =
     (case onRequest r s of
        (Some err, s1) \<Rightarrow> ((Some err, rs), s1)
      | (None, s1) \<Rightarrow> PopFrontAll onRequest rs s1)"

definition PopFrontAllVoid :: "('a \<Rightarrow> 's \<Rightarrow> 's) \<Rightarrow> 'a list \<Rightarrow> 's \<Rightarrow> 's" where
  "PopFrontAllVoid onRequest rs s = snd (PopFrontAll (\<lambda>r s. (None, onRequest r s)) rs s)"

lemma PopFrontAllVoid_fold: "PopFrontAllVoid f rs s = fold f rs s"
  unfolding PopFrontAllVoid_def by (induction rs arbitrary: s) simp_all

subsection \<open>No lost wake-up\<close>

text \<open>
  The steps of any number of producers and consumers: a push, a consumer that calls \<open>PopFront\<close>,
  a signalled consumer that runs again, a close.
\<close>

inductive chan_step :: "'a requestChan \<Rightarrow> 'a requestChan \<Rightarrow> bool" where
  step_push: "lockedPushBack r c = Some (n, c') \<Longrightarrow> chan_step c c'"
| step_pop: "chan_step c (snd (lockedPopFront c))"
| step_wake: "wake_up c = Some (p, c') \<Longrightarrow> chan_step c c'"
| step_close: "chan_step c (CloseChan c)"

definition chan_inv :: "'a requestChan \<Rightarrow> bool" where
  "chan_inv c \<longleftrightarrow> (asleep c \<noteq> 0 \<longrightarrow> length (cdata c) \<le> woken c) \<and> (cclosed c \<longrightarrow> asleep c = 0)"

lemma chan_inv_pop [inv_preserved]: "chan_inv c \<Longrightarrow> chan_inv (snd (lockedPopFront c))"
  by (auto simp: chan_inv_def lockedPopFront_def split: list.split)

lemma chan_inv_step [inv_preserved]: "chan_step c c' \<Longrightarrow> chan_inv c \<Longrightarrow> chan_inv c'"
proof (induction rule: chan_step.induct)
  case (step_push r c n c')
  then show ?case by (auto simp: chan_inv_def lockedPushBack_def signal_def waits_def Let_def split: if_splits)
next
  case (step_pop c)
  then show ?case by (rule chan_inv_pop)
next
  case (step_wake c p c')
  then show ?case
    by (auto simp: chan_inv_def wake_up_def lockedPopFront_def split: if_splits list.splits)
next
  case (step_close c)
  then show ?case by (auto simp: chan_inv_def CloseChan_def broadcast_def)
qed

interpretation chan: trans_sys "\<lambda>c. c = NewRequestChan" chan_step chan_inv
  by unfold_locales (simp add: chan_inv_def NewRequestChan_def, rule chan_inv_step)

text \<open>
  C25. No lost wake-up, and no sleeper on a closed queue. In every state that producers and
  consumers can reach, a consumer sleeps on a non-empty queue only while another one has been
  signalled and is about to run, and after \<open>Close\<close> nobody sleeps.
\<close>

theorem no_lost_wakeup:
  assumes "chan_step\<^sup>*\<^sup>* NewRequestChan c" "cdata c \<noteq> [] \<or> cclosed c"
  shows "asleep c = 0 \<or> woken c > 0 \<and> \<not> cclosed c"
proof -
  have inv: "chan_inv c" by (rule chan.reach_inv [OF refl assms(1)])
  show ?thesis
  proof (cases "asleep c = 0")
    case False
    then have "\<not> cclosed c" "length (cdata c) \<le> woken c" using inv by (auto simp: chan_inv_def)
    moreover have "0 < length (cdata c)" using assms(2) calculation(1) by simp
    ultimately have "0 < woken c" by linarith
    with \<open>\<not> cclosed c\<close> show ?thesis by simp
  qed simp
qed

theorem no_lost_wakeup_witness:
  "asleep (CloseChan (snd (lockedPopFront (NewRequestChan :: nat requestChan)))) = 0 \<or>
   woken (CloseChan (snd (lockedPopFront (NewRequestChan :: nat requestChan)))) > 0
   \<and> \<not> cclosed (CloseChan (snd (lockedPopFront (NewRequestChan :: nat requestChan))))"
proof (rule no_lost_wakeup)
  have "chan_step (NewRequestChan :: nat requestChan) (snd (lockedPopFront NewRequestChan))" by (rule step_pop)
  moreover have "chan_step (snd (lockedPopFront (NewRequestChan :: nat requestChan))) (CloseChan (snd (lockedPopFront NewRequestChan)))"
    by (rule step_close)
  ultimately show "chan_step\<^sup>*\<^sup>* (NewRequestChan :: nat requestChan) (CloseChan (snd (lockedPopFront NewRequestChan)))"
    by (rule converse_rtranclp_into_rtranclp [OF _ r_into_rtranclp])
  show "cdata (CloseChan (snd (lockedPopFront (NewRequestChan :: nat requestChan)))) \<noteq> []
      \<or> cclosed (CloseChan (snd (lockedPopFront (NewRequestChan :: nat requestChan))))"
    by (simp add: CloseChan_def broadcast_def lockedPopFront_def NewRequestChan_def)
qed

end
