(* ===== verification/Stats.thy ===== *)
theory Stats
  imports Request "HOL-Library.Char_ord" "HOL-Library.List_Lexorder"
begin

section \<open>Counting operations\<close>

text \<open>
  Models \<open>pkg/proxy/stats.go\<close> and the counters of a session in \<open>pkg/proxy/session.go\<close>. A session
  counts on its own and moves its counts to the proxy's from time to time. The counters are
  atomic 64-bit integers, which wrap around.
\<close>

subsection \<open>The counters of the proxy\<close>

record opStats =
  opstr :: string
  calls :: int
  nsecs :: int
  fails :: int
  redisErrors :: int

definition new_opStats :: "string \<Rightarrow> opStats" where
  "new_opStats op = \<lparr>opstr = op, calls = 0, nsecs = 0, fails = 0, redisErrors = 0\<rparr>"

record opStatsView =
  OpStr :: string
  Calls :: int
  Usecs :: int
  UsecsPercall :: int
  Fails :: int
  RedisErrType :: int

definition OpStats :: "opStats \<Rightarrow> opStatsView" where
  "OpStats s =
     (let v = \<lparr>OpStr = opstr s, Calls = calls s, Usecs = go_div (nsecs s) 1000, UsecsPercall = 0,
               Fails = fails s, RedisErrType = 0\<rparr>;
          v1 = (if Calls v \<noteq> 0 then v\<lparr>UsecsPercall := wrap64 (go_div (Usecs v) (Calls v))\<rparr> else v)
      in v1\<lparr>RedisErrType := redisErrors s\<rparr>)"

record cmdStats =
  opmap :: "string \<rightharpoonup> opStats"
  cTotal :: int
  cFails :: int
  cErrors :: int

text \<open>The counters of all commands, as others read them.\<close>

definition OpTotal :: "cmdStats \<Rightarrow> int" where "OpTotal c = cTotal c"
definition OpFails :: "cmdStats \<Rightarrow> int" where "OpFails c = cFails c"
definition OpRedisErrors :: "cmdStats \<Rightarrow> int" where "OpRedisErrors c = cErrors c"

text \<open>\<open>getOpStats\<close> looks twice, without and with the write lock; one step does for both.\<close>

definition getOpStats :: "string \<Rightarrow> bool \<Rightarrow> cmdStats \<Rightarrow> opStats option \<times> cmdStats" where
  "getOpStats op create c =
     (case opmap c op of
        Some s \<Rightarrow> (Some s, c)
      | None \<Rightarrow>
          if \<not> create then (None, c)
          else (let s = new_opStats op in (Some s, c\<lparr>opmap := (opmap c)(op \<mapsto> s)\<rparr>)))"

definition incrOpTotal :: "int \<Rightarrow> cmdStats \<Rightarrow> cmdStats" where
  "incrOpTotal n c = c\<lparr>cTotal := snd (AddInt64 (cTotal c) n)\<rparr>"

definition incrOpFails :: "int \<Rightarrow> cmdStats \<Rightarrow> cmdStats" where
  "incrOpFails n c = c\<lparr>cFails := snd (AddInt64 (cFails c) n)\<rparr>"

text \<open>\<open>incrOpStats e\<close> moves the counts of \<open>e\<close>: the counters of \<open>e\<close> are swapped with 0.\<close>

definition incrOpStats :: "opStats \<Rightarrow> cmdStats \<Rightarrow> opStats \<times> cmdStats" where
  "incrOpStats e c =
     (case getOpStats (opstr e) True c of
        (None, c1) \<Rightarrow> (e, c1)
      | (Some s, c1) \<Rightarrow>
          (let s1 = s\<lparr>calls := snd (AddInt64 (calls s) (fst (SwapInt64 (calls e) 0)))\<rparr>;
               e1 = e\<lparr>calls := snd (SwapInt64 (calls e) 0)\<rparr>;
               s2 = s1\<lparr>nsecs := snd (AddInt64 (nsecs s1) (fst (SwapInt64 (nsecs e1) 0)))\<rparr>;
               e2 = e1\<lparr>nsecs := snd (SwapInt64 (nsecs e1) 0)\<rparr>;
               n = fst (SwapInt64 (fails e2) 0);
               e3 = e2\<lparr>fails := snd (SwapInt64 (fails e2) 0)\<rparr>;
               (s3, c2) = (if n \<noteq> 0 then (s2\<lparr>fails := snd (AddInt64 (fails s2) n)\<rparr>,
                                          c1\<lparr>cFails := snd (AddInt64 (cFails c1) n)\<rparr>)
                           else (s2, c1));
               m = fst (SwapInt64 (redisErrors e3) 0);
               e4 = e3\<lparr>redisErrors := snd (SwapInt64 (redisErrors e3) 0)\<rparr>;
               (s4, c3) = (if m \<noteq> 0 then (s3\<lparr>redisErrors := snd (AddInt64 (redisErrors s3) m)\<rparr>,
                                          c2\<lparr>cErrors := snd (AddInt64 (cErrors c2) m)\<rparr>)
                           else (s3, c2))
           in (e4, c3\<lparr>opmap := (opmap c3)(opstr e \<mapsto> s4)\<rparr>)))"

text \<open>All counters, sorted by the name of the operation; \<open>ord\<close> is the order of the range.\<close>

definition GetOpStatsAll :: "string list \<Rightarrow> cmdStats \<Rightarrow> opStatsView list" where
  "GetOpStatsAll ord c =
     sort_key OpStr (concat (map (\<lambda>k. case opmap c k of None \<Rightarrow> [] | Some s \<Rightarrow> [OpStats s]) ord))"

text \<open>The number of sessions, all of them and those alive.\<close>

record sessCount =
  sessTotal :: int
  sessAlive :: int

definition SessionsTotal :: "sessCount \<Rightarrow> int" where "SessionsTotal s = sessTotal s"
definition SessionsAlive :: "sessCount \<Rightarrow> int" where "SessionsAlive s = sessAlive s"

definition incrSessions :: "sessCount \<Rightarrow> int \<times> sessCount" where
  "incrSessions s =
     (let s1 = s\<lparr>sessTotal := snd (IncrInt64 (sessTotal s))\<rparr>
      in (fst (IncrInt64 (sessAlive s1)), s1\<lparr>sessAlive := snd (IncrInt64 (sessAlive s1))\<rparr>))"

definition decrSessions :: "sessCount \<Rightarrow> sessCount" where
  "decrSessions s = s\<lparr>sessAlive := snd (DecrInt64 (sessAlive s))\<rparr>"

definition ResetStats :: "cmdStats \<times> sessCount \<Rightarrow> cmdStats \<times> sessCount" where
  "ResetStats cs =
     (\<lparr>opmap = Map.empty, cTotal = 0, cFails = 0, cErrors = 0\<rparr>, (snd cs)\<lparr>sessTotal := sessAlive (snd cs)\<rparr>)"

subsection \<open>The counters of a session\<close>

record sessStats =
  sopmap :: "string \<rightharpoonup> opStats"
  sTotal :: int
  sFails :: int
  flushN :: nat
  flushNano :: int

definition new_sessStats :: sessStats where
  "new_sessStats = \<lparr>sopmap = Map.empty, sTotal = 0, sFails = 0, flushN = 0, flushNano = 0\<rparr>"

definition sessIncrOpTotal :: "sessStats \<Rightarrow> sessStats" where
  "sessIncrOpTotal s = s\<lparr>sTotal := snd (IncrInt64 (sTotal s))\<rparr>"

definition sessGetOpStats :: "string \<Rightarrow> sessStats \<Rightarrow> opStats" where
  "sessGetOpStats op s = (case sopmap s op of None \<Rightarrow> new_opStats op | Some e \<Rightarrow> e)"

text \<open>\<open>incrOpStats\<close> of the request's operation, which took \<open>now - UnixNano\<close> and had a reply of type \<open>t\<close>.\<close>

definition sessIncrOpStats :: "int \<Rightarrow> string \<Rightarrow> int \<Rightarrow> char \<Rightarrow> sessStats \<Rightarrow> sessStats" where
  "sessIncrOpStats now op unixNano t s =
     (let e = sessGetOpStats op s;
          e1 = e\<lparr>calls := snd (IncrInt64 (calls e))\<rparr>;
          e2 = e1\<lparr>nsecs := snd (AddInt64 (nsecs e1) (wrap64 (now - unixNano)))\<rparr>;
          e3 = (if t = TypeError then e2\<lparr>redisErrors := snd (IncrInt64 (redisErrors e2))\<rparr> else e2)
      in s\<lparr>sopmap := (sopmap s)(op \<mapsto> e3)\<rparr>)"

definition sessIncrOpFails :: "string option \<Rightarrow> sessStats \<Rightarrow> sessStats" where
  "sessIncrOpFails r s =
     (case r of
        Some op \<Rightarrow> (let e = sessGetOpStats op s in s\<lparr>sopmap := (sopmap s)(op \<mapsto> e\<lparr>fails := snd (IncrInt64 (fails e))\<rparr>)\<rparr>)
      | None \<Rightarrow> s\<lparr>sFails := snd (IncrInt64 (sFails s))\<rparr>)"

primrec flush_entries :: "string list \<Rightarrow> sessStats \<Rightarrow> cmdStats \<Rightarrow> sessStats \<times> cmdStats" where
  "flush_entries [] s c = (s, c)"
| "flush_entries (k # ks) s c =
     (case sopmap s k of
        None \<Rightarrow> flush_entries ks s c
      | Some e \<Rightarrow>
          if calls e \<noteq> 0 \<or> fails e \<noteq> 0 then
            (case incrOpStats e c of (e1, c1) \<Rightarrow> flush_entries ks (s\<lparr>sopmap := (sopmap s)(k \<mapsto> e1)\<rparr>) c1)
          else flush_entries ks s c)"

definition flushOpStats :: "int \<Rightarrow> bool \<Rightarrow> string list \<Rightarrow> sessStats \<Rightarrow> cmdStats \<Rightarrow> sessStats \<times> cmdStats" where
  "flushOpStats nano force ord s c =
     (if \<not> force \<and> wrap64 (nano - flushNano s) < 100000000 then (s, c)
      else
        (let s1 = s\<lparr>flushNano := nano\<rparr>;
             c1 = incrOpTotal (fst (SwapInt64 (sTotal s1) 0)) c;
             s2 = s1\<lparr>sTotal := snd (SwapInt64 (sTotal s1) 0)\<rparr>;
             c2 = incrOpFails (fst (SwapInt64 (sFails s2) 0)) c1;
             s3 = s2\<lparr>sFails := snd (SwapInt64 (sFails s2) 0)\<rparr>;
             (s4, c3) = flush_entries ord s3 c2;
             s5 = s4\<lparr>flushN := flushN s4 + 1\<rparr>
         in if card (dom (sopmap s5)) \<le> 32 then (s5, c3)
            else if flushN s5 mod 16384 = 0 then (s5\<lparr>sopmap := Map.empty\<rparr>, c3)
            else (s5, c3)))"


subsection \<open>Nothing is lost and nothing counted twice\<close>

text \<open>What a session's goroutines do to the counters; \<open>range_of\<close> is the order of a range.\<close>

datatype statEvent =
    EvTotal
  | EvReject
  | EvDone int string int char
  | EvFail string
  | EvFlush int bool

definition stat_step :: "((string \<rightharpoonup> opStats) \<Rightarrow> string list) \<Rightarrow> statEvent \<Rightarrow> sessStats \<times> cmdStats \<Rightarrow> sessStats \<times> cmdStats" where
  "stat_step range_of ev st =
     (case st of (s, c) \<Rightarrow>
      case ev of
        EvTotal \<Rightarrow> (sessIncrOpTotal s, c)
      | EvReject \<Rightarrow> (sessIncrOpFails None s, c)
      | EvDone now op unixNano t \<Rightarrow> (sessIncrOpStats now op unixNano t s, c)
      | EvFail op \<Rightarrow> (sessIncrOpFails (Some op) s, c)
      | EvFlush nano force \<Rightarrow> flushOpStats nano force (range_of (sopmap s)) s c)"

text \<open>The four counters of an operation, and what a map of them says of an operation.\<close>

datatype counter = NCalls | NNsecs | NFails | NErrors

primrec cnt :: "counter \<Rightarrow> opStats \<Rightarrow> int" where
  "cnt NCalls e = calls e"
| "cnt NNsecs e = nsecs e"
| "cnt NFails e = fails e"
| "cnt NErrors e = redisErrors e"

definition counted :: "counter \<Rightarrow> (string \<rightharpoonup> opStats) \<Rightarrow> string \<Rightarrow> int" where
  "counted x m k = (case m k of None \<Rightarrow> 0 | Some e \<Rightarrow> cnt x e)"

definition allcounted :: "counter \<Rightarrow> (string \<rightharpoonup> opStats) \<Rightarrow> int" where
  "allcounted x m = (\<Sum>k \<in> dom m. counted x m k)"

text \<open>What an event adds to a counter of an operation.\<close>

fun gain :: "counter \<Rightarrow> string \<Rightarrow> statEvent \<Rightarrow> int" where
  "gain x k (EvDone now op unixNano t) =
     (if op \<noteq> k then 0
      else case x of NCalls \<Rightarrow> 1 | NNsecs \<Rightarrow> now - unixNano | NFails \<Rightarrow> 0 | NErrors \<Rightarrow> (if t = TypeError then 1 else 0))"
| "gain x k (EvFail op) = (if op = k \<and> x = NFails then 1 else 0)"
| "gain x k ev = 0"

lemma counted_upd [simp]: "counted x (m(k \<mapsto> e)) j = (if j = k then cnt x e else counted x m j)"
  by (simp add: counted_def)

lemma sum_update:
  assumes "finite A"
  shows "(\<Sum>j \<in> insert k A. if j = k then v else f j) = (\<Sum>j \<in> A. f j) + v - (if k \<in> A then f k else (0::int))"
proof -
  have "(\<Sum>j \<in> insert k A. if j = k then v else f j) = v + (\<Sum>j \<in> A - {k}. f j)"
    using assms by (simp add: sum.insert_remove)
  moreover have "(\<Sum>j \<in> A. f j) = (if k \<in> A then f k else 0) + (\<Sum>j \<in> A - {k}. f j)"
    using assms by (simp add: sum.remove)
  ultimately show ?thesis by simp
qed

lemma allcounted_upd:
  assumes "finite (dom m)"
  shows "allcounted x (m(k \<mapsto> e)) = allcounted x m + cnt x e - counted x m k"
proof -
  have "allcounted x (m(k \<mapsto> e)) = (\<Sum>j \<in> insert k (dom m). if j = k then cnt x e else counted x m j)"
    by (simp add: allcounted_def)
  also have "\<dots> = allcounted x m + cnt x e - (if k \<in> dom m then counted x m k else 0)"
    unfolding allcounted_def using assms by (rule sum_update)
  finally show ?thesis by (simp add: counted_def domIff split: if_splits)
qed

text \<open>The state of the counters: what is counted so far, at the session and the proxy together.\<close>

definition so_far :: "counter \<Rightarrow> string \<Rightarrow> sessStats \<times> cmdStats \<Rightarrow> int" where
  "so_far x k st = wrap64 (counted x (opmap (snd st)) k + counted x (sopmap (fst st)) k)"

definition totals :: "sessStats \<times> cmdStats \<Rightarrow> int \<times> int \<times> int" where
  "totals st = (wrap64 (cTotal (snd st) + sTotal (fst st)),
     wrap64 (cFails (snd st) + sFails (fst st) + allcounted NFails (sopmap (fst st))),
     wrap64 (cErrors (snd st) + allcounted NErrors (sopmap (fst st))))"

text \<open>An entry of a session: named by its key, not overflowing, and empty if it has no calls.\<close>

definition entry_ok :: "int \<Rightarrow> string \<Rightarrow> opStats \<Rightarrow> bool" where
  "entry_ok n k e \<longleftrightarrow> opstr e = k \<and> 0 \<le> calls e \<and> calls e \<le> n \<and> 0 \<le> fails e \<and> fails e \<le> n \<and>
     (calls e = 0 \<longrightarrow> nsecs e = 0 \<and> redisErrors e = 0)"

definition sess_ok :: "int \<Rightarrow> sessStats \<Rightarrow> bool" where
  "sess_ok n s \<longleftrightarrow> finite (dom (sopmap s)) \<and> (\<forall>k e. sopmap s k = Some e \<longrightarrow> entry_ok n k e)"

lemma incrOpStats_moves:
  assumes "incrOpStats e c = (e', c')"
  shows "e' = new_opStats (opstr e)"
    "wrap64 (counted x (opmap c') k) = wrap64 (counted x (opmap c) k + (if k = opstr e then cnt x e else 0))"
    "cTotal c' = cTotal c" "wrap64 (cFails c') = wrap64 (cFails c + fails e)" "wrap64 (cErrors c') = wrap64 (cErrors c + redisErrors e)"
proof -
  note d = incrOpStats_def getOpStats_def SwapInt64_def AddInt64_def Let_def new_opStats_def counted_def
  show "e' = new_opStats (opstr e)" "cTotal c' = cTotal c" "wrap64 (cFails c') = wrap64 (cFails c + fails e)"
    "wrap64 (cErrors c') = wrap64 (cErrors c + redisErrors e)"
    using assms by (auto simp: d split: option.splits if_splits)
  show "wrap64 (counted x (opmap c') k) = wrap64 (counted x (opmap c) k + (if k = opstr e then cnt x e else 0))"
    using assms by (cases x) (auto simp: d split: option.splits if_splits)
qed


lemma wrap64_cong_add: "wrap64 a = wrap64 b \<Longrightarrow> wrap64 (a + d) = wrap64 (b + d)"
  by (metis wrap64_add_left)

lemma wrap64_deep: "wrap64 (a + (b + wrap64 d)) = wrap64 (a + (b + d))"
  by (metis add.assoc wrap64_add_right)

definition idle :: "sessStats \<Rightarrow> string \<Rightarrow> bool" where
  "idle s k \<longleftrightarrow> (\<forall>e. sopmap s k = Some e \<longrightarrow> calls e = 0 \<and> fails e = 0)"

text \<open>What is kept when an entry is moved, or a list of them.\<close>

definition kept :: "int \<Rightarrow> sessStats \<times> cmdStats \<Rightarrow> sessStats \<times> cmdStats \<Rightarrow> bool" where
  "kept n st st' \<longleftrightarrow> (\<forall>x k. so_far x k st' = so_far x k st) \<and> totals st' = totals st \<and>
     (sess_ok n (fst st) \<longrightarrow> sess_ok n (fst st')) \<and> dom (sopmap (fst st')) = dom (sopmap (fst st)) \<and>
     sTotal (fst st') = sTotal (fst st) \<and> sFails (fst st') = sFails (fst st) \<and>
     (\<forall>k. idle (fst st) k \<longrightarrow> idle (fst st') k)"

lemma kept_refl: "kept n st st"
  by (simp add: kept_def)

lemma kept_trans: "kept n st st' \<Longrightarrow> kept n st' st'' \<Longrightarrow> kept n st st''"
  by (simp add: kept_def)

lemma move_entry:
  assumes "sess_ok n s" "sopmap s k = Some e" "0 \<le> n" "incrOpStats e c = (e', c')"
  shows "kept n (s, c) (s\<lparr>sopmap := (sopmap s)(k \<mapsto> e')\<rparr>, c')" "idle (s\<lparr>sopmap := (sopmap s)(k \<mapsto> e')\<rparr>) k"
proof -
  have ok: "finite (dom (sopmap s))" "entry_ok n k e" using assms(1,2) by (auto simp: sess_ok_def)
  have k: "opstr e = k" using ok(2) by (simp add: entry_ok_def)
  note m = incrOpStats_moves [OF assms(4), unfolded k]
  have zero: "cnt x e' = 0" for x using m(1) by (cases x) (simp_all add: new_opStats_def)
  have cm: "counted x (sopmap s) k = cnt x e" for x using assms(2) by (simp add: counted_def)
  have so: "so_far x j (s\<lparr>sopmap := (sopmap s)(k \<mapsto> e')\<rparr>, c') = so_far x j (s, c)" for x j
    using wrap64_cong_add [OF m(2) [of x j], of "counted x ((sopmap s)(k \<mapsto> e')) j"] cm zero
    by (simp add: so_far_def algebra_simps)
  have all: "allcounted x ((sopmap s)(k \<mapsto> e')) = allcounted x (sopmap s) - cnt x e" for x
    using allcounted_upd [OF ok(1)] zero cm by simp
  have tot: "totals (s\<lparr>sopmap := (sopmap s)(k \<mapsto> e')\<rparr>, c') = totals (s, c)"
    using wrap64_cong_add [OF m(4), of "sFails s + allcounted NFails (sopmap s) - fails e"]
      wrap64_cong_add [OF m(5), of "allcounted NErrors (sopmap s) - redisErrors e"] m(3)
    by (simp add: totals_def all algebra_simps)
  have e: "entry_ok n k e'" using m(1) assms(3) by (simp add: entry_ok_def new_opStats_def)
  then have "sess_ok n (s\<lparr>sopmap := (sopmap s)(k \<mapsto> e')\<rparr>)" using assms(1) by (simp add: sess_ok_def)
  then show "kept n (s, c) (s\<lparr>sopmap := (sopmap s)(k \<mapsto> e')\<rparr>, c')"
    using so tot assms(2) m(1) by (auto simp: kept_def idle_def new_opStats_def)
  show "idle (s\<lparr>sopmap := (sopmap s)(k \<mapsto> e')\<rparr>) k"
    using m(1) by (simp add: idle_def new_opStats_def)
qed

lemma flush_entries_kept:
  "sess_ok n s \<Longrightarrow> 0 \<le> n \<Longrightarrow> kept n (s, c) (flush_entries ks s c) \<and> (\<forall>k \<in> set ks. idle (fst (flush_entries ks s c)) k)"
proof (induction ks arbitrary: s c)
  case Nil
  then show ?case by (simp add: kept_refl)
next
  case (Cons k ks)
  show ?case
  proof (cases "\<exists>e. sopmap s k = Some e \<and> (calls e \<noteq> 0 \<or> fails e \<noteq> 0)")
    case True
    then obtain e where e: "sopmap s k = Some e" "calls e \<noteq> 0 \<or> fails e \<noteq> 0" by blast
    obtain e' c' where i: "incrOpStats e c = (e', c')" by (metis surj_pair)
    let ?s = "s\<lparr>sopmap := (sopmap s)(k \<mapsto> e')\<rparr>"
    note m = move_entry [OF Cons.prems(1) e(1) Cons.prems(2) i]
    have "sess_ok n ?s" using m(1) Cons.prems(1) by (simp add: kept_def)
    from Cons.IH [OF this Cons.prems(2), of c'] have ih: "kept n (?s, c') (flush_entries ks ?s c')"
      "\<forall>j \<in> set ks. idle (fst (flush_entries ks ?s c')) j" by blast+
    have "idle (fst (flush_entries ks ?s c')) k" using ih(1) m(2) by (simp add: kept_def)
    then show ?thesis using e i ih kept_trans [OF m(1) ih(1)] by simp
  next
    case False
    then have "flush_entries (k # ks) s c = flush_entries ks s c" "idle s k"
      by (auto simp: idle_def split: option.split)
    then show ?thesis using Cons.IH [OF Cons.prems, of c] by (auto simp: kept_def)
  qed
qed

text \<open>The entries that are thrown away after a flush are empty.\<close>

lemma counted_idle: "sess_ok n s \<Longrightarrow> idle s k \<Longrightarrow> counted x (sopmap s) k = 0"
  by (cases x) (auto simp: sess_ok_def idle_def entry_ok_def counted_def split: option.split)

lemma flushOpStats_kept:
  assumes "sess_ok n s" "0 \<le> n" "map_order (sopmap s) ord" "flushOpStats nano force ord s c = (s', c')"
  shows "so_far x k (s', c') = so_far x k (s, c)" "totals (s', c') = totals (s, c)" "sess_ok n s'"
    "force \<Longrightarrow> sTotal s' = 0 \<and> sFails s' = 0 \<and> (\<forall>k. idle s' k)"
proof -
  define s3 where "s3 = s\<lparr>flushNano := nano, sTotal := 0, sFails := 0\<rparr>"
  define c2 where "c2 = incrOpFails (sFails s) (incrOpTotal (sTotal s) c)"
  obtain s4 c3 where f: "flush_entries ord s3 c2 = (s4, c3)" by (metis surj_pair)
  have ok3: "sess_ok n s3" using assms(1) by (simp add: s3_def sess_ok_def)
  have k: "kept n (s3, c2) (s4, c3)" "\<forall>k \<in> set ord. idle s4 k"
    using flush_entries_kept [OF ok3 assms(2), of c2 ord] f by auto
  have ok4: "sess_ok n s4" using k(1) ok3 by (simp add: kept_def)
  have idle: "idle s4 k" for k
  proof (cases "k \<in> dom (sopmap s)")
    case True
    then show ?thesis using k(2) assms(3) by (simp add: map_order_def)
  next
    case False
    then have "idle s3 k" by (auto simp: idle_def s3_def)
    then show ?thesis using k(1) by (simp add: kept_def)
  qed
  have z4: "counted x (sopmap s4) k = 0" for x k using counted_idle [OF ok4 idle] .
  have a4: "allcounted x (sopmap s4) = 0" for x by (simp add: allcounted_def z4)
  have so3: "so_far x k (s3, c2) = so_far x k (s, c)" for x k
    by (simp add: so_far_def s3_def c2_def incrOpFails_def incrOpTotal_def)
  have t3: "totals (s3, c2) = totals (s, c)"
    by (simp add: totals_def s3_def c2_def incrOpFails_def incrOpTotal_def AddInt64_def algebra_simps)
  have so4: "so_far x k (s4, c3) = so_far x k (s, c)" for x k using k(1) so3 by (simp add: kept_def)
  have t4: "totals (s4, c3) = totals (s, c)" using k(1) t3 by (simp add: kept_def)
  have st4: "sTotal s4 = 0" "sFails s4 = 0" using k(1) by (simp_all add: kept_def s3_def)
  let ?skip = "\<not> force \<and> wrap64 (nano - flushNano s) < 100000000"
  have fl: "flushOpStats nano force ord s c = (if ?skip then (s, c)
      else if card (dom (sopmap s4)) \<le> 32 then (s4\<lparr>flushN := flushN s4 + 1\<rparr>, c3)
      else if (flushN s4 + 1) mod 16384 = 0 then (s4\<lparr>flushN := flushN s4 + 1, sopmap := Map.empty\<rparr>, c3)
      else (s4\<lparr>flushN := flushN s4 + 1\<rparr>, c3))"
    using f unfolding flushOpStats_def s3_def c2_def SwapInt64_def by (simp add: Let_def)
  consider (skip) ?skip "s' = s" "c' = c"
    | (keep) "\<not> ?skip" "s' = s4\<lparr>flushN := flushN s4 + 1\<rparr>" "c' = c3"
    | (drop) "\<not> ?skip" "s' = s4\<lparr>flushN := flushN s4 + 1, sopmap := Map.empty\<rparr>" "c' = c3"
    using assms(4) fl by (auto split: if_splits)
  note cases = this
  show "so_far x k (s', c') = so_far x k (s, c)"
    using cases so4 [of x k] z4 [of x k] by cases (simp_all add: so_far_def counted_def [of x Map.empty])
  show "totals (s', c') = totals (s, c)"
    using cases t4 a4 by cases (simp_all add: totals_def allcounted_def [of _ Map.empty])
  show "sess_ok n s'" using cases ok4 assms(1) by cases (simp_all add: sess_ok_def)
  show "sTotal s' = 0 \<and> sFails s' = 0 \<and> (\<forall>k. idle s' k)" if force
    using cases st4 idle that by cases (simp_all add: idle_def)
qed


text \<open>What the events add to the totals: requests, failures, error replies.\<close>

fun gains :: "statEvent \<Rightarrow> int \<times> int \<times> int" where
  "gains EvTotal = (1, 0, 0)"
| "gains EvReject = (0, 1, 0)"
| "gains (EvDone now op unixNano t) = (0, 0, if t = TypeError then 1 else 0)"
| "gains (EvFail op) = (0, 1, 0)"
| "gains (EvFlush nano force) = (0, 0, 0)"

definition add3 :: "int \<times> int \<times> int \<Rightarrow> int \<times> int \<times> int \<Rightarrow> int \<times> int \<times> int" where
  "add3 a b = (wrap64 (fst a + fst b), wrap64 (fst (snd a) + fst (snd b)), wrap64 (snd (snd a) + snd (snd b)))"

definition ranges :: "((string \<rightharpoonup> opStats) \<Rightarrow> string list) \<Rightarrow> bool" where
  "ranges range_of \<longleftrightarrow> (\<forall>m. finite (dom m) \<longrightarrow> map_order m (range_of m))"

text \<open>An event other than a flush changes one entry, or a counter of the session.\<close>

lemma put_entry:
  assumes "sess_ok n s" "entry_ok (n + 1) k e" "\<And>x. wrap64 (cnt x e) = wrap64 (counted x (sopmap s) k + g x)"
  shows "sess_ok (n + 1) (s\<lparr>sopmap := (sopmap s)(k \<mapsto> e)\<rparr>)"
    "so_far x j (s\<lparr>sopmap := (sopmap s)(k \<mapsto> e)\<rparr>, c) = wrap64 (so_far x j (s, c) + (if j = k then g x else 0))"
    "totals (s\<lparr>sopmap := (sopmap s)(k \<mapsto> e)\<rparr>, c) = add3 (totals (s, c)) (0, g NFails, g NErrors)"
proof -
  have fin: "finite (dom (sopmap s))" using assms(1) by (simp add: sess_ok_def)
  have mono: "entry_ok (n + 1) j d" if "sopmap s j = Some d" for j d
    using assms(1) that by (fastforce simp: sess_ok_def entry_ok_def)
  then show "sess_ok (n + 1) (s\<lparr>sopmap := (sopmap s)(k \<mapsto> e)\<rparr>)" using fin assms(2) by (simp add: sess_ok_def)
  have g: "wrap64 (cnt x e + d) = wrap64 (counted x (sopmap s) k + g x + d)" for x d
    using wrap64_cong_add [OF assms(3)] .
  show "so_far x j (s\<lparr>sopmap := (sopmap s)(k \<mapsto> e)\<rparr>, c) = wrap64 (so_far x j (s, c) + (if j = k then g x else 0))"
    using g [of x "counted x (opmap c) k"] by (simp add: so_far_def algebra_simps)
  have all: "allcounted x ((sopmap s)(k \<mapsto> e)) = allcounted x (sopmap s) + cnt x e - counted x (sopmap s) k" for x
    by (rule allcounted_upd [OF fin])
  show "totals (s\<lparr>sopmap := (sopmap s)(k \<mapsto> e)\<rparr>, c) = add3 (totals (s, c)) (0, g NFails, g NErrors)"
    using g [of NFails "cFails c + sFails s + allcounted NFails (sopmap s) - counted NFails (sopmap s) k"]
      g [of NErrors "cErrors c + allcounted NErrors (sopmap s) - counted NErrors (sopmap s) k"]
    by (simp add: totals_def add3_def all algebra_simps)
qed

lemma entry_of:
  assumes "sess_ok n s" "0 \<le> n"
  shows "entry_ok n k (sessGetOpStats k s)" "cnt x (sessGetOpStats k s) = counted x (sopmap s) k"
proof -
  show "entry_ok n k (sessGetOpStats k s)"
    using assms by (auto simp: sess_ok_def sessGetOpStats_def entry_ok_def new_opStats_def split: option.split)
  show "cnt x (sessGetOpStats k s) = counted x (sopmap s) k"
    by (cases x) (simp_all add: sessGetOpStats_def counted_def new_opStats_def split: option.split)
qed

lemma stat_step_counts:
  assumes "sess_ok n (fst st)" "0 \<le> n" "n + 1 < 2 ^ 63" "ranges range_of"
  shows "sess_ok (n + 1) (fst (stat_step range_of ev st))"
    "so_far x k (stat_step range_of ev st) = wrap64 (so_far x k st + gain x k ev)"
    "totals (stat_step range_of ev st) = add3 (totals st) (gains ev)"
proof -
  obtain s c where st: "st = (s, c)" by (metis surj_pair)
  have ok: "sess_ok n s" using assms(1) st by simp
  have up: "sess_ok (n + 1) s'" if "sess_ok n s'" for s'
    using that by (fastforce simp: sess_ok_def entry_ok_def)
  have "sess_ok (n + 1) (fst (stat_step range_of ev st)) \<and>
    so_far x k (stat_step range_of ev st) = wrap64 (so_far x k st + gain x k ev) \<and>
    totals (stat_step range_of ev st) = add3 (totals st) (gains ev)"
  proof (cases ev)
    case EvTotal
    then show ?thesis using up [OF ok] st
      by (simp add: stat_step_def sessIncrOpTotal_def sess_ok_def so_far_def totals_def add3_def IncrInt64_def AddInt64_def algebra_simps)
  next
    case EvReject
    then show ?thesis using up [OF ok] st
      by (simp add: wrap64_deep stat_step_def sessIncrOpFails_def sess_ok_def so_far_def totals_def add3_def IncrInt64_def AddInt64_def algebra_simps)
  next
    case (EvFail op)
    define e where "e = (sessGetOpStats op s)\<lparr>fails := wrap64 (fails (sessGetOpStats op s) + 1)\<rparr>"
    note eo = entry_of [OF ok assms(2), where k = op]
    have fw: "wrap64 (fails (sessGetOpStats op s) + 1) = fails (sessGetOpStats op s) + 1"
      using eo(1) assms(3) by (intro wrap64_id) (auto simp: entry_ok_def int64_def)
    have e1: "entry_ok (n + 1) op e" using eo(1) fw by (auto simp: entry_ok_def e_def)
    have e2: "wrap64 (cnt y e) = wrap64 (counted y (sopmap s) op + (if y = NFails then 1 else 0))" for y
      using eo(2) [of y] by (cases y) (simp_all add: e_def)
    show ?thesis using put_entry [OF ok e1 e2] st EvFail
      by (simp add: stat_step_def sessIncrOpFails_def e_def Let_def IncrInt64_def AddInt64_def)
  next
    case (EvDone now op unixNano t)
    let ?o = "sessGetOpStats op s"
    define e where "e = ?o\<lparr>calls := wrap64 (calls ?o + 1), nsecs := wrap64 (nsecs ?o + (now - unixNano)),
      redisErrors := (if t = TypeError then wrap64 (redisErrors ?o + 1) else redisErrors ?o)\<rparr>"
    note eo = entry_of [OF ok assms(2), where k = op]
    have cw: "wrap64 (calls ?o + 1) = calls ?o + 1"
      using eo(1) assms(3) by (intro wrap64_id) (auto simp: entry_ok_def int64_def)
    have e1: "entry_ok (n + 1) op e" using eo(1) cw by (auto simp: entry_ok_def e_def)
    have e2: "wrap64 (cnt y e) = wrap64 (counted y (sopmap s) op + gain y op ev)" for y
      using eo(2) [of y] EvDone by (cases y) (simp_all add: e_def)
    have st': "stat_step range_of ev st = (s\<lparr>sopmap := (sopmap s)(op \<mapsto> e)\<rparr>, c)"
      using st EvDone by (simp add: stat_step_def sessIncrOpStats_def e_def Let_def IncrInt64_def AddInt64_def)
    have g: "(if k = op then gain x op ev else 0) = gain x k ev" using EvDone by simp
    have gs: "(0, gain NFails op ev, gain NErrors op ev) = gains ev" using EvDone by simp
    show ?thesis using put_entry(1) [OF ok e1 e2] put_entry(2) [OF ok e1 e2, where j = k and c = c and x = x]
      put_entry(3) [OF ok e1 e2, where c = c] st st' g gs by simp
  next
    case (EvFlush nano force)
    obtain s' c' where f: "flushOpStats nano force (range_of (sopmap s)) s c = (s', c')" by (metis surj_pair)
    have "map_order (sopmap s) (range_of (sopmap s))" using assms(4) ok by (simp add: ranges_def sess_ok_def)
    note kept = flushOpStats_kept [OF ok assms(2) this f]
    have st': "stat_step range_of ev st = (s', c')" using st EvFlush f by (simp add: stat_step_def)
    have "so_far x k (s, c) = wrap64 (so_far x k (s, c))" by (simp add: so_far_def)
    moreover have "totals (s, c) = add3 (totals (s, c)) (0, 0, 0)" by (simp add: totals_def add3_def)
    ultimately show ?thesis using kept(1) [where x = x and k = k] kept(2) up [OF kept(3)] st st' EvFlush by simp
  qed
  then show "sess_ok (n + 1) (fst (stat_step range_of ev st))"
    "so_far x k (stat_step range_of ev st) = wrap64 (so_far x k st + gain x k ev)"
    "totals (stat_step range_of ev st) = add3 (totals st) (gains ev)"
    by auto
qed

definition run_stats :: "((string \<rightharpoonup> opStats) \<Rightarrow> string list) \<Rightarrow> statEvent list \<Rightarrow> sessStats \<times> cmdStats \<Rightarrow> sessStats \<times> cmdStats" where
  "run_stats range_of evs st = fold (stat_step range_of) evs st"


lemma run_stats_counts:
  assumes "sess_ok n (fst st)" "0 \<le> n" "n + int (length evs) < 2 ^ 63" "ranges range_of"
  shows "sess_ok (n + int (length evs)) (fst (run_stats range_of evs st))
    \<and> wrap64 (so_far x k (run_stats range_of evs st)) = wrap64 (so_far x k st + sum_list (map (gain x k) evs))
    \<and> add3 (totals (run_stats range_of evs st)) (0, 0, 0) =
        add3 (totals st) (sum_list (map (fst \<circ> gains) evs), sum_list (map (fst \<circ> snd \<circ> gains) evs), sum_list (map (snd \<circ> snd \<circ> gains) evs))"
  using assms
proof (induction evs arbitrary: n st)
  case Nil
  then show ?case by (simp add: run_stats_def)
next
  case (Cons ev evs)
  have n: "n + 1 < 2 ^ 63" "n + 1 + int (length evs) < 2 ^ 63" using Cons.prems(3) by simp_all
  note s = stat_step_counts [OF Cons.prems(1,2) n(1) Cons.prems(4), where ev = ev]
  from Cons.IH [OF s(1) _ n(2) Cons.prems(4)] Cons.prems(2) show ?case
    using s(2) [of x k] s(3)
    by (simp add: run_stats_def add3_def algebra_simps)
qed

text \<open>
  C17. Every operation is counted exactly once. Whatever a session does (requests, replies,
  failures, refusals) and however often it moves its counts to the proxy's, throwing its own map
  away when it has grown: after a last forced flush the proxy's calls, times, failures and error
  replies of every command, and its totals, have grown by exactly what happened.
\<close>

theorem stats_exact:
  assumes "ranges range_of" "int (length evs) < 2 ^ 63 - 1" "run_stats range_of (evs @ [EvFlush nano True]) (new_sessStats, c) = (s', c')"
  shows "wrap64 (counted x (opmap c') k) = wrap64 (counted x (opmap c) k + sum_list (map (gain x k) evs)) \<and>
    wrap64 (cTotal c') = wrap64 (cTotal c + int (length (filter (\<lambda>e. e = EvTotal) evs))) \<and>
    wrap64 (cFails c') = wrap64 (cFails c + int (length (filter (\<lambda>e. e = EvReject \<or> (\<exists>op. e = EvFail op)) evs))) \<and>
    wrap64 (cErrors c') = wrap64 (cErrors c + int (length (filter (\<lambda>e. \<exists>now op t0. e = EvDone now op t0 TypeError) evs)))"
proof -
  have ok: "sess_ok 0 (fst (new_sessStats, c))" by (simp add: sess_ok_def new_sessStats_def)
  have len: "0 + int (length evs) < 2 ^ 63" "int (length evs) + 1 < 2 ^ 63" using assms(2) by simp_all
  obtain s1 c1 where r: "run_stats range_of evs (new_sessStats, c) = (s1, c1)" by (metis surj_pair)
  note a = run_stats_counts [OF ok _ len(1) assms(1), where x = x and k = k, simplified r, simplified]
  have f: "flushOpStats nano True (range_of (sopmap s1)) s1 c1 = (s', c')"
    using assms(3) r by (simp add: run_stats_def stat_step_def)
  have ord: "map_order (sopmap s1) (range_of (sopmap s1))" using a assms(1) by (simp add: ranges_def sess_ok_def)
  have ok1: "sess_ok (int (length evs)) s1" using a by simp
  note k = flushOpStats_kept [OF ok1 _ ord f, simplified]
  have z: "counted y (sopmap s') j = 0" for y j using counted_idle [OF k(3)] k(4) by blast
  have az: "allcounted y (sopmap s') = 0" for y by (simp add: allcounted_def z)
  have new: "counted y (sopmap new_sessStats) j = 0" "allcounted y (sopmap new_sessStats) = 0" "sTotal new_sessStats = 0" "sFails new_sessStats = 0" for y j
    by (simp_all add: new_sessStats_def counted_def allcounted_def)
  have g: "sum_list (map (fst \<circ> gains) evs) = int (length (filter (\<lambda>e. e = EvTotal) evs))"
    "sum_list (map (fst \<circ> snd \<circ> gains) evs) = int (length (filter (\<lambda>e. e = EvReject \<or> (\<exists>op. e = EvFail op)) evs))"
    "sum_list (map (snd \<circ> snd \<circ> gains) evs) = int (length (filter (\<lambda>e. \<exists>now op t0. e = EvDone now op t0 TypeError) evs))"
  proof (induction evs)
    case (Cons e evs)
    { case 1 then show ?case using Cons(1) by (cases e) simp_all }
    { case 2 then show ?case using Cons(2) by (cases e) simp_all }
    { case 3 then show ?case using Cons(3) by (cases e) simp_all }
  qed simp_all
  have "wrap64 (so_far x k (s', c')) = wrap64 (counted x (opmap c) k + sum_list (map (gain x k) evs))"
    using a k(1) [where x = x and k = k] new(1) by (simp add: so_far_def)
  moreover have "add3 (totals (s', c')) (0, 0, 0) = add3 (totals (new_sessStats, c))
      (int (length (filter (\<lambda>e. e = EvTotal) evs)), int (length (filter (\<lambda>e. e = EvReject \<or> (\<exists>op. e = EvFail op)) evs)),
       int (length (filter (\<lambda>e. \<exists>now op t0. e = EvDone now op t0 TypeError) evs)))"
    using a k(2) g by simp
  ultimately show ?thesis
    using z [of x k] az new k(4) by (simp add: so_far_def totals_def add3_def)
qed


definition sorted_range :: "(string \<rightharpoonup> opStats) \<Rightarrow> string list" where
  "sorted_range m = sorted_list_of_set (dom m)"

lemma sorted_range_ranges: "ranges sorted_range"
  by (simp add: ranges_def sorted_range_def map_order_def)

definition no_stats :: cmdStats where
  "no_stats = \<lparr>opmap = Map.empty, cTotal = 0, cFails = 0, cErrors = 0\<rparr>"

theorem stats_exact_witness:
  "wrap64 (counted NCalls (opmap (snd (run_stats sorted_range ([EvTotal, EvDone 5 ''GET'' 2 TypeError, EvFlush 6 False, EvTotal, EvDone 9 ''GET'' 7 TypeInt] @ [EvFlush 9 True])
     (new_sessStats, no_stats)))) ''GET'') = 2"
proof -
  let ?evs = "[EvTotal, EvDone 5 ''GET'' 2 TypeError, EvFlush 6 False, EvTotal, EvDone 9 ''GET'' 7 TypeInt]"
  obtain s' c' where r: "run_stats sorted_range (?evs @ [EvFlush 9 True]) (new_sessStats, no_stats) = (s', c')"
    by (metis surj_pair)
  have "int (length ?evs) < 2 ^ 63 - 1" by simp
  from stats_exact [OF sorted_range_ranges this r, where x = NCalls and k = "''GET''"]
  have "wrap64 (counted NCalls (opmap c') ''GET'') = 2" by (simp add: counted_def no_stats_def int64_def)
  then show ?thesis using r by simp
qed

subsection \<open>The report and the sessions\<close>

text \<open>Each entry of the proxy's map is named by its key; this is all \<open>GetOpStatsAll\<close> needs.\<close>

definition named :: "cmdStats \<Rightarrow> bool" where
  "named c \<longleftrightarrow> (\<forall>k s. opmap c k = Some s \<longrightarrow> opstr s = k)"

lemma named_incr [inv_preserved]: "named c \<Longrightarrow> incrOpStats e c = (e', c') \<Longrightarrow> named c'"
  by (auto simp: named_def incrOpStats_def getOpStats_def new_opStats_def Let_def split: option.splits if_splits)

lemma views_of: 
  assumes "named c" "set ord \<subseteq> dom (opmap c)"
  shows "map OpStr (concat (map (\<lambda>k. case opmap c k of None \<Rightarrow> [] | Some s \<Rightarrow> [OpStats s]) ord)) = ord"
  using assms(2)
proof (induction ord)
  case (Cons k ord)
  then obtain s where "opmap c k = Some s" by auto
  moreover from this have "OpStr (OpStats s) = k" using assms(1) by (simp add: named_def OpStats_def Let_def)
  ultimately show ?case using Cons by simp
qed simp

lemma report_sorted:
  assumes "named c" "map_order (opmap c) ord"
  shows "sorted_wrt (<) (map OpStr (GetOpStatsAll ord c))" "set (GetOpStatsAll ord c) = OpStats ` ran (opmap c)"
proof -
  let ?l = "concat (map (\<lambda>k. case opmap c k of None \<Rightarrow> [] | Some s \<Rightarrow> [OpStats s]) ord)"
  have keys: "map OpStr ?l = ord" using views_of [OF assms(1)] assms(2) by (simp add: map_order_def)
  have "distinct (map OpStr ?l)" using keys assms(2) by (simp only: map_order_def)
  then have "distinct (map OpStr (GetOpStatsAll ord c))" unfolding GetOpStatsAll_def distinct_map by (simp only: distinct_sort set_sort)
  moreover have "sorted (map OpStr (GetOpStatsAll ord c))" by (simp add: GetOpStatsAll_def)
  ultimately show "sorted_wrt (<) (map OpStr (GetOpStatsAll ord c))" by (simp add: strict_sorted_iff)
  show "set (GetOpStatsAll ord c) = OpStats ` ran (opmap c)"
    using assms(2) by (force simp: GetOpStatsAll_def map_order_def ran_def split: option.splits)
qed

text \<open>
  The report of the command statistics does not depend on the order in which the map is
  visited: it has one line for every command counted, in strictly increasing order of names.
\<close>

theorem GetOpStatsAll_sorted:
  assumes "named c" "map_order (opmap c) ord" "map_order (opmap c) ord'"
  shows "GetOpStatsAll ord c = GetOpStatsAll ord' c \<and> sorted_wrt (<) (map OpStr (GetOpStatsAll ord c)) \<and>
    set (GetOpStatsAll ord c) = OpStats ` ran (opmap c)"
proof -
  have inj: "inj_on OpStr (OpStats ` ran (opmap c))"
    using assms(1) by (auto simp: inj_on_def ran_def named_def OpStats_def Let_def)
  note r = report_sorted [OF assms(1,2)] and r' = report_sorted [OF assms(1,3)]
  have "map OpStr (GetOpStatsAll ord c) = map OpStr (GetOpStatsAll ord' c)"
    using r r' by (intro sorted_distinct_set_unique) (auto simp: strict_sorted_iff)
  then have "GetOpStatsAll ord c = GetOpStatsAll ord' c"
    using map_inj_on [of OpStr "GetOpStatsAll ord c" "GetOpStatsAll ord' c"] r(2) r'(2) inj by simp
  then show ?thesis using r by blast
qed

definition two_stats :: cmdStats where
  "two_stats = no_stats\<lparr>opmap := [''SET'' \<mapsto> new_opStats ''SET'', ''GET'' \<mapsto> new_opStats ''GET'']\<rparr>"

theorem GetOpStatsAll_sorted_witness:
  "GetOpStatsAll [''SET'', ''GET''] two_stats = GetOpStatsAll [''GET'', ''SET''] two_stats \<and>
   sorted_wrt (<) (map OpStr (GetOpStatsAll [''SET'', ''GET''] two_stats))"
proof -
  have "named two_stats" by (simp add: named_def two_stats_def new_opStats_def)
  moreover have "map_order (opmap two_stats) [''SET'', ''GET'']" "map_order (opmap two_stats) [''GET'', ''SET'']"
    by (auto simp: map_order_def two_stats_def)
  ultimately show ?thesis using GetOpStatsAll_sorted [of two_stats "[''SET'', ''GET'']" "[''GET'', ''SET'']"] by blast
qed

lemma sessions_back: "int64 (sessAlive s) \<Longrightarrow> sessAlive (decrSessions (snd (incrSessions s))) = sessAlive s"
  by (simp add: incrSessions_def decrSessions_def IncrInt64_def DecrInt64_def AddInt64_def Let_def)

end
