(* ===== verification/Pool.thy ===== *)
theory Pool
  imports Request
begin

section \<open>Shared backend connections and their pool\<close>

text \<open>
  Models \<open>SharedBackendConn\<close> and \<open>SharedBackendConnPool\<close> of \<open>pkg/proxy/pool.go\<close>. A
  \<open>*SharedBackendConn\<close> is an address into a store, since zones and the pool share and mutate it;
  a \<open>*BackendConn\<close> is a number. \<open>bcClosed\<close> are the backend connections on which \<open>Close\<close> has been
  called. The result \<open>None\<close> of an operation is a panic of the code.
\<close>

record sharedConn =
  saddr :: string
  sconns :: "nat list list"
  ssingle :: "nat list option"
  refcnt :: int

record pool =
  heap :: "nat \<rightharpoonup> sharedConn"
  ppool :: "string \<rightharpoonup> nat"
  parallel :: nat
  numDatabases :: nat
  nextPtr :: nat
  nextBC :: nat
  bcClosed :: "nat set"

definition NewSharedBackendConnPool :: "nat \<Rightarrow> int \<Rightarrow> pool" where
  "NewSharedBackendConnPool ndb par =
     \<lparr>heap = Map.empty, ppool = Map.empty, parallel = nat (MaxInt 1 par), numDatabases = ndb,
      nextPtr = 0, nextBC = 0, bcClosed = {}\<rparr>"

text \<open>The rows of connections: one row per database, \<open>parallel\<close> new connections in each.\<close>

definition conn_rows :: "nat \<Rightarrow> nat \<Rightarrow> nat \<Rightarrow> nat list list" where
  "conn_rows start ndb par = map (\<lambda>db. map (\<lambda>i. start + db * par + i) [0..<par]) [0..<ndb]"

definition newSharedBackendConn :: "string \<Rightarrow> pool \<Rightarrow> nat \<times> pool" where
  "newSharedBackendConn addr p =
     (let rows = conn_rows (nextBC p) (numDatabases p) (parallel p);
          s = \<lparr>saddr = addr, sconns = rows,
               ssingle = (if parallel p = 1 then Some (map (\<lambda>row. row ! 0) rows) else None), refcnt = 1\<rparr>
      in (nextPtr p, p\<lparr>heap := (heap p)(nextPtr p \<mapsto> s), nextPtr := nextPtr p + 1,
                       nextBC := nextBC p + numDatabases p * parallel p\<rparr>))"

definition Addr :: "sharedConn option \<Rightarrow> string" where
  "Addr s = (case s of None \<Rightarrow> [] | Some c \<Rightarrow> saddr c)"

text \<open>\<open>Release\<close> and \<open>Retain\<close> on a pointer; a nil pointer is \<open>None\<close>.\<close>

definition ReleaseConn :: "nat option \<Rightarrow> pool \<Rightarrow> pool option" where
  "ReleaseConn ptr p =
     (case ptr of
        None \<Rightarrow> Some p
      | Some a \<Rightarrow>
          (case heap p a of
             None \<Rightarrow> None
           | Some s \<Rightarrow>
               if refcnt s \<le> 0 then None
               else
                 (let s' = s\<lparr>refcnt := refcnt s - 1\<rparr>; p1 = p\<lparr>heap := (heap p)(a \<mapsto> s')\<rparr> in
                  if refcnt s' \<noteq> 0 then Some p1
                  else Some (p1\<lparr>bcClosed := bcClosed p1 \<union> set (concat (sconns s)),
                                ppool := (ppool p1)(saddr s := None)\<rparr>))))"

definition RetainConn :: "nat option \<Rightarrow> pool \<Rightarrow> (nat option \<times> pool) option" where
  "RetainConn ptr p =
     (case ptr of
        None \<Rightarrow> Some (None, p)
      | Some a \<Rightarrow>
          (case heap p a of
             None \<Rightarrow> None
           | Some s \<Rightarrow>
               if refcnt s \<le> 0 then None
               else Some (Some a, p\<lparr>heap := (heap p)(a \<mapsto> s\<lparr>refcnt := refcnt s + 1\<rparr>)\<rparr>)))"

definition PoolGet :: "string \<Rightarrow> pool \<Rightarrow> nat option" where
  "PoolGet addr p = ppool p addr"

definition PoolRetain :: "string \<Rightarrow> pool \<Rightarrow> (nat \<times> pool) option" where
  "PoolRetain addr p =
     (case ppool p addr of
        Some a \<Rightarrow>
          (case RetainConn (Some a) p of Some (Some a', p') \<Rightarrow> Some (a', p') | _ \<Rightarrow> None)
      | None \<Rightarrow>
          (let (a, p1) = newSharedBackendConn addr p in Some (a, p1\<lparr>ppool := (ppool p1)(addr \<mapsto> a)\<rparr>)))"

text \<open>
  \<open>BackendConn(database, seed, must)\<close>; \<open>up\<close> says which connections are connected. The outer
  \<open>None\<close> is the panic of an index out of range, the inner one the nil result.
\<close>

primrec pick_loop :: "nat \<Rightarrow> nat \<Rightarrow> nat list \<Rightarrow> (nat \<Rightarrow> bool) \<Rightarrow> nat option" where
  "pick_loop 0 i row up = None"
| "pick_loop (Suc k) i row up =
     (let j = (i + 1) mod length row in
      if up (row ! j) then Some (row ! j) else pick_loop k j row up)"

definition BackendConn :: "int \<Rightarrow> nat \<Rightarrow> bool \<Rightarrow> (nat \<Rightarrow> bool) \<Rightarrow> sharedConn option \<Rightarrow> nat option option" where
  "BackendConn database seed must up s =
     (case s of
        None \<Rightarrow> Some None
      | Some c \<Rightarrow>
          (case ssingle c of
             Some single \<Rightarrow>
               if database < 0 \<or> int (length single) \<le> database then None
               else (let bc = single ! nat database in if must \<or> up bc then Some (Some bc) else Some None)
           | None \<Rightarrow>
               if database < 0 \<or> int (length (sconns c)) \<le> database then None
               else
                 (let row = sconns c ! nat database in
                  case pick_loop (length row) seed row up of
                    Some bc \<Rightarrow> Some (Some bc)
                  | None \<Rightarrow> if \<not> must then Some None
                            else if row = [] then None else Some (Some (row ! 0)))))"

subsection \<open>The selected connection\<close>

lemma pick_loop_up: "pick_loop k i row up = Some bc \<Longrightarrow> row \<noteq> [] \<Longrightarrow> bc \<in> set row \<and> up bc"
  by (induction k arbitrary: i) (auto simp: Let_def split: if_splits)

lemma pick_loop_none:
  assumes "pick_loop k i row up = None" "row \<noteq> []"
  shows "\<forall>j \<in> {1..k}. \<not> up (row ! ((i + j) mod length row))"
  using assms
proof (induction k arbitrary: i)
  case 0
  then show ?case by simp
next
  case (Suc k)
  have h: "\<not> up (row ! ((i + 1) mod length row))" and r: "pick_loop k ((i + 1) mod length row) row up = None"
    using Suc.prems(1) by (auto simp: Let_def split: if_splits)
  have IH: "\<forall>j \<in> {1..k}. \<not> up (row ! ((i + 1 + j) mod length row))"
    using Suc.IH [OF r Suc.prems(2)] by (simp add: mod_add_left_eq)
  show ?case
  proof
    fix j assume "j \<in> {1..Suc k}"
    then show "\<not> up (row ! ((i + j) mod length row))"
      using h IH by (cases "j = 1") (auto simp: Suc_le_eq elim: allE [of _ "j - 1"] dest!: bspec [of _ _ "j - 1"])
  qed
qed

text \<open>\<open>length row\<close> rounds visit every connection of the row.\<close>

lemma rounds_cover:
  assumes "j < n"
  shows "\<exists>k \<in> {1..n}. (i + k) mod n = (j :: nat)"
proof -
  let ?k = "(j + (n - i mod n)) mod n"
  have n: "0 < n" using assms by simp
  have "(i + ?k) mod n = (i mod n + (j + (n - i mod n))) mod n" by (simp add: mod_simps)
  also have "i mod n + (j + (n - i mod n)) = j + n" using mod_less_divisor [OF n, of i] by simp
  finally have e: "(i + ?k) mod n = j" using assms by simp
  show ?thesis
  proof (cases "?k = 0")
    case True
    then have "(i + n) mod n = j" using e by simp
    then show ?thesis using n by (intro bexI [of _ n]) auto
  next
    case False
    then show ?thesis using e n mod_less_divisor [OF n, of "j + (n - i mod n)"] by (intro bexI [of _ ?k]) auto
  qed
qed

lemma pick_loop_all:
  assumes "pick_loop (length row) i row up = None" "bc \<in> set row"
  shows "\<not> up bc"
proof -
  obtain j where j: "j < length row" "bc = row ! j" using assms(2) by (auto simp: in_set_conv_nth)
  then obtain k where "k \<in> {1..length row}" "(i + k) mod length row = j" using rounds_cover by blast
  moreover have "row \<noteq> []" using assms(2) by auto
  ultimately show ?thesis using pick_loop_none [OF assms(1)] j by (metis)
qed

lemma BackendConn_must:
  assumes "0 \<le> database" "database < int (length (sconns s))" "\<forall>row \<in> set (sconns s). row \<noteq> []"
    "ssingle s = (if par = 1 then Some (map (\<lambda>row. row ! 0) (sconns s)) else None)"
  shows "\<exists>bc. BackendConn database seed True up (Some s) = Some (Some bc) \<and> bc \<in> set (sconns s ! nat database)
    \<and> (par \<noteq> 1 \<longrightarrow> (\<exists>c \<in> set (sconns s ! nat database). up c) \<longrightarrow> up bc)"
proof -
  have db: "nat database < length (sconns s)" using assms(1,2) by simp
  have row: "sconns s ! nat database \<noteq> []" using assms(3) db by simp
  show ?thesis
  proof (cases "par = 1")
    case True
    then show ?thesis using assms db row by (simp add: BackendConn_def Let_def)
  next
    case False
    let ?row = "sconns s ! nat database"
    show ?thesis
    proof (cases "pick_loop (length ?row) seed ?row up")
      case None
      have "\<forall>c \<in> set ?row. \<not> up c" using pick_loop_all [OF None] by blast
      then show ?thesis using False assms(1,2,4) row None by (auto simp: BackendConn_def Let_def)
    next
      case (Some bc)
      then show ?thesis using False assms(1,2,4) row pick_loop_up [OF Some row] by (auto simp: BackendConn_def Let_def)
    qed
  qed
qed

subsection \<open>Reference counts\<close>

text \<open>
  \<open>refs a\<close>: how many references to connection \<open>a\<close> are held by zones and others. The invariant
  ties the counter, the pool's map and the state of the backend connections to it.
\<close>

definition bcs :: "sharedConn \<Rightarrow> nat set" where
  "bcs s = set (concat (sconns s))"

definition pool_inv :: "(nat \<Rightarrow> nat) \<Rightarrow> pool \<Rightarrow> bool" where
  "pool_inv refs p \<longleftrightarrow>
     (\<forall>a s. heap p a = Some s \<longrightarrow> refcnt s = int (refs a) \<and> a < nextPtr p \<and> (\<forall>c \<in> bcs s. c < nextBC p)) \<and>
     (\<forall>a. heap p a = None \<longrightarrow> refs a = 0) \<and>
     (\<forall>addr a. ppool p addr = Some a \<longleftrightarrow> (\<exists>s. heap p a = Some s \<and> saddr s = addr \<and> 0 < refs a)) \<and>
     (\<forall>a s. heap p a = Some s \<longrightarrow> 0 < refs a \<longrightarrow> bcs s \<inter> bcClosed p = {}) \<and>
     (\<forall>a s. heap p a = Some s \<longrightarrow> refs a = 0 \<longrightarrow> bcs s \<subseteq> bcClosed p) \<and>
     (\<forall>a b s t. heap p a = Some s \<longrightarrow> heap p b = Some t \<longrightarrow> a \<noteq> b \<longrightarrow> bcs s \<inter> bcs t = {}) \<and>
     (\<forall>c \<in> bcClosed p. c < nextBC p)"

lemma pool_inv_new: "pool_inv (\<lambda>_. 0) (NewSharedBackendConnPool ndb par)"
  by (simp add: pool_inv_def NewSharedBackendConnPool_def)

lemma pool_count: "pool_inv refs p \<Longrightarrow> heap p a = Some s \<Longrightarrow> refcnt s = int (refs a)"
  and pool_ptr: "pool_inv refs p \<Longrightarrow> heap p a = Some s \<Longrightarrow> a < nextPtr p"
  and pool_bc: "pool_inv refs p \<Longrightarrow> heap p a = Some s \<Longrightarrow> c \<in> bcs s \<Longrightarrow> c < nextBC p"
  and pool_unheld: "pool_inv refs p \<Longrightarrow> heap p a = None \<Longrightarrow> refs a = 0"
  and pool_open: "pool_inv refs p \<Longrightarrow> heap p a = Some s \<Longrightarrow> 0 < refs a \<Longrightarrow> bcs s \<inter> bcClosed p = {}"
  and pool_closed: "pool_inv refs p \<Longrightarrow> heap p a = Some s \<Longrightarrow> refs a = 0 \<Longrightarrow> bcs s \<subseteq> bcClosed p"
  and pool_apart: "pool_inv refs p \<Longrightarrow> heap p a = Some s \<Longrightarrow> heap p b = Some t \<Longrightarrow> a \<noteq> b \<Longrightarrow> bcs s \<inter> bcs t = {}"
  and pool_closed_old: "pool_inv refs p \<Longrightarrow> c \<in> bcClosed p \<Longrightarrow> c < nextBC p"
  by (simp_all add: pool_inv_def)

lemma pool_map: "pool_inv refs p \<Longrightarrow> ppool p addr = Some a \<longleftrightarrow> (\<exists>s. heap p a = Some s \<and> saddr s = addr \<and> 0 < refs a)"
  unfolding pool_inv_def by (elim conjE allE) assumption

lemma conn_rows_range: "c \<in> set (concat (conn_rows start ndb par)) \<Longrightarrow> start \<le> c \<and> c < start + ndb * par"
proof -
  assume "c \<in> set (concat (conn_rows start ndb par))"
  then obtain row where row: "row \<in> set (conn_rows start ndb par)" "c \<in> set row" by auto
  then obtain db where "db < ndb" "row = map (\<lambda>i. start + db * par + i) [0..<par]"
    unfolding conn_rows_def set_map set_upt by auto
  then have c: "db < ndb" "start + db * par \<le> c" "c < start + db * par + par" using row(2) by auto
  have "db * par + par = Suc db * par" by simp
  also have "\<dots> \<le> ndb * par" using c(1) by (simp only: mult_le_mono1 Suc_leI)
  finally have "db * par + par \<le> ndb * par" .
  then show ?thesis using c(2,3) by simp
qed

lemma bcs_refcnt [simp]: "bcs (s\<lparr>refcnt := n\<rparr>) = bcs s"
  by (simp add: bcs_def)

text \<open>Changing the count of one connection that stays referenced.\<close>

lemma pool_inv_count:
  assumes "pool_inv refs p" "heap p a = Some s" "0 < refs a" "0 < n"
  shows "pool_inv (refs(a := n)) (p\<lparr>heap := (heap p)(a \<mapsto> s\<lparr>refcnt := int n\<rparr>)\<rparr>)"
  unfolding pool_inv_def
proof (intro conjI allI impI ballI, goal_cases)
  case (1 b t) then show ?case using pool_count [OF assms(1)] by (auto split: if_splits)
next
  case (2 b t) then show ?case using pool_ptr [OF assms(1)] assms(2) by (auto split: if_splits)
next
  case (3 b t c) then show ?case using pool_bc [OF assms(1)] assms(2) by (auto split: if_splits)
next
  case (4 b) then show ?case using pool_unheld [OF assms(1)] by (auto split: if_splits)
next
  case (5 ad b) then show ?case using pool_map [OF assms(1), of ad b] assms(2-4) by auto
next
  case (6 b t) then show ?case using pool_open [OF assms(1), of b] pool_open [OF assms(1-3)] by (auto split: if_splits simp del: Int_emptyI)
next
  case (7 b t) then show ?case using pool_closed [OF assms(1)] assms(4) by (auto split: if_splits)
next
  case (8 b d t u)
  then have "\<exists>t' u'. heap p b = Some t' \<and> heap p d = Some u' \<and> bcs t = bcs t' \<and> bcs u = bcs u'"
    using assms(2) by (auto split: if_splits)
  then show ?case using pool_apart [OF assms(1)] 8(3) by metis
next
  case (9 c) then show ?case using pool_closed_old [OF assms(1)] by auto
qed

lemma PoolRetain_old:
  assumes "pool_inv refs p" "ppool p addr = Some a"
  shows "\<exists>p'. PoolRetain addr p = Some (a, p') \<and> pool_inv (refs(a := Suc (refs a))) p'
    \<and> (\<exists>s. heap p' a = Some s \<and> saddr s = addr)"
proof -
  obtain s where s: "heap p a = Some s" "saddr s = addr" "0 < refs a"
    using pool_map [OF assms(1), of addr a] assms(2) by auto
  have n: "refcnt s + 1 = int (Suc (refs a))" "\<not> refcnt s \<le> 0" using pool_count [OF assms(1) s(1)] s(3) by simp_all
  have "PoolRetain addr p = Some (a, p\<lparr>heap := (heap p)(a \<mapsto> s\<lparr>refcnt := int (Suc (refs a))\<rparr>)\<rparr>)"
    using assms(2) s(1) n(2) unfolding PoolRetain_def RetainConn_def n(1) [symmetric] by simp
  then show ?thesis using pool_inv_count [OF assms(1) s(1,3), of "Suc (refs a)"] s(2) by simp
qed

lemma PoolRetain_new:
  assumes "pool_inv refs p" "ppool p addr = None"
  shows "\<exists>a p'. PoolRetain addr p = Some (a, p') \<and> pool_inv (refs(a := Suc (refs a))) p'
    \<and> (\<exists>s. heap p' a = Some s \<and> saddr s = addr)"
proof -
  let ?a = "nextPtr p" and ?rows = "conn_rows (nextBC p) (numDatabases p) (parallel p)"
  obtain s p1 where new: "newSharedBackendConn addr p = (?a, p1)" "heap p1 = (heap p)(?a \<mapsto> s)" "saddr s = addr"
    "sconns s = ?rows" "refcnt s = 1" "ppool p1 = ppool p" "nextPtr p1 = Suc ?a" "bcClosed p1 = bcClosed p"
    "nextBC p1 = nextBC p + numDatabases p * parallel p"
    by (auto simp: newSharedBackendConn_def Let_def)
  have free: "heap p ?a = None" using pool_ptr [OF assms(1), of ?a] by (cases "heap p ?a") auto
  have fresh: "refs ?a = 0" using pool_unheld [OF assms(1) free] .
  have range: "nextBC p \<le> c \<and> c < nextBC p1" if "c \<in> bcs s" for c
    using conn_rows_range [of c] that new(4,9) by (simp add: bcs_def)
  have "pool_inv (refs(?a := Suc (refs ?a))) (p1\<lparr>ppool := (ppool p1)(addr \<mapsto> ?a)\<rparr>)"
    unfolding pool_inv_def
  proof (intro conjI allI impI ballI, goal_cases)
    case (1 a t) then show ?case using new(2,5) fresh pool_count [OF assms(1)] by (auto split: if_splits)
  next
    case (2 a t) then show ?case using new(2,7) pool_ptr [OF assms(1)] by (auto split: if_splits intro: less_SucI)
  next
    case (3 a t c)
    then show ?case using new(2,9) range pool_bc [OF assms(1)] by (auto split: if_splits intro: trans_less_add1)
  next
    case (4 a) then show ?case using new(2) pool_unheld [OF assms(1)] by (auto split: if_splits)
  next
    case (5 ad a)
    show ?case using new(2,3,6) free fresh assms(2) pool_map [OF assms(1), of ad a] by auto
  next
    case (6 a t)
    then show ?case
    proof (cases "a = ?a")
      case True
      then have "t = s" using 6 new(2) by simp
      then show ?thesis using range pool_closed_old [OF assms(1)] new(8) by fastforce
    next
      case False
      then show ?thesis using 6 new(2,8) pool_open [OF assms(1), of a t] by simp
    qed
  next
    case (7 a t) then show ?case using new(2,8) pool_closed [OF assms(1)] by (auto split: if_splits)
  next
    case (8 a b t u)
    have "bcs s \<inter> bcs v = {}" if "heap p d = Some v" for d v
      using range pool_bc [OF assms(1) that] by fastforce
    then show ?case using 8 new(2) pool_apart [OF assms(1), of a t b u] by (auto split: if_splits)
  next
    case (9 c) then show ?case using new(8,9) pool_closed_old [OF assms(1)] by (auto intro: trans_less_add1)
  qed
  then show ?thesis using assms(2) new(1,2,3) by (simp add: PoolRetain_def)
qed

lemma PoolRetain_inv:
  assumes "pool_inv refs p"
  shows "\<exists>a p'. PoolRetain addr p = Some (a, p') \<and> pool_inv (refs(a := Suc (refs a))) p'
    \<and> (\<exists>s. heap p' a = Some s \<and> saddr s = addr)"
  using PoolRetain_old [OF assms] PoolRetain_new [OF assms] by (cases "ppool p addr") blast+

lemma ReleaseConn_last:
  assumes "pool_inv refs p" "heap p a = Some s" "refs a = 1"
  shows "pool_inv (refs(a := 0)) (p\<lparr>heap := (heap p)(a \<mapsto> s\<lparr>refcnt := 0\<rparr>), bcClosed := bcClosed p \<union> bcs s,
    ppool := (ppool p)(saddr s := None)\<rparr>)"
  unfolding pool_inv_def
proof (intro conjI allI impI ballI, goal_cases)
  case (1 b t) then show ?case using pool_count [OF assms(1)] by (auto split: if_splits)
next
  case (2 b t) then show ?case using pool_ptr [OF assms(1)] assms(2) by (auto split: if_splits)
next
  case (3 b t c) then show ?case using pool_bc [OF assms(1)] assms(2) by (auto split: if_splits)
next
  case (4 b) then show ?case using pool_unheld [OF assms(1)] by (auto split: if_splits)
next
  case (5 ad b)
  have "ppool p (saddr s) = Some a" using pool_map [OF assms(1)] assms(2,3) by simp
  then show ?case using pool_map [OF assms(1), of ad b] assms(2) by auto
next
  case (6 b t)
  then have "b \<noteq> a" "heap p b = Some t" "0 < refs b" by (auto split: if_splits)
  then have "bcs t \<inter> bcClosed p = {}" "bcs t \<inter> bcs s = {}"
    using pool_open [OF assms(1)] pool_apart [OF assms(1) _ assms(2)] by blast+
  then show ?case by auto
next
  case (7 b t) then show ?case using pool_closed [OF assms(1), of b t] by (auto split: if_splits)
next
  case (8 b d t u)
  then have "\<exists>t' u'. heap p b = Some t' \<and> heap p d = Some u' \<and> bcs t = bcs t' \<and> bcs u = bcs u'"
    using assms(2) by (auto split: if_splits)
  then show ?case using pool_apart [OF assms(1)] 8(3) by metis
next
  case (9 c) then show ?case using pool_closed_old [OF assms(1)] pool_bc [OF assms(1,2)] by auto
qed

lemma ReleaseConn_inv:
  assumes "pool_inv refs p" "0 < refs a"
  shows "\<exists>p'. ReleaseConn (Some a) p = Some p' \<and> pool_inv (refs(a := refs a - 1)) p'"
proof -
  obtain s where s: "heap p a = Some s" using pool_unheld [OF assms(1), of a] assms(2) by (cases "heap p a") auto
  have n: "refcnt s = int (refs a)" using pool_count [OF assms(1) s] .
  show ?thesis
  proof (cases "refs a = 1")
    case False
    then have m: "refcnt s - 1 = int (refs a - 1)" "0 < refs a - 1" "\<not> refcnt s \<le> 0" using n assms(2) by auto
    have "ReleaseConn (Some a) p = Some (p\<lparr>heap := (heap p)(a \<mapsto> s\<lparr>refcnt := int (refs a - 1)\<rparr>)\<rparr>)"
    proof -
      have "refcnt s - 1 \<noteq> 0" using m(1,2) by simp
      then show ?thesis using s m(3) unfolding ReleaseConn_def m(1) [symmetric] by (simp add: Let_def)
    qed
    then show ?thesis using pool_inv_count [OF assms(1) s assms(2) m(2)] by simp
  next
    case True
    have "ReleaseConn (Some a) p = Some (p\<lparr>heap := (heap p)(a \<mapsto> s\<lparr>refcnt := 0\<rparr>), bcClosed := bcClosed p \<union> bcs s,
        ppool := (ppool p)(saddr s := None)\<rparr>)"
      using s n True by (simp add: ReleaseConn_def bcs_def Let_def)
    then show ?thesis using ReleaseConn_last [OF assms(1) s True] True by simp
  qed
qed

subsection \<open>Holders of references\<close>

text \<open>
  What the zones and \<open>FillZone\<close> do with the pool: take a reference by address, give one back
  that they hold. \<open>refs\<close> counts the references held.
\<close>

inductive pool_step :: "(nat \<Rightarrow> nat) \<times> pool \<Rightarrow> (nat \<Rightarrow> nat) \<times> pool \<Rightarrow> bool" where
  step_retain: "PoolRetain addr p = Some (a, p') \<Longrightarrow> pool_step (refs, p) (refs(a := Suc (refs a)), p')"
| step_release: "0 < refs a \<Longrightarrow> ReleaseConn (Some a) p = Some p' \<Longrightarrow> pool_step (refs, p) (refs(a := refs a - 1), p')"

lemma pool_step_inv [inv_preserved]: "pool_step s s' \<Longrightarrow> pool_inv (fst s) (snd s) \<Longrightarrow> pool_inv (fst s') (snd s')"
proof (induction rule: pool_step.induct)
  case (step_retain addr p a p' refs)
  then show ?case using PoolRetain_inv [of refs p addr] by (auto simp del: fun_upd_apply)
next
  case (step_release refs a p p')
  then show ?case using ReleaseConn_inv [of refs p a] by (auto simp del: fun_upd_apply)
qed

interpretation refs: trans_sys "\<lambda>s. \<exists>ndb par. s = (\<lambda>_. 0, NewSharedBackendConnPool ndb par)" pool_step
    "\<lambda>s. pool_inv (fst s) (snd s)"
  by unfold_locales (auto simp: pool_inv_new intro: pool_step_inv simp del: split_paired_All)

text \<open>
  C11. Reference counting is exact. Whatever references zones take and give back, the pool never
  panics; a shared connection is in the pool, with its counter at the number of its holders and
  all its backend connections open, exactly as long as somebody holds it, and once nobody does
  its backend connections are all closed.
\<close>

theorem refcount_exact:
  assumes "pool_step\<^sup>*\<^sup>* (\<lambda>_. 0, NewSharedBackendConnPool ndb par) (refs, p)"
  shows "(\<forall>addr. PoolRetain addr p \<noteq> None)
    \<and> (\<forall>a. 0 < refs a \<longrightarrow> ReleaseConn (Some a) p \<noteq> None)
    \<and> (\<forall>a s. heap p a = Some s \<longrightarrow>
         refcnt s = int (refs a) \<and>
         (if 0 < refs a then ppool p (saddr s) = Some a \<and> bcs s \<inter> bcClosed p = {}
          else ppool p (saddr s) \<noteq> Some a \<and> bcs s \<subseteq> bcClosed p))"
proof -
  have "pool_inv (fst (refs, p)) (snd (refs, p))" by (rule refs.reach_inv [OF _ assms]) blast
  then have inv: "pool_inv refs p" by simp
  have "PoolRetain addr p \<noteq> None" for addr using PoolRetain_inv [OF inv, of addr] by auto
  moreover have "0 < refs a \<longrightarrow> ReleaseConn (Some a) p \<noteq> None" for a using ReleaseConn_inv [OF inv, of a] by auto
  moreover have "if 0 < refs a then ppool p (saddr s) = Some a \<and> bcs s \<inter> bcClosed p = {}
      else ppool p (saddr s) \<noteq> Some a \<and> bcs s \<subseteq> bcClosed p" if "heap p a = Some s" for a s
    using that pool_map [OF inv, of "saddr s" a] pool_open [OF inv that] pool_closed [OF inv that] by simp
  ultimately show ?thesis using pool_count [OF inv] by blast
qed

theorem refcount_exact_witness:
  "PoolRetain ''h:1'' (NewSharedBackendConnPool 16 1) \<noteq> None"
  using refcount_exact [OF rtranclp.rtrancl_refl, of "16" "1"] by blast

text \<open>
  A connection is always found. For a database in range a request that must be served gets
  a connection of that database; with several parallel connections it gets a connected one
  whenever there is one, whatever its seed.
\<close>

theorem BackendConn_selects:
  assumes "0 < par" "0 \<le> database" "database < int ndb"
    "heap (snd (newSharedBackendConn addr (NewSharedBackendConnPool ndb par))) 0 = Some s"
  shows "\<exists>bc. BackendConn database seed True up (Some s) = Some (Some bc)
    \<and> bc \<in> set (sconns s ! nat database)
    \<and> (par \<noteq> 1 \<longrightarrow> (\<exists>c \<in> set (sconns s ! nat database). up c) \<longrightarrow> up bc)"
proof -
  have s: "sconns s = conn_rows 0 ndb (nat par)"
    "ssingle s = (if nat par = 1 then Some (map (\<lambda>row. row ! 0) (sconns s)) else None)"
    using assms(1,4) by (auto simp: newSharedBackendConn_def NewSharedBackendConnPool_def Let_def max_def)
  have len: "length (sconns s) = ndb" by (simp add: s(1) conn_rows_def)
  have rows: "\<forall>row \<in> set (sconns s). row \<noteq> []"
    using assms(1) by (auto simp: s(1) conn_rows_def)
  have "database < int (length (sconns s))" using assms(3) len by simp
  from BackendConn_must [OF assms(2) this rows s(2), of seed up] show ?thesis using assms(1) by auto
qed

theorem BackendConn_selects_witness:
  "\<exists>bc. BackendConn 1 7 True (\<lambda>c. c = 5) (Some \<lparr>saddr = ''h:1'', sconns = conn_rows 0 2 3, ssingle = None, refcnt = 1\<rparr>) = Some (Some bc)
    \<and> bc \<in> set (conn_rows 0 2 3 ! nat 1) \<and> ((3::int) \<noteq> 1 \<longrightarrow> (\<exists>c \<in> set (conn_rows 0 2 3 ! nat 1). c = 5) \<longrightarrow> bc = 5)"
  using BackendConn_selects [of 3 1 2 "''h:1''" "\<lparr>saddr = ''h:1'', sconns = conn_rows 0 2 3, ssingle = None, refcnt = 1\<rparr>" 7 "\<lambda>c. c = 5"]
  by (simp add: newSharedBackendConn_def NewSharedBackendConnPool_def Let_def)

end
