(* ===== verification/Zones.thy ===== *)
theory Zones
  imports Pool
begin

section \<open>Zones\<close>

text \<open>
  Models \<open>pkg/proxy/zones.go\<close>: a zone (data centre) is a prefix of keys and a shared backend
  connection. Forwarding picks a backend connection of the pool and pushes the request on it.

  The functions of this theory and of the router run one request at a time. What the backend
  connection \<open>bc\<close> does with a pushed request is the parameter \<open>srv bc\<close> on a world \<open>'w\<close>: the
  answer that \<open>Batch.Wait\<close> later finds, and the world after it. \<open>Dropped\<close> is the request that
  found the queue full: its fields are left as they were.
\<close>

datatype outcome = Replied resp | Failed goerror | Dropped

definition deliver :: "outcome \<Rightarrow> request \<Rightarrow> request" where
  "deliver out r =
     (case out of
        Replied x \<Rightarrow> r\<lparr>rResp := Some x, rErr := None\<rparr>
      | Failed e \<Rightarrow> r\<lparr>rResp := None, rErr := Some e\<rparr>
      | Dropped \<Rightarrow> r)"

lemma deliver_fields [simp]:
  "rMulti (deliver out r) = rMulti r" "getKey (deliver out r) = getKey r" "rOpStr (deliver out r) = rOpStr r"
  by (simp_all add: deliver_def getKey_def split: outcome.split)

record zone =
  zid :: int
  zbc :: "nat option"
  zsentinel :: bool
  zaddrs :: "string list"
  zmaster :: string
  zprefix :: string

definition NewZone :: "int \<Rightarrow> nat option \<Rightarrow> string \<Rightarrow> bool \<Rightarrow> string list \<Rightarrow> string \<Rightarrow> zone" where
  "NewZone i conn prefix sentinel addrs master =
     \<lparr>zid = i, zbc = conn, zsentinel = sentinel, zaddrs = addrs, zmaster = master, zprefix = prefix\<rparr>"

text \<open>A result \<open>None\<close> is a panic. The environment: the pool, the connected connections, the seeds.\<close>

record 'w net =
  npool :: pool
  nup :: "nat \<Rightarrow> bool"
  nseed :: "request \<Rightarrow> nat"
  nsrv :: "nat \<Rightarrow> request \<Rightarrow> 'w \<Rightarrow> outcome \<times> 'w"

definition shared_of :: "pool \<Rightarrow> nat option \<Rightarrow> sharedConn option" where
  "shared_of p ptr = (case ptr of None \<Rightarrow> None | Some a \<Rightarrow> heap p a)"

definition zprocess :: "'w net \<Rightarrow> zone \<Rightarrow> request \<Rightarrow> nat option option" where
  "zprocess n z r = BackendConn (rDatabase r) (nseed n r) True (nup n) (shared_of (npool n) (zbc z))"

text \<open>\<open>Forward\<close> and \<open>ForwardAsync\<close>: pushing on a nil or closed backend connection panics.\<close>

definition Forward :: "'w net \<Rightarrow> zone \<Rightarrow> request \<Rightarrow> 'w \<Rightarrow> request option \<times> 'w" where
  "Forward n z r w =
     (case zprocess n z r of
        Some (Some bc) \<Rightarrow>
          if bc \<in> bcClosed (npool n) then (None, w)
          else (case nsrv n bc r w of (out, w') \<Rightarrow> (Some (deliver out r), w'))
      | _ \<Rightarrow> (None, w))"

definition ForwardAsync :: "'w net \<Rightarrow> zone \<Rightarrow> request \<Rightarrow> 'w \<Rightarrow> request option \<times> 'w" where
  "ForwardAsync n z r w =
     (case zprocess n z r of
        Some (Some bc) \<Rightarrow>
          if bc \<in> bcClosed (npool n) then (None, w)
          else (case nsrv n bc r w of (out, w') \<Rightarrow> (Some (deliver out r), w'))
      | _ \<Rightarrow> (None, w))"

definition ChangeConn :: "nat option \<Rightarrow> zone \<Rightarrow> pool \<Rightarrow> (zone \<times> pool) option" where
  "ChangeConn conn z p =
     (case ReleaseConn (zbc z) p of None \<Rightarrow> None | Some p' \<Rightarrow> Some (z\<lparr>zbc := conn\<rparr>, p'))"

text \<open>The fields of \<open>models.Zone\<close>, and the snapshot of a zone (its connection to database 0).\<close>

record mzone =
  mzId :: int
  mzAddrs :: string
  mzPrefix :: string
  mzIsSentinel :: bool
  mzMasterName :: string
  mzIsConnected :: bool

definition snapshot :: "pool \<Rightarrow> (nat \<Rightarrow> bool) \<Rightarrow> zone \<Rightarrow> mzone option" where
  "snapshot p up z =
     (case BackendConn 0 0 True up (shared_of p (zbc z)) of
        Some (Some bc) \<Rightarrow>
          Some \<lparr>mzId = 0, mzAddrs = Addr (shared_of p (zbc z)), mzPrefix = zprefix z, mzIsSentinel = zsentinel z,
                mzMasterName = zmaster z, mzIsConnected = up bc\<rparr>
      | _ \<Rightarrow> None)"

subsection \<open>Splitting strings\<close>

text \<open>
  \<open>strings.Split\<close> with a separator that is not empty. An empty separator splits into UTF-8
  characters, which is the parameter \<open>explode\<close>.
\<close>

function split_str :: "string \<Rightarrow> string \<Rightarrow> string \<Rightarrow> string list" where
  "split_str sep acc s =
     (if sep \<noteq> [] \<and> has_prefix s sep then acc # split_str sep [] (drop (length sep) s)
      else (case s of [] \<Rightarrow> [acc] | c # cs \<Rightarrow> split_str sep (acc @ [c]) cs))"
  by pat_completeness auto
termination
proof (relation "measure (\<lambda>(sep, acc, s). length s)", goal_cases)
  case (2 sep acc s)
  then have a: "sep \<noteq> []" and b: "take (length sep) s = sep" by (auto simp: has_prefix_def)
  have "0 < length sep" using a by simp
  moreover have "length sep \<le> length s" using arg_cong [OF b, of length] by (simp add: min_def split: if_splits)
  ultimately have "length s - length sep < length s" by (intro diff_less) auto
  then show ?case by simp
qed auto

declare split_str.simps [simp del]

definition StringsSplit :: "(string \<Rightarrow> string list) \<Rightarrow> string \<Rightarrow> string \<Rightarrow> string list" where
  "StringsSplit explode s sep = (if sep = [] then explode s else split_str sep [] s)"

text \<open>\<open>occurs sep s\<close>: the separator is somewhere in the string.\<close>

definition occurs :: "string \<Rightarrow> string \<Rightarrow> bool" where
  "occurs sep s \<longleftrightarrow> (\<exists>a b. s = a @ sep @ b)"

lemma occurs_Cons: "\<not> occurs sep (c # cs) \<Longrightarrow> \<not> occurs sep cs"
  unfolding occurs_def by (metis append_Cons)

lemma not_occurs_prefix: "\<not> occurs sep s \<Longrightarrow> \<not> has_prefix s sep"
  unfolding occurs_def has_prefix_def by (metis append.left_neutral append_take_drop_id)

lemma split_str_none: "\<not> occurs sep s \<Longrightarrow> split_str sep acc s = [acc @ s]"
proof (induction s arbitrary: acc)
  case Nil
  then show ?case using not_occurs_prefix [of sep "[]"] by (simp add: split_str.simps [of sep acc "[]"])
next
  case (Cons c cs)
  then show ?case using not_occurs_prefix [of sep "c # cs"] occurs_Cons [of sep c cs]
    by (simp add: split_str.simps [of sep acc "c # cs"])
qed

text \<open>A separator at the first place it can be: it ends the first piece.\<close>

lemma split_str_first:
  assumes "sep \<noteq> []" "\<And>a b. p @ sep = a @ sep @ b \<Longrightarrow> a = p"
  shows "split_str sep acc (p @ sep @ rest) = (acc @ p) # split_str sep [] rest"
  using assms(2)
proof (induction p arbitrary: acc)
  case Nil
  then show ?case using assms(1) by (subst split_str.simps) simp
next
  case (Cons c p)
  have "\<not> has_prefix (c # p @ sep @ rest) sep"
  proof
    assume h: "has_prefix (c # p @ sep @ rest) sep"
    then have "take (length sep) ((c # p @ sep) @ rest) = sep" by (simp add: has_prefix_def)
    then have "take (length sep) (c # p @ sep) = sep" by (simp only: take_append) simp
    then have "(c # p) @ sep = [] @ sep @ drop (length sep) (c # p @ sep)" by (metis append_Cons append_Nil append_take_drop_id)
    then show False using Cons.prems by blast
  qed
  moreover have "a = p" if "p @ sep = a @ sep @ b" for a b
    using Cons.prems [of "c # a" b] that by simp
  ultimately show ?case using Cons.IH [of "acc @ [c]"] by (subst split_str.simps) simp
qed

lemma GetAddrs_one: "CHR '','' \<notin> set s \<Longrightarrow> StringsSplit ex s '','' = [s]"
  by (auto simp: StringsSplit_def occurs_def intro!: split_str_none [of "'',''" s "[]", simplified])

definition GetAddrs :: "mzone \<Rightarrow> string list" where
  "GetAddrs z = StringsSplit (\<lambda>_. []) (mzAddrs z) '',''"

end
