(* ===== verification/Transaction.thy ===== *)
theory Transaction
  imports Zones
begin

section \<open>The transaction over all zones\<close>

text \<open>
  Models \<open>pkg/proxy/transaction.go\<close>: a SET without a zone prefix is written in every zone, each
  zone's component keeping the value it found for a rollback. A component owns the request it
  forwards; in the component of the current zone it is the request of the client itself. The
  wait groups that the requests built on the way are given start at the address \<open>b\<close>.
\<close>

record setTrx =
  tzone :: zone
  tflag :: bool
  treq :: request
  oldV :: string

text \<open>
  \<open>execed\<close> holds the same pointers as \<open>trans\<close>, so it is given by how many there are: \<open>Exec\<close>
  appends the components of \<open>trans\<close> in order.
\<close>

record transaction =
  trans :: "setTrx list"
  execed :: nat

definition new_transaction :: transaction where
  "new_transaction = \<lparr>trans = [], execed = 0\<rparr>"

definition Prepare :: "setTrx \<Rightarrow> transaction \<Rightarrow> transaction" where
  "Prepare c t = t\<lparr>trans := trans t @ [c]\<rparr>"

text \<open>
  The methods of a component. The first part of a result is \<open>None\<close> when the method panics;
  reading the value of a reply that never came is such a panic.
\<close>

definition TrxExec :: "'w net \<Rightarrow> nat \<Rightarrow> setTrx \<Rightarrow> 'w \<Rightarrow> goerror option option \<times> setTrx \<times> 'w" where
  "TrxExec n b c w =
     (case Forward n (tzone c) (GetRequest b (getKey (treq c))) w of
        (None, w1) \<Rightarrow> (None, c, w1)
      | (Some greq, w1) \<Rightarrow>
          (case rResp greq of
             None \<Rightarrow> (None, c, w1)
           | Some v \<Rightarrow>
               (let c1 = c\<lparr>oldV := text_of (rvalue v)\<rparr> in
                case Forward n (tzone c) (treq c1) w1 of
                  (None, w2) \<Rightarrow> (None, c1, w2)
                | (Some q, w2) \<Rightarrow> (Some None, c1\<lparr>treq := q\<rparr>, w2))))"

definition TrxCheck :: "setTrx \<Rightarrow> bool option \<times> setTrx" where
  "TrxCheck c =
     (case rResp (treq c) of
        None \<Rightarrow> (None, c)
      | Some v \<Rightarrow>
          (let c' = (if rvalue v = Some ''OK'' then c\<lparr>tflag := True\<rparr> else c) in (Some (tflag c'), c')))"

definition TrxRollback :: "'w net \<Rightarrow> nat \<Rightarrow> setTrx \<Rightarrow> 'w \<Rightarrow> unit option \<times> 'w" where
  "TrxRollback n b c w =
     (if oldV c \<noteq> [] then
        (case Forward n (tzone c) (SetRequest b (getKey (treq c)) (oldV c) (-1)) w of
           (q, w1) \<Rightarrow> (map_option (\<lambda>_. ()) q, w1))
      else
        (case Forward n (tzone c) (DELRequest b (getKey (treq c))) w of
           (q, w1) \<Rightarrow> (map_option (\<lambda>_. ()) q, w1)))"

subsection \<open>The transaction\<close>

text \<open>The loops; the middle part of a result of \<open>exec_loop\<close> is what ran and what did not.\<close>

fun exec_loop :: "'w net \<Rightarrow> nat \<Rightarrow> setTrx list \<Rightarrow> setTrx list \<Rightarrow> 'w
    \<Rightarrow> goerror option option \<times> (setTrx list \<times> setTrx list) \<times> 'w" where
  "exec_loop n b done [] w = (Some None, (done, []), w)"
| "exec_loop n b done (c # cs) w =
     (case TrxExec n b c w of
        (None, c', w') \<Rightarrow> (None, (done, c' # cs), w')
      | (Some (Some e), c', w') \<Rightarrow> (Some (Some e), (done, c' # cs), w')
      | (Some None, c', w') \<Rightarrow> exec_loop n (b + 1) (done @ [c']) cs w')"

definition Exec :: "'w net \<Rightarrow> nat \<Rightarrow> transaction \<Rightarrow> 'w \<Rightarrow> goerror option \<times> transaction \<times> 'w" where
  "Exec n b t w =
     (case exec_loop n b [] (trans t) w of
        (res, (fin, rest), w') \<Rightarrow>
          (case res of None \<Rightarrow> Some (ErrVar ErrTransCmptExec) | Some err \<Rightarrow> err,
           t\<lparr>trans := fin @ rest, execed := length fin\<rparr>, w'))"

fun check_loop :: "setTrx list \<Rightarrow> goerror option \<times> setTrx list" where
  "check_loop [] = (None, [])"
| "check_loop (c # cs) =
     (case TrxCheck c of
        (None, c') \<Rightarrow> (Some (ErrVar ErrTransCmptCheck), c' # cs)
      | (Some success, c') \<Rightarrow>
          if \<not> success then (Some (ErrVar ErrTransCmptCheck), c' # cs)
          else (let (err, cs') = check_loop cs in (err, c' # cs')))"

definition Commit :: "transaction \<Rightarrow> goerror option \<times> transaction" where
  "Commit t =
     (if execed t \<noteq> length (trans t) then (Some (ErrVar ErrTransCommit), t)
      else (let (err, cs) = check_loop (trans t) in (err, t\<lparr>trans := cs\<rparr>)))"

fun rollback_loop :: "'w net \<Rightarrow> nat \<Rightarrow> setTrx list \<Rightarrow> 'w \<Rightarrow> unit option \<times> 'w" where
  "rollback_loop n b [] w = (Some (), w)"
| "rollback_loop n b (c # cs) w =
     (case TrxRollback n b c w of
        (None, w') \<Rightarrow> (None, w')
      | (Some _, w') \<Rightarrow> rollback_loop n (b + 1) cs w')"

definition Rollback :: "'w net \<Rightarrow> nat \<Rightarrow> transaction \<Rightarrow> 'w \<Rightarrow> unit option \<times> 'w" where
  "Rollback n b t w = rollback_loop n b (take (execed t) (trans t)) w"

subsection \<open>What the zones promise\<close>

text \<open>
  The contract of the stores behind the zones, over a view \<open>val\<close> of the string a zone holds
  under a key: a GET changes nothing and an answer to it is the string (empty when there is
  none), the SET and DEL of a rollback take effect, and a client's SET, whatever its outcome,
  writes at most its own key in its own zone, and has written the value when the answer is OK.
\<close>

type_synonym 'w view = "'w \<Rightarrow> zone \<Rightarrow> string \<Rightarrow> string option"

definition put_at :: "zone \<Rightarrow> string \<Rightarrow> string option \<Rightarrow> (zone \<Rightarrow> string \<Rightarrow> string option) \<Rightarrow> zone \<Rightarrow> string \<Rightarrow> string option" where
  "put_at z k v m = m(z := (m z)(k := v))"

definition set_value :: "request \<Rightarrow> string" where
  "set_value q = text_of (rvalue (rMulti q ! 2))"

definition replied_ok :: "request \<Rightarrow> bool" where
  "replied_ok q \<longleftrightarrow> (\<exists>v. rResp q = Some v \<and> rvalue v = Some ''OK'')"

definition get_law :: "'w net \<Rightarrow> 'w view \<Rightarrow> zone \<Rightarrow> bool" where
  "get_law n val z \<longleftrightarrow> (\<forall>w b k g w'. Forward n z (GetRequest b k) w = (g, w') \<longrightarrow>
     val w' = val w \<and> (\<forall>q v. g = Some q \<longrightarrow> rResp q = Some v \<longrightarrow> text_of (rvalue v) = text_of (val w z k)))"

definition set_law :: "'w net \<Rightarrow> 'w view \<Rightarrow> zone \<Rightarrow> bool" where
  "set_law n val z \<longleftrightarrow> (\<forall>w b k s. \<exists>q w'.
     Forward n z (SetRequest b k s (-1)) w = (Some q, w') \<and> val w' = put_at z k (Some s) (val w))"

definition del_law :: "'w net \<Rightarrow> 'w view \<Rightarrow> zone \<Rightarrow> bool" where
  "del_law n val z \<longleftrightarrow> (\<forall>w b k. \<exists>q w'.
     Forward n z (DELRequest b k) w = (Some q, w') \<and> val w' = put_at z k None (val w))"

definition client_law :: "'w net \<Rightarrow> 'w view \<Rightarrow> zone \<Rightarrow> bool" where
  "client_law n val z \<longleftrightarrow> (\<forall>w q q' w'. rOpStr q = ''SET'' \<longrightarrow> rResp q = None \<longrightarrow>
     Forward n z q w = (Some q', w') \<longrightarrow>
     (\<exists>s. val w' = put_at z (getKey q) s (val w) \<and> (replied_ok q' \<longrightarrow> s = Some (set_value q))))"

definition redis_zones :: "'w net \<Rightarrow> zone set \<Rightarrow> 'w view \<Rightarrow> bool" where
  "redis_zones n Z val \<longleftrightarrow> (\<forall>z \<in> Z. get_law n val z \<and> set_law n val z \<and> del_law n val z \<and> client_law n val z)"

lemma zones_get:
  assumes "redis_zones n Z val" "z \<in> Z" "Forward n z (GetRequest b k) w = (g, w')"
  shows "val w' = val w" "g = Some q \<Longrightarrow> rResp q = Some v \<Longrightarrow> text_of (rvalue v) = text_of (val w z k)"
proof -
  have "get_law n val z" using assms(1,2) by (simp add: redis_zones_def)
  note h = this [unfolded get_law_def, rule_format, OF assms(3)]
  show "val w' = val w" using h by (rule conjunct1)
  show "g = Some q \<Longrightarrow> rResp q = Some v \<Longrightarrow> text_of (rvalue v) = text_of (val w z k)" using h by blast
qed

lemma zones_set:
  assumes "redis_zones n Z val" "z \<in> Z"
  obtains q w' where "Forward n z (SetRequest b k s (-1)) w = (Some q, w')" "val w' = put_at z k (Some s) (val w)"
proof -
  have "set_law n val z" using assms by (simp add: redis_zones_def)
  from this [unfolded set_law_def, rule_format, of b k s w] show ?thesis using that by blast
qed

lemma zones_del:
  assumes "redis_zones n Z val" "z \<in> Z"
  obtains q w' where "Forward n z (DELRequest b k) w = (Some q, w')" "val w' = put_at z k None (val w)"
proof -
  have "del_law n val z" using assms by (simp add: redis_zones_def)
  from this [unfolded del_law_def, rule_format, of b k w] show ?thesis using that by blast
qed

lemma zones_client:
  assumes "redis_zones n Z val" "z \<in> Z" "rOpStr q = ''SET''" "rResp q = None" "Forward n z q w = (Some q', w')"
  obtains s where "val w' = put_at z (getKey q) s (val w)" "replied_ok q' \<longrightarrow> s = Some (set_value q)"
proof -
  have "client_law n val z" using assms(1,2) by (simp add: redis_zones_def)
  from this [unfolded client_law_def, rule_format, OF assms(3-5)] show ?thesis using that by blast
qed

lemma Forward_cases:
  assumes "Forward n z r w = (q, w')"
  obtains "q = None" "w' = w" | out where "q = Some (deliver out r)"
  using assms unfolding Forward_def by (auto split: option.splits if_splits prod.splits)

subsection \<open>Executing, checking, rolling back\<close>

text \<open>What is known of a component that ran: \<open>old\<close> is the view of the stores before it.\<close>

definition ran_ok :: "(zone \<Rightarrow> string \<Rightarrow> string option) \<Rightarrow> (zone \<Rightarrow> string \<Rightarrow> string option) \<Rightarrow> string \<Rightarrow> string \<Rightarrow> setTrx \<Rightarrow> bool" where
  "ran_ok old now k v c \<longleftrightarrow>
     getKey (treq c) = k \<and> oldV c = text_of (old (tzone c) k) \<and> \<not> tflag c \<and>
     (replied_ok (treq c) \<longrightarrow> now (tzone c) k = Some v)"

definition fresh_trx :: "string \<Rightarrow> string \<Rightarrow> setTrx \<Rightarrow> bool" where
  "fresh_trx k v c \<longleftrightarrow> getKey (treq c) = k \<and> set_value (treq c) = v \<and> rOpStr (treq c) = ''SET'' \<and> rResp (treq c) = None \<and> \<not> tflag c"

lemma TrxExec_spec:
  assumes "redis_zones n Z val" "tzone c \<in> Z" "fresh_trx k v c" "TrxExec n b c w = (res, c', w')"
  shows "tzone c' = tzone c \<and> (res = None \<and> val w' = val w \<or>
    res = Some None \<and> (\<exists>s. val w' = put_at (tzone c) k s (val w)) \<and> ran_ok (val w) (val w') k v c')"
proof (cases "Forward n (tzone c) (GetRequest b k) w")
  case (Pair g w1)
  have fr: "getKey (treq c) = k" "rOpStr (treq c) = ''SET''" "rResp (treq c) = None" "set_value (treq c) = v" "\<not> tflag c"
    using assms(3) by (simp_all add: fresh_trx_def)
  note get = zones_get [OF assms(1,2) Pair]
  show ?thesis
  proof (cases "\<exists>q x. g = Some q \<and> rResp q = Some x")
    case False
    then have "res = None" "c' = c" "w' = w1"
      using assms(4) Pair fr(1) by (auto simp: TrxExec_def split: option.splits)
    then show ?thesis using get(1) by simp
  next
    case True
    then obtain q x where q: "g = Some q" "rResp q = Some x" by blast
    have old: "text_of (rvalue x) = text_of (val w (tzone c) k)" using get(2) [OF q] .
    obtain p w2 where f: "Forward n (tzone c) (treq c) w1 = (p, w2)" by (rule prod.exhaust)
    show ?thesis
    proof (cases p)
      case None
      have "w2 = w1" using None by (cases rule: Forward_cases [OF f]) simp_all
      moreover have "res = None" "w' = w2" "tzone c' = tzone c"
        using assms(4) Pair q fr(1) f None by (auto simp: TrxExec_def Let_def)
      ultimately show ?thesis using get(1) by simp
    next
      case (Some p')
      obtain s where s: "val w2 = put_at (tzone c) (getKey (treq c)) s (val w1)" "replied_ok p' \<longrightarrow> s = Some (set_value (treq c))"
        by (rule zones_client [OF assms(1,2) fr(2,3) f [unfolded Some]])
      have k': "getKey p' = k" using fr(1) Some by (cases rule: Forward_cases [OF f]) auto
      have r: "res = Some None" "w' = w2" "c' = c\<lparr>oldV := text_of (rvalue x), treq := p'\<rparr>"
        using assms(4) Pair q fr(1) f Some by (auto simp: TrxExec_def Let_def)
      have "ran_ok (val w) (val w2) k v c'" using s r(3) k' old fr get(1) by (simp add: ran_ok_def put_at_def)
      then show ?thesis using r s(1) fr(1) get(1) by auto
    qed
  qed
qed

lemma ran_ok_cong:
  "ran_ok old now k v c \<Longrightarrow> old' (tzone c) k = old (tzone c) k \<Longrightarrow> now' (tzone c) k = now (tzone c) k \<Longrightarrow>
   ran_ok old' now' k v c"
  by (simp add: ran_ok_def)

lemma exec_loop_grows: "exec_loop n b done cs w = (res, (fin, rest), w') \<Longrightarrow> \<exists>more. fin = done @ more"
  by (induction cs arbitrary: "done" b w) (fastforce split: prod.splits option.splits)+

lemma exec_loop_spec:
  assumes "redis_zones n Z val" "\<forall>c \<in> set cs. tzone c \<in> Z \<and> fresh_trx k v c" "distinct (map tzone (done @ cs))"
    "\<forall>c \<in> set done. ran_ok old (val w) k v c" "\<forall>c \<in> set cs. val w (tzone c) k = old (tzone c) k"
    "exec_loop n b done cs w = (res, (fin, rest), w')"
  shows "map tzone (fin @ rest) = map tzone (done @ cs) \<and> (\<forall>c \<in> set fin. ran_ok old (val w') k v c)
    \<and> (res = Some None \<and> rest = [] \<or> res = None)
    \<and> (\<forall>z k'. k' \<noteq> k \<or> z \<notin> tzone ` set fin \<longrightarrow> val w' z k' = val w z k')"
  using assms(2-6)
proof (induction cs arbitrary: "done" b w)
  case Nil
  then show ?case by auto
next
  case (Cons c cs)
  obtain r1 c1 w1 where e: "TrxExec n b c w = (r1, c1, w1)" by (rule prod_cases3)
  have c: "tzone c \<in> Z" "fresh_trx k v c" using Cons.prems(1) by simp_all
  note step = TrxExec_spec [OF assms(1) c e]
  have z1: "tzone c1 = tzone c" using step by (rule conjunct1)
  show ?case
  proof (cases r1)
    case None
    then have "val w1 = val w" using step by simp
    moreover have "res = None" "fin = done" "rest = c1 # cs" "w' = w1" using Cons.prems(5) e None by auto
    ultimately show ?thesis using Cons.prems(3) z1 by auto
  next
    case (Some err)
    then obtain s where st: "err = None" "val w1 = put_at (tzone c) k s (val w)" "ran_ok (val w) (val w1) k v c1"
      using step by auto
    have e': "exec_loop n (b + 1) (done @ [c1]) cs w1 = (res, (fin, rest), w')" using Cons.prems(5) e Some st(1) by simp
    have "tzone c \<notin> tzone ` (set done \<union> set cs)" using Cons.prems(2) by auto
    then have dist: "tzone d \<noteq> tzone c" if "d \<in> set done \<union> set cs" for d using that by (metis imageI)
    have same: "val w1 (tzone d) k = val w (tzone d) k" if "d \<in> set done \<union> set cs" for d
      using dist [OF that] st(2) by (simp add: put_at_def)
    have "ran_ok old (val w1) k v c1"
      by (rule ran_ok_cong [OF st(3)]) (use Cons.prems(4) z1 in simp_all)
    moreover have "ran_ok old (val w1) k v d" if d: "d \<in> set done" for d
    proof (rule ran_ok_cong)
      show "ran_ok old (val w) k v d" using Cons.prems(3) d by simp
    qed (use same d in simp_all)
    ultimately have "\<forall>d \<in> set (done @ [c1]). ran_ok old (val w1) k v d" by auto
    moreover have "distinct (map tzone ((done @ [c1]) @ cs))" using Cons.prems(2) z1 by simp
    moreover have "\<forall>d \<in> set cs. val w1 (tzone d) k = old (tzone d) k" using Cons.prems(4) same by simp
    ultimately have IH: "map tzone (fin @ rest) = map tzone ((done @ [c1]) @ cs) \<and> (\<forall>c \<in> set fin. ran_ok old (val w') k v c)
        \<and> (res = Some None \<and> rest = [] \<or> res = None)
        \<and> (\<forall>z k'. k' \<noteq> k \<or> z \<notin> tzone ` set fin \<longrightarrow> val w' z k' = val w1 z k')"
      using Cons.prems(1) e' by (intro Cons.IH) simp_all
    moreover have "tzone c \<in> tzone ` set fin" using exec_loop_grows [OF e'] z1 by auto
    then have "val w1 z k' = val w z k'" if "k' \<noteq> k \<or> z \<notin> tzone ` set fin" for z k'
      using that st(2) by (auto simp: put_at_def)
    ultimately show ?thesis using z1 by auto
  qed
qed

lemma check_loop_frame: "check_loop cs = (err, cs') \<Longrightarrow> map tzone cs' = map tzone cs \<and> map treq cs' = map treq cs \<and> map oldV cs' = map oldV cs"
  by (induction cs arbitrary: err cs') (auto simp: TrxCheck_def Let_def split: option.splits if_splits prod.splits)

lemma check_loop_ok:
  "check_loop cs = (None, cs') \<Longrightarrow> \<forall>c \<in> set cs. \<not> tflag c \<Longrightarrow> c \<in> set cs \<Longrightarrow> replied_ok (treq c)"
  by (induction cs arbitrary: cs') (auto simp: TrxCheck_def Let_def replied_ok_def split: option.splits if_splits prod.splits)

text \<open>What a component needs to be undone.\<close>

definition undoable :: "zone set \<Rightarrow> (zone \<Rightarrow> string \<Rightarrow> string option) \<Rightarrow> string \<Rightarrow> setTrx \<Rightarrow> bool" where
  "undoable Z old k c \<longleftrightarrow> tzone c \<in> Z \<and> getKey (treq c) = k \<and> oldV c = text_of (old (tzone c) k) \<and> old (tzone c) k \<noteq> Some []"

lemma TrxRollback_spec:
  assumes "redis_zones n Z val" "undoable Z old k c"
  shows "\<exists>w'. TrxRollback n b c w = (Some (), w') \<and> val w' = put_at (tzone c) k (old (tzone c) k) (val w)"
proof (cases "old (tzone c) k")
  case None
  obtain q w' where "Forward n (tzone c) (DELRequest b k) w = (Some q, w')" "val w' = put_at (tzone c) k None (val w)"
    using assms(2) by (auto simp: undoable_def intro: zones_del [OF assms(1)])
  then show ?thesis using assms(2) None by (simp add: TrxRollback_def undoable_def text_of_def)
next
  case (Some s)
  obtain q w' where "Forward n (tzone c) (SetRequest b k s (-1)) w = (Some q, w')" "val w' = put_at (tzone c) k (Some s) (val w)"
    using assms(2) by (auto simp: undoable_def intro: zones_set [OF assms(1)])
  then show ?thesis using assms(2) Some by (simp add: TrxRollback_def undoable_def text_of_def)
qed

lemma rollback_loop_spec:
  assumes "redis_zones n Z val" "\<forall>c \<in> set cs. undoable Z old k c"
  shows "\<exists>w'. rollback_loop n b cs w = (Some (), w')
    \<and> (\<forall>z k'. val w' z k' = (if k' = k \<and> z \<in> tzone ` set cs then old z k else val w z k'))"
  using assms(2)
proof (induction cs arbitrary: b w)
  case Nil
  then show ?case by simp
next
  case (Cons c cs)
  have u: "undoable Z old k c" "\<forall>d \<in> set cs. undoable Z old k d" using Cons.prems by simp_all
  obtain w1 where w1: "TrxRollback n b c w = (Some (), w1)" "val w1 = put_at (tzone c) k (old (tzone c) k) (val w)"
    using TrxRollback_spec [OF assms(1) u(1)] by blast
  obtain w2 where w2: "rollback_loop n (b + 1) cs w1 = (Some (), w2)"
    "\<forall>z k'. val w2 z k' = (if k' = k \<and> z \<in> tzone ` set cs then old z k else val w1 z k')"
    using Cons.IH [OF u(2)] by blast
  have "val w2 z k' = (if k' = k \<and> z \<in> tzone ` set (c # cs) then old z k else val w z k')" for z k'
    using w2(2) w1(2) by (cases "k' = k \<and> z \<in> tzone ` set cs") (auto simp: put_at_def)
  then show ?case using w1(1) w2(1) by simp
qed

lemma check_loop_member:
  assumes "check_loop cs = (err, ds)" "d \<in> set ds"
  obtains c where "c \<in> set cs" "tzone d = tzone c" "treq d = treq c" "oldV d = oldV c"
proof -
  note fr = check_loop_frame [OF assms(1)]
  obtain i where i: "i < length ds" "d = ds ! i" using assms(2) by (auto simp: in_set_conv_nth)
  have "length ds = length cs" using fr by (metis length_map)
  then show ?thesis using that [of "cs ! i"] fr i by (metis nth_map nth_mem)
qed

text \<open>
  The whole transaction over fresh components: it either ends without an error, and then every
  component has the answer OK, or with one, and then a rollback puts back what was there.
\<close>

lemma transaction_spec:
  assumes "redis_zones n Z val" "\<forall>c \<in> set cs. tzone c \<in> Z \<and> fresh_trx k v c" "distinct (map tzone cs)"
    "\<forall>c \<in> set cs. val w (tzone c) k \<noteq> Some []"
    "Exec n b \<lparr>trans = cs, execed = 0\<rparr> w = (err, t, w1)"
  shows "map tzone (trans t) = map tzone cs \<and> (\<forall>z k'. k' \<noteq> k \<or> z \<notin> tzone ` set cs \<longrightarrow> val w1 z k' = val w z k')"
    and "err = None \<Longrightarrow> Commit t = (None, t') \<Longrightarrow>
      map tzone (trans t') = map tzone cs \<and> (\<forall>c \<in> set (trans t'). replied_ok (treq c) \<and> val w1 (tzone c) k = Some v)"
    and "err \<noteq> None \<Longrightarrow> \<exists>w2. Rollback n b' t w1 = (Some (), w2) \<and> val w2 = val w"
    and "err = None \<Longrightarrow> Commit t = (Some e, t') \<Longrightarrow> \<exists>w2. Rollback n b' t' w1 = (Some (), w2) \<and> val w2 = val w"
proof -
  obtain res fin rest where e: "exec_loop n b [] cs w = (res, (fin, rest), w1)"
    "err = (case res of None \<Rightarrow> Some (ErrVar ErrTransCmptExec) | Some err \<Rightarrow> err)"
    "t = \<lparr>trans = fin @ rest, execed = length fin\<rparr>"
    using assms(5) by (auto simp: Exec_def split: prod.splits)
  have spec: "map tzone (fin @ rest) = map tzone ([] @ cs) \<and> (\<forall>c \<in> set fin. ran_ok (val w) (val w1) k v c)
    \<and> (res = Some None \<and> rest = [] \<or> res = None)
    \<and> (\<forall>z k'. k' \<noteq> k \<or> z \<notin> tzone ` set fin \<longrightarrow> val w1 z k' = val w z k')"
    using assms(2,3) by (intro exec_loop_spec [OF assms(1) _ _ _ _ e(1)]) auto
  then have zones: "map tzone fin @ map tzone rest = map tzone cs" by simp
  have zin: "tzone c \<in> tzone ` set cs" if "c \<in> set fin" for c
    using that zones by (metis Un_iff image_eqI image_set set_append)
  have undo: "undoable Z (val w) k c" if c: "c \<in> set fin" for c
  proof -
    obtain d where d: "tzone c = tzone d" "d \<in> set cs" using zin [OF c] by (rule imageE)
    have "ran_ok (val w) (val w1) k v c" using spec c by blast
    then show ?thesis using assms(2,4) d by (simp add: undoable_def ran_ok_def)
  qed
  have undone: "\<exists>w2. rollback_loop n b' ds w1 = (Some (), w2) \<and> val w2 = val w"
    if z: "map tzone ds = map tzone fin" and u: "\<forall>c \<in> set ds. undoable Z (val w) k c" for ds
  proof -
    obtain w2 where w2: "rollback_loop n b' ds w1 = (Some (), w2)"
      "\<forall>z k'. val w2 z k' = (if k' = k \<and> z \<in> tzone ` set ds then val w z k else val w1 z k')"
      using rollback_loop_spec [OF assms(1) u] by blast
    have "tzone ` set ds = tzone ` set fin" using z by (metis image_set)
    then have "val w2 = val w" using w2(2) spec by (intro ext) auto
    then show ?thesis using w2(1) by blast
  qed
  show "map tzone (trans t) = map tzone cs \<and> (\<forall>z k'. k' \<noteq> k \<or> z \<notin> tzone ` set cs \<longrightarrow> val w1 z k' = val w z k')"
  proof -
    have "tzone ` set fin \<subseteq> tzone ` set cs" using zin by (rule image_subsetI)
    then have "val w1 z k' = val w z k'" if "k' \<noteq> k \<or> z \<notin> tzone ` set cs" for z k'
      using spec that by (metis subsetD)
    then show ?thesis using zones e(3) by simp
  qed
  show "\<exists>w2. Rollback n b' t w1 = (Some (), w2) \<and> val w2 = val w" if "err \<noteq> None"
    using undone [of fin] undo e(3) by (simp add: Rollback_def)
  show "map tzone (trans t') = map tzone cs \<and> (\<forall>c \<in> set (trans t'). replied_ok (treq c) \<and> val w1 (tzone c) k = Some v)"
    if n: "err = None" and c: "Commit t = (None, t')"
  proof -
    have r: "rest = []" using spec n e(2) by auto
    then obtain ds where ds: "check_loop fin = (None, ds)" "trans t' = ds"
      using c e(3) by (auto simp: Commit_def split: prod.splits)
    have ok: "\<forall>c \<in> set fin. replied_ok (treq c) \<and> val w1 (tzone c) k = Some v"
      using check_loop_ok [OF ds(1)] spec by (auto simp: ran_ok_def)
    have "\<forall>c \<in> set ds. replied_ok (treq c) \<and> val w1 (tzone c) k = Some v"
      using ok by (metis check_loop_member [OF ds(1)])
    then show ?thesis using check_loop_frame [OF ds(1)] ds(2) zones r by simp
  qed
  show "\<exists>w2. Rollback n b' t' w1 = (Some (), w2) \<and> val w2 = val w" if n: "err = None" and c: "Commit t = (Some e, t')"
  proof -
    have r: "rest = []" using spec n e(2) by auto
    then obtain ds where ds: "check_loop fin = (Some e, ds)" "t' = \<lparr>trans = ds, execed = length fin\<rparr>"
      using c e(3) by (auto simp: Commit_def split: prod.splits)
    note fr = check_loop_frame [OF ds(1)]
    have "undoable Z (val w) k c" if d: "c \<in> set ds" for c
      using undo check_loop_member [OF ds(1) d] unfolding undoable_def by metis
    moreover have "length ds = length fin" using fr by (metis length_map)
    ultimately show ?thesis using undone [of ds] fr ds(2) by (simp add: Rollback_def)
  qed
qed

end
