(* ===== verification/Sizes.thy ===== *)
theory Sizes
  imports Strconv
begin

section \<open>Byte sizes and durations in the configuration\<close>

text \<open>
  Models \<open>pkg/utils/bytesize/bytesize.go\<close> and \<open>pkg/utils/timesize/timesize.go\<close>. The regular
  expressions of the code are deterministic scans: white space, a number, white space, a unit,
  white space. Floating point numbers are the parameter \<open>fl\<close>, as Isabelle's library has no
  IEEE arithmetic; integers are kept at 64 bits. \<open>HumanString\<close>, which formats floats, is left out.
\<close>

record 'f floats =
  ParseFloat :: "string \<Rightarrow> 'f option"
  Float64 :: "int \<Rightarrow> 'f"
  fmul :: "'f \<Rightarrow> 'f \<Rightarrow> 'f"
  truncInt :: "'f \<Rightarrow> int"

text \<open>Floats that parse nothing, for the witnesses.\<close>

definition no_floats :: "unit floats" where
  "no_floats = \<lparr>ParseFloat = (\<lambda>_. None), Float64 = (\<lambda>_. ()), fmul = (\<lambda>_ _. ()), truncInt = (\<lambda>_. 0)\<rparr>"

subsection \<open>The regular expressions\<close>

definition is_space :: "byte \<Rightarrow> bool" where
  "is_space c \<longleftrightarrow> c \<in> {CHR 0x09, CHR 0x0A, CHR 0x0C, CHR 0x0D, CHR '' ''}"

definition number_char :: "byte \<Rightarrow> bool" where
  "number_char c \<longleftrightarrow> is_digit c \<or> c = CHR ''.''"

definition is_lower :: "byte \<Rightarrow> bool" where
  "is_lower c \<longleftrightarrow> CHR ''a'' \<le> c \<and> c \<le> CHR ''z''"

text \<open>The two groups of \<open>^\s*(\-?[\d\.]+)\s*([a-z]+|)\s*$\<close>; \<open>None\<close> when it does not match.\<close>

definition split_size :: "string \<Rightarrow> (string \<times> string) option" where
  "split_size s =
     (let s1 = dropWhile is_space s;
          sign = (if s1 \<noteq> [] \<and> hd s1 = CHR ''-'' then ''-'' else []);
          s2 = drop (length sign) s1;
          num = takeWhile number_char s2;
          s3 = dropWhile is_space (dropWhile number_char s2);
          unit = takeWhile is_lower s3
      in if num = [] \<or> dropWhile is_space (dropWhile is_lower s3) \<noteq> [] then None
         else Some (sign @ num, unit))"

text \<open>\<open>^\-?\d+$\<close>\<close>

definition digits_only :: "string \<Rightarrow> bool" where
  "digits_only t =
     (let ds = (if t \<noteq> [] \<and> hd t = CHR ''-'' then tl t else t) in ds \<noteq> [] \<and> list_all is_digit ds)"

lemma digit_classes:
  "is_digit c \<Longrightarrow> \<not> is_space c" "is_digit c \<Longrightarrow> number_char c" "is_digit c \<Longrightarrow> \<not> is_lower c" "is_digit c \<Longrightarrow> c \<noteq> CHR ''-''"
  by (auto simp: is_space_def number_char_def is_lower_def is_digit_iff less_eq_char_of_nat)

lemma lower_classes:
  "is_lower c \<Longrightarrow> \<not> is_space c" "is_lower c \<Longrightarrow> \<not> number_char c"
  by (auto simp: is_space_def number_char_def is_lower_def is_digit_iff less_eq_char_of_nat)

lemma dropWhile_false [simp]: "(xs \<noteq> [] \<Longrightarrow> \<not> P (hd xs)) \<Longrightarrow> dropWhile P xs = xs"
  by (cases xs) auto

text \<open>A printed number followed by a unit is read back in its two parts.\<close>

lemma split_size_print:
  assumes "list_all is_lower u"
  shows "split_size (FormatInt i @ u) = Some (FormatInt i, u)"
proof -
  have u: "takeWhile number_char (ds @ u) = ds" "dropWhile number_char (ds @ u) = u" if "list_all is_digit ds" for ds
    using that assms digit_classes(2) lower_classes(2)
    by (auto simp: takeWhile_append dropWhile_append list_all_iff takeWhile_eq_Nil_iff)
  have sp: "dropWhile is_space u = u" using assms lower_classes(1) by (cases u) auto
  have tl: "takeWhile is_lower u = u" "dropWhile is_lower u = []" using assms by (auto simp: list_all_iff)
  define ds where "ds = nat_digits (nat \<bar>i\<bar>)"
  have ds: "ds \<noteq> []" "list_all is_digit ds" "is_digit (hd ds)"
    using nat_digits_all [of "nat \<bar>i\<bar>"] by (auto simp: ds_def list_all_iff)
  have i: "FormatInt i = (if i < 0 then [CHR ''-''] else []) @ ds" by (simp add: FormatInt_def ds_def)
  have hd: "\<not> is_space (hd (ds @ u))" "hd (ds @ u) \<noteq> CHR ''-''" using ds(1) digit_classes(1,4) [OF ds(3)] by simp_all
  have "\<not> is_space CHR ''-''" by (simp add: is_space_def)
  then show ?thesis using i ds(1) hd by (simp add: split_size_def Let_def u [OF ds(2)] sp tl)
qed

lemma digits_only_print: "digits_only (FormatInt i)"
proof -
  have "is_digit (hd (nat_digits n))" for n using nat_digits_all [of n] by (auto simp: list_all_iff)
  then have "hd (nat_digits n) \<noteq> CHR ''-''" for n using digit_classes(4) by blast
  then show ?thesis using nat_digits_all by (simp add: digits_only_def FormatInt_def Let_def)
qed

subsection \<open>Byte sizes\<close>

definition KB :: int where "KB = 2 ^ 10"
definition MB :: int where "MB = 2 ^ 20"
definition GB :: int where "GB = 2 ^ 30"
definition TB :: int where "TB = 2 ^ 40"
definition PB :: int where "PB = 2 ^ 50"

lemmas size_units = KB_def MB_def GB_def TB_def PB_def

definition MarshalBytesize :: "int \<Rightarrow> string" where
  "MarshalBytesize b =
     (if b = 0 then ''0''
      else
        (let a = (if b < 0 then wrap64 (- b) else b) in
         if go_mod a PB = 0 then FormatInt (go_div b PB) @ ''pb''
         else if go_mod a TB = 0 then FormatInt (go_div b TB) @ ''tb''
         else if go_mod a GB = 0 then FormatInt (go_div b GB) @ ''gb''
         else if go_mod a MB = 0 then FormatInt (go_div b MB) @ ''mb''
         else if go_mod a KB = 0 then FormatInt (go_div b KB) @ ''kb''
         else FormatInt b))"

text \<open>
  For people: \<open>fmt2 b unit\<close> is the floating point \<open>b / unit\<close> with two decimals. Every size up to the
  petabyte is a floating point number, so that the comparisons are those of integers.
\<close>

definition HumanString :: "(int \<Rightarrow> int \<Rightarrow> string) \<Rightarrow> int \<Rightarrow> string" where
  "HumanString fmt2 b =
     (if \<bar>b\<bar> > PB then fmt2 b PB @ ''pb''
      else if \<bar>b\<bar> > TB then fmt2 b TB @ ''tb''
      else if \<bar>b\<bar> > GB then fmt2 b GB @ ''gb''
      else if \<bar>b\<bar> > MB then fmt2 b MB @ ''mb''
      else if \<bar>b\<bar> > KB then fmt2 b KB @ ''kb''
      else FormatInt b)"

text \<open>Up to a kilobyte it is the number itself; a larger one is shown in a unit that is smaller than it.\<close>

lemma HumanString_unit:
  "\<bar>b\<bar> \<le> KB \<Longrightarrow> HumanString fmt2 b = FormatInt b"
  "KB < \<bar>b\<bar> \<Longrightarrow> \<exists>u s. u \<in> {KB, MB, GB, TB, PB} \<and> u < \<bar>b\<bar> \<and> HumanString fmt2 b = fmt2 b u @ s"
  by (auto simp: HumanString_def size_units)

text \<open>The units that \<open>[kmgtp]?b|[bkmgtp]|\<close> matches, and what the switch makes of them.\<close>

definition bytesize_unit :: "string \<Rightarrow> int option" where
  "bytesize_unit u =
     (if u \<in> {''b'', []} then Some 1
      else if u \<in> {''k'', ''kb''} then Some KB
      else if u \<in> {''m'', ''mb''} then Some MB
      else if u \<in> {''g'', ''gb''} then Some GB
      else if u \<in> {''t'', ''tb''} then Some TB
      else if u \<in> {''p'', ''pb''} then Some PB
      else None)"

definition unit_matches :: "string \<Rightarrow> bool" where
  "unit_matches u \<longleftrightarrow> u = [] \<or> (length u = 1 \<and> hd u \<in> set ''bkmgtp'') \<or>
     (length u = 2 \<and> hd u \<in> set ''kmgtp'' \<and> last u = CHR ''b'')"

definition ParseBytesize :: "'f floats \<Rightarrow> string \<Rightarrow> goerror + int" where
  "ParseBytesize fl s =
     (case split_size s of
        None \<Rightarrow> Inl (Trace (ErrVar ErrBadByteSize))
      | Some (txt0, u) \<Rightarrow>
          if \<not> unit_matches u then Inl (Trace (ErrVar ErrBadByteSize))
          else
            (case bytesize_unit u of
               None \<Rightarrow> Inl (Trace (ErrVar ErrBadByteSizeUnit))
             | Some m \<Rightarrow>
                 if digits_only txt0 then
                   (case ParseInt txt0 of
                      Inl _ \<Rightarrow> Inl (Trace (ErrVar ErrBadByteSize))
                    | Inr n \<Rightarrow> Inr (wrap64 (m * n)))
                 else
                   (case ParseFloat fl txt0 of
                      None \<Rightarrow> Inl (Trace (ErrVar ErrBadByteSize))
                    | Some n \<Rightarrow> Inr (truncInt fl (fmul fl (Float64 fl m) n)))))"

text \<open>\<open>UnmarshalText\<close> keeps the old value on an error; \<open>MustParse\<close> panics on one.\<close>

definition UnmarshalBytesize :: "'f floats \<Rightarrow> string \<Rightarrow> int \<Rightarrow> goerror option \<times> int" where
  "UnmarshalBytesize fl s p = (case ParseBytesize fl s of Inl e \<Rightarrow> (Some e, p) | Inr n \<Rightarrow> (None, n))"

definition MustParseBytesize :: "'f floats \<Rightarrow> string \<Rightarrow> int option" where
  "MustParseBytesize fl s = (case ParseBytesize fl s of Inl e \<Rightarrow> None | Inr n \<Rightarrow> Some n)"

lemma go_div_exact: "0 < m \<Longrightarrow> go_mod a m = 0 \<Longrightarrow> go_div a m * m = a"
  by (simp add: go_mod_def)

lemma go_div_1 [simp]: "go_div a 1 = a"
  by (cases a "0 :: int" rule: linorder_cases) (simp_all add: go_div_def)

lemma go_mod_minus: "go_mod (- a) m = - go_mod a m"
  by (simp add: go_mod_def)

lemma wrap64_minus: "int64 b \<Longrightarrow> wrap64 (- b) = (if b = - (2 ^ 63) then b else - b)"
  by (auto simp: wrap64_def int64_def)

text \<open>Both branches of the absolute value, the wrapped one included, are multiples of what \<open>b\<close> is.\<close>

lemma abs_multiple:
  assumes "int64 b" "0 < m" "go_mod (if b < 0 then wrap64 (- b) else b) m = 0"
  shows "go_div b m * m = b"
  using assms go_div_exact [of m b] by (auto simp: wrap64_minus go_mod_minus split: if_splits)

lemma go_div_int64:
  assumes "int64 b" "0 < m"
  shows "int64 (go_div b m)"
proof -
  have "\<bar>b\<bar> div m \<le> \<bar>b\<bar>" using zdiv_mono2 [of "\<bar>b\<bar>" 1 m] assms(2) by simp
  then have "\<bar>go_div b m\<bar> \<le> \<bar>b\<bar>" using assms(2) by (simp add: go_div_def abs_mult abs_sgn_eq pos_imp_zdiv_nonneg_iff)
  moreover have "b < 0 \<Longrightarrow> go_div b m \<le> 0" "0 \<le> b \<Longrightarrow> 0 \<le> go_div b m"
    using assms(2) by (simp_all add: go_div_def pos_imp_zdiv_nonneg_iff sgn_if)
  ultimately show ?thesis using assms(1) by (cases "b < 0") (auto simp: int64_def)
qed

lemma ParseBytesize_print:
  assumes "int64 b" "0 < m" "go_div b m * m = b" "list_all is_lower u" "unit_matches u" "bytesize_unit u = Some m"
  shows "ParseBytesize fl (FormatInt (go_div b m) @ u) = Inr b"
  using assms go_div_int64 [OF assms(1,2)]
  by (simp add: ParseBytesize_def split_size_print digits_only_print ParseInt_FormatInt mult.commute)

text \<open>
  A byte size written by \<open>MarshalText\<close> is read back by \<open>Parse\<close> as the same number, for every
  64-bit value: the unit that is chosen divides it, and where the absolute value or the product
  wraps around the wrapped result is again the number.
\<close>

theorem bytesize_roundtrip:
  assumes "int64 b"
  shows "ParseBytesize fl (MarshalBytesize b) = Inr b"
proof -
  note print = ParseBytesize_print [OF assms _ _]
  have "ParseBytesize fl (FormatInt 0) = Inr 0"
    using ParseBytesize_print [of 0 1 "[]" fl] by (simp add: int64_def unit_matches_def bytesize_unit_def)
  moreover have "FormatInt 0 = ''0''" by (simp add: FormatInt_def nat_digits.simps)
  moreover have "ParseBytesize fl (FormatInt b) = Inr b"
    using print [of 1 "[]"] by (simp add: unit_matches_def bytesize_unit_def)
  moreover have "ParseBytesize fl (FormatInt (go_div b m) @ u) = Inr b"
    if "(u, m) \<in> {(''kb'', KB), (''mb'', MB), (''gb'', GB), (''tb'', TB), (''pb'', PB)}"
      "go_mod (if b < 0 then wrap64 (- b) else b) m = 0" for u m
  proof -
    have m: "0 < m" using that(1) by (auto simp: size_units)
    show ?thesis
      by (rule print [OF m abs_multiple [OF assms m that(2)]])
        (use that(1) in \<open>auto simp: is_lower_def less_eq_char_of_nat unit_matches_def bytesize_unit_def\<close>)
  qed
  ultimately show ?thesis by (simp add: MarshalBytesize_def Let_def)
qed

theorem bytesize_roundtrip_witness:
  "ParseBytesize no_floats (MarshalBytesize (- (2 ^ 63))) = Inr (- (2 ^ 63)) \<and> MarshalBytesize (- (2 ^ 63)) = ''-8192pb''"
proof -
  have "wrap64 (2 ^ 63) = - (2 ^ 63)" by (simp add: wrap64_def)
  then have "MarshalBytesize (- (2 ^ 63)) = FormatInt (go_div (- (2 ^ 63)) PB) @ ''pb''"
    by (simp add: MarshalBytesize_def Let_def PB_def go_mod_minus)
  also have "go_div (- (2 ^ 63)) PB = - 8192" by (simp add: PB_def)
  also have "FormatInt (- 8192) = ''-8192''" by (simp add: FormatInt_def nat_digits.simps)
  finally show ?thesis using bytesize_roundtrip [of "- (2 ^ 63)" no_floats] by (simp add: int64_def)
qed

text \<open>
  \<open>Parse\<close> multiplies without an overflow check: 8192 petabytes are read as a negative
  number of bytes and 16384 petabytes as none at all, without an error.
\<close>

theorem bytesize_wraps:
  "ParseBytesize fl ''8192pb'' = Inr (- (2 ^ 63)) \<and> ParseBytesize fl ''16384pb'' = Inr 0"
proof -
  have "ParseBytesize fl (FormatInt n @ ''pb'') = Inr (wrap64 (PB * n))" if "int64 n" for n
  proof -
    have "list_all is_lower ''pb''" by (simp add: is_lower_def less_eq_char_of_nat)
    then show ?thesis using that
      by (simp add: ParseBytesize_def split_size_print digits_only_print ParseInt_FormatInt unit_matches_def bytesize_unit_def)
  qed
  from this [of 8192] this [of 16384]
  show ?thesis
    by (simp_all add: int64_def FormatInt_def nat_digits.simps wrap64_def PB_def)
qed

subsection \<open>Durations\<close>

definition Microsecond :: int where "Microsecond = 1000"
definition Millisecond :: int where "Millisecond = 1000 * Microsecond"
definition Second :: int where "Second = 1000 * Millisecond"
definition Minute :: int where "Minute = 60 * Second"
definition Hour :: int where "Hour = 60 * Minute"

lemmas time_units = Microsecond_def Millisecond_def Second_def Minute_def Hour_def

text \<open>\<open>dstring\<close> is the library's \<open>Duration.String\<close>, which the last branch calls.\<close>

definition MarshalTimesize :: "(int \<Rightarrow> string) \<Rightarrow> int \<Rightarrow> string" where
  "MarshalTimesize dstring d =
     (if d = 0 then ''0''
      else
        (let a = (if d < 0 then wrap64 (- d) else d) in
         if go_mod a Hour = 0 then FormatInt (go_div d Hour) @ ''h''
         else if go_mod a Minute = 0 then FormatInt (go_div d Minute) @ ''m''
         else if go_mod a Second = 0 then FormatInt (go_div d Second) @ ''s''
         else if go_mod a Millisecond = 0 then FormatInt (go_div d Millisecond) @ ''ms''
         else if go_mod a Microsecond = 0 then FormatInt (go_div d Microsecond) @ ''us''
         else dstring d))"

text \<open>
  The library's \<open>time.ParseDuration\<close>: a sign and a sequence of numbers with units, every step
  checked for overflow. What a fraction adds, a float computation, is the parameter \<open>frac\<close>
  (the digits after the point, the unit).
\<close>

definition duration_unit :: "string \<Rightarrow> int option" where
  "duration_unit u =
     (if u = ''ns'' then Some 1
      else if u \<in> {''us'', CHR 0xC2 # CHR 0xB5 # ''s'', CHR 0xCE # CHR 0xBC # ''s''} then Some Microsecond
      else if u = ''ms'' then Some Millisecond
      else if u = ''s'' then Some Second
      else if u = ''m'' then Some Minute
      else if u = ''h'' then Some Hour
      else None)"

fun leadingInt :: "int \<Rightarrow> string \<Rightarrow> (int \<times> string) option" where
  "leadingInt x [] = Some (x, [])"
| "leadingInt x (c # cs) =
     (if \<not> is_digit c then Some (x, c # cs)
      else if x > (2 ^ 63 - 1) div 10 then None
      else if x * 10 + digit_val c \<ge> 2 ^ 63 then None
      else leadingInt (x * 10 + digit_val c) cs)"

lemma leadingInt_length: "leadingInt x s = Some (v, r) \<Longrightarrow> length r \<le> length s"
  by (induction x s rule: leadingInt.induct) (auto split: if_splits)

definition invalid_duration :: "string \<Rightarrow> goerror" where
  "invalid_duration orig = ErrNew (''time: invalid duration '' @ orig)"

text \<open>One number with its unit: what it adds and the rest of the string.\<close>

definition duration_part :: "(string \<Rightarrow> int \<Rightarrow> int) \<Rightarrow> string \<Rightarrow> string \<Rightarrow> goerror + (int \<times> string)" where
  "duration_part frac orig s =
     (if \<not> number_char (hd s) then Inl (invalid_duration orig)
      else
        (case leadingInt 0 s of
           None \<Rightarrow> Inl (invalid_duration orig)
         | Some (v, s1) \<Rightarrow>
             (let pre = (length s1 \<noteq> length s);
                  point = (s1 \<noteq> [] \<and> hd s1 = CHR ''.'');
                  ds = (if point then takeWhile is_digit (tl s1) else []);
                  s2 = (if point then dropWhile is_digit (tl s1) else s1);
                  u = takeWhile (\<lambda>c. \<not> number_char c) s2
              in if \<not> pre \<and> ds = [] then Inl (invalid_duration orig)
                 else if u = [] then Inl (ErrNew (''time: missing unit in duration '' @ orig))
                 else
                   (case duration_unit u of
                      None \<Rightarrow> Inl (ErrNew (''time: unknown unit '' @ u @ '' in duration '' @ orig))
                    | Some k \<Rightarrow>
                        if v > (2 ^ 63 - 1) div k then Inl (invalid_duration orig)
                        else
                          (let v' = v * k + (if list_all (\<lambda>c. c = CHR ''0'') ds then 0 else frac ds k) in
                           if v' \<ge> 2 ^ 63 then Inl (invalid_duration orig)
                           else Inr (v', dropWhile (\<lambda>c. \<not> number_char c) s2))))))"

lemma duration_part_shorter:
  assumes "duration_part frac orig s = Inr (v, r)"
  shows "length r < length s"
proof -
  obtain n s1 where l: "leadingInt 0 s = Some (n, s1)" using assms
    by (auto simp: duration_part_def split: if_splits option.splits)
  let ?s2 = "if s1 \<noteq> [] \<and> hd s1 = CHR ''.'' then dropWhile is_digit (tl s1) else s1"
  have r: "r = dropWhile (\<lambda>c. \<not> number_char c) ?s2" "takeWhile (\<lambda>c. \<not> number_char c) ?s2 \<noteq> []"
    using assms l by (auto simp: duration_part_def Let_def split: if_splits option.splits)
  have "length (takeWhile P xs) + length (dropWhile P xs) = length xs" for P :: "byte \<Rightarrow> bool" and xs
    by (metis length_append takeWhile_dropWhile_id)
  then have "length r < length ?s2" using r by (metis add_less_same_cancel2 length_greater_0_conv less_add_same_cancel2)
  also have "\<dots> \<le> length s1"
    by (auto intro: order_trans [OF length_dropWhile_le])
  also have "\<dots> \<le> length s" by (rule leadingInt_length [OF l])
  finally show ?thesis .
qed

function duration_loop :: "(string \<Rightarrow> int \<Rightarrow> int) \<Rightarrow> string \<Rightarrow> int \<Rightarrow> string \<Rightarrow> goerror + int" where
  "duration_loop frac orig d s =
     (if s = [] then Inr d
      else
        (case duration_part frac orig s of
           Inl e \<Rightarrow> Inl e
         | Inr (v, r) \<Rightarrow> if d + v \<ge> 2 ^ 63 then Inl (invalid_duration orig) else duration_loop frac orig (d + v) r))"
  by pat_completeness auto
termination
  by (relation "measure (\<lambda>(frac, orig, d, s). length s)") (auto dest: duration_part_shorter)

declare duration_loop.simps [simp del]

definition ParseDuration :: "(string \<Rightarrow> int \<Rightarrow> int) \<Rightarrow> string \<Rightarrow> goerror + int" where
  "ParseDuration frac orig =
     (let neg = (orig \<noteq> [] \<and> hd orig = CHR ''-'');
          s = (if orig \<noteq> [] \<and> hd orig \<in> {CHR ''-'', CHR ''+''} then tl orig else orig)
      in if s = ''0'' then Inr 0
         else if s = [] then Inl (invalid_duration orig)
         else (case duration_loop frac orig 0 s of Inl e \<Rightarrow> Inl e | Inr d \<Rightarrow> Inr (if neg then - d else d)))"

definition ParseTimesize :: "(string \<Rightarrow> int \<Rightarrow> int) \<Rightarrow> 'f floats \<Rightarrow> string \<Rightarrow> goerror + int" where
  "ParseTimesize frac fl s =
     (case split_size s of
        None \<Rightarrow> Inl (Trace (ErrVar ErrBadTimeSize))
      | Some (txt0, u) \<Rightarrow>
          if u \<noteq> [] then ParseDuration frac (txt0 @ u)
          else if digits_only txt0 then
            (case ParseInt txt0 of
               Inl _ \<Rightarrow> Inl (Trace (ErrVar ErrBadTimeSize))
             | Inr n \<Rightarrow> Inr (wrap64 (n * Second)))
          else
            (case ParseFloat fl txt0 of
               None \<Rightarrow> Inl (Trace (ErrVar ErrBadTimeSize))
             | Some n \<Rightarrow> Inr (truncInt fl (fmul fl n (Float64 fl Second)))))"

definition UnmarshalTimesize :: "(string \<Rightarrow> int \<Rightarrow> int) \<Rightarrow> 'f floats \<Rightarrow> string \<Rightarrow> int \<Rightarrow> goerror option \<times> int" where
  "UnmarshalTimesize frac fl s p = (case ParseTimesize frac fl s of Inl e \<Rightarrow> (Some e, p) | Inr n \<Rightarrow> (None, n))"

definition MustParseTimesize :: "(string \<Rightarrow> int \<Rightarrow> int) \<Rightarrow> 'f floats \<Rightarrow> string \<Rightarrow> int option" where
  "MustParseTimesize frac fl s = (case ParseTimesize frac fl s of Inl e \<Rightarrow> None | Inr n \<Rightarrow> Some n)"

text \<open>A printed number with a unit is one part of a duration.\<close>

lemma leadingInt_digits:
  "list_all is_digit ds \<Longrightarrow> list_all is_lower u \<Longrightarrow> 0 \<le> x \<Longrightarrow> digits_val x ds < 2 ^ 63 \<Longrightarrow>
   leadingInt x (ds @ u) = Some (digits_val x ds, u)"
proof (induction ds arbitrary: x)
  case Nil
  then show ?case using digit_classes(3) by (cases u) auto
next
  case (Cons c cs)
  let ?y = "x * 10 + digit_val c"
  have c: "is_digit c" "0 \<le> digit_val c" using Cons.prems(1) digit_val_bounds by auto
  have "?y \<le> digits_val ?y cs" using Cons.prems(1,3) c by (intro digits_val_mono) auto
  then have y: "?y < 2 ^ 63" using Cons.prems(4) by simp
  then have "x \<le> (2 ^ 63 - 1) div 10" using c(2) by simp
  then show ?case using Cons.IH [of ?y] Cons.prems c y by simp
qed

lemma duration_part_print:
  assumes "list_all is_digit ds" "ds \<noteq> []" "list_all is_lower u" "u \<noteq> []" "duration_unit u = Some k" "0 < k"
    "digits_val 0 ds * k < 2 ^ 63"
  shows "duration_part frac orig (ds @ u) = Inr (digits_val 0 ds * k, [])"
proof -
  let ?v = "digits_val 0 ds"
  have v: "0 \<le> ?v" using digits_val_mono [OF assms(1)] by simp
  have le: "?v \<le> (2 ^ 63 - 1) div k" using zdiv_mono1 [of "?v * k" "2 ^ 63 - 1" k] assms(6,7) by simp
  have "?v * 1 \<le> ?v * k" using v assms(6) by (intro mult_left_mono) auto
  then have "?v < 2 ^ 63" using assms(7) by simp
  then have l: "leadingInt 0 (ds @ u) = Some (?v, u)" using assms(1,3) by (intro leadingInt_digits) auto
  have hd: "number_char (hd (ds @ u))" using assms(1,2) digit_classes(2) by (cases ds) auto
  have u: "hd u \<noteq> CHR ''.''" "takeWhile (\<lambda>c. \<not> number_char c) u = u" "dropWhile (\<lambda>c. \<not> number_char c) u = []"
    using assms(3,4) lower_classes(2) by (auto simp: list_all_iff number_char_def neq_Nil_conv)
  show ?thesis using assms(2,4,5,7) le hd
    by (simp add: duration_part_def l u Let_def not_less)
qed

lemma ParseDuration_print:
  assumes "list_all is_lower u" "u \<noteq> []" "duration_unit u = Some k" "0 < k" "\<bar>n\<bar> * k < 2 ^ 63"
  shows "ParseDuration frac (FormatInt n @ u) = Inr (n * k)"
proof -
  define ds where "ds = nat_digits (nat \<bar>n\<bar>)"
  have ds: "list_all is_digit ds" "ds \<noteq> []" "digits_val 0 ds = \<bar>n\<bar>"
    using nat_digits_all [of "nat \<bar>n\<bar>"] by (simp_all add: ds_def digits_val_nat_digits)
  have i: "FormatInt n @ u = (if n < 0 then [CHR ''-''] else []) @ ds @ u" by (simp add: FormatInt_def ds_def)
  obtain c cs where c: "ds = c # cs" "is_digit c" using ds by (cases ds) auto
  have sg: "c \<noteq> CHR ''-''" "c \<noteq> CHR ''+''" using c(2) not_digit_signs by auto
  have s: "ds @ u \<noteq> ''0''" using c assms(2) by simp
  have "duration_loop frac orig 0 (ds @ u) = Inr (\<bar>n\<bar> * k)" for orig
    using duration_part_print [OF ds(1,2) assms(1-4), of frac orig] ds(3) assms(2,5)
    by (subst duration_loop.simps) (simp add: duration_loop.simps [of frac orig _ "[]"])
  then show ?thesis unfolding ParseDuration_def i using sg s c(1) assms(2) by (simp add: Let_def)
qed

text \<open>
  A duration of whole microseconds written by \<open>MarshalText\<close> is read back by \<open>Parse\<close> as the
  same duration.
\<close>

theorem timesize_roundtrip:
  assumes "int64 d" "d mod Microsecond = 0"
  shows "ParseTimesize frac fl (MarshalTimesize dstring d) = Inr d"
proof -
  define a where "a = (if d < 0 then wrap64 (- d) else d)"
  have min: "d \<noteq> - (2 ^ 63)" using assms(2) by (auto simp: Microsecond_def)
  have "ParseTimesize frac fl (FormatInt 0) = Inr 0"
    using split_size_print [of "[]" 0] by (simp add: ParseTimesize_def digits_only_print ParseInt_FormatInt int64_def)
  moreover have "FormatInt 0 = ''0''" by (simp add: FormatInt_def nat_digits.simps)
  moreover have "ParseTimesize frac fl (FormatInt (go_div d m) @ u) = Inr d"
    if u: "(u, m) \<in> {(''us'', Microsecond), (''ms'', Millisecond), (''s'', Second), (''m'', Minute), (''h'', Hour)}"
      and m: "go_mod a m = 0" for u m
  proof -
    have k: "0 < m" "list_all is_lower u" "u \<noteq> []" "duration_unit u = Some m"
      using u by (auto simp: time_units is_lower_def less_eq_char_of_nat duration_unit_def)
    have d: "go_div d m * m = d" by (rule abs_multiple [OF assms(1) k(1) m [unfolded a_def]])
    then have "\<bar>go_div d m\<bar> * m = \<bar>d\<bar>" using k(1) by (metis abs_mult abs_of_pos)
    then have "\<bar>go_div d m\<bar> * m < 2 ^ 63" using assms(1) min by (auto simp: int64_def)
    from ParseDuration_print [OF k(2-4,1) this, of frac] show ?thesis
      using k(3) d by (simp add: ParseTimesize_def split_size_print [OF k(2)])
  qed
  moreover have "go_mod a Microsecond = 0"
  proof -
    have "a = \<bar>d\<bar>" using assms(1) min by (simp add: a_def wrap64_minus)
    moreover have "\<bar>d\<bar> mod Microsecond = 0" using assms(2) by (simp add: mod_0_imp_dvd dvd_imp_mod_0)
    ultimately show ?thesis by (simp add: Microsecond_def)
  qed
  ultimately show ?thesis unfolding MarshalTimesize_def Let_def a_def [symmetric] by simp
qed

theorem timesize_roundtrip_witness:
  "ParseTimesize (\<lambda>_ _. 0) no_floats (MarshalTimesize (\<lambda>_. []) 90000000000) = Inr 90000000000"
  by (rule timesize_roundtrip) (simp_all add: int64_def Microsecond_def)

text \<open>
  Any other duration is written by the library's \<open>String\<close>, and \<open>Parse\<close> rejects what it
  prints for a compound one: one minute and one nanosecond comes out as \<open>1m0.000000001s\<close>.
\<close>

theorem timesize_no_roundtrip:
  "MarshalTimesize dstring 60000000001 = dstring 60000000001 \<and>
   ParseTimesize frac fl ''1m0.000000001s'' = Inl (TracedError (ErrVar ErrBadTimeSize))"
proof (rule conjI)
  show "MarshalTimesize dstring 60000000001 = dstring 60000000001"
    by (simp add: MarshalTimesize_def Let_def time_units)
  have "split_size ''1m0.000000001s'' = None"
    by (simp add: split_size_def Let_def is_space_def number_char_def is_digit_iff is_lower_def less_eq_char_of_nat)
  then show "ParseTimesize frac fl ''1m0.000000001s'' = Inl (TracedError (ErrVar ErrBadTimeSize))"
    by (simp add: ParseTimesize_def Trace_def)
qed

end
