(* ===== verification/Config.thy ===== *)
theory Config
  imports Sizes
begin

section \<open>The configuration\<close>

text \<open>
  Models \<open>pkg/proxy/config.go\<close>. Sizes are in bytes and durations in nanoseconds, as the types
  of \<open>bytesize\<close> and \<open>timesize\<close> hold them. Reading TOML is the library's: \<open>default_config\<close> is what
  the text \<open>DefaultConfig\<close> says, and the decoder of a file is the parameter \<open>toml\<close>.
\<close>

record config =
  ProtoType :: string
  ProxyAddr :: string
  AdminAddr :: string
  HostProxy :: string
  HostAdmin :: string
  ProductName :: string
  ProductAuth :: string
  SessionAuth :: string
  ProxyDataCenter :: string
  ProxyMaxClients :: int
  ProxyMaxOffheapBytes :: int
  ProxyHeapPlaceholder :: int
  CurrZonePrefix :: string
  CurrZoneAddr :: string
  ZoneInfoKey :: string
  ZoneSpr4key :: string
  SentinelMode :: bool
  SentinelSwitchPeriod :: int
  SentinelSwitchTimeout :: int
  BackendPingPeriod :: int
  BackendRecvBufsize :: int
  BackendRecvTimeout :: int
  BackendSendBufsize :: int
  BackendSendTimeout :: int
  BackendMaxPipeline :: int
  BackendPrimaryOnly :: bool
  BackendPrimaryParallel :: int
  BackendReplicaParallel :: int
  BackendKeepAlivePeriod :: int
  BackendNumberDatabases :: int
  SessionRecvBufsize :: int
  SessionRecvTimeout :: int
  SessionSendBufsize :: int
  SessionSendTimeout :: int
  SessionMaxPipeline :: int
  SessionKeepAlivePeriod :: int
  SessionBreakOnFailure :: bool

definition default_config :: config where
  "default_config = \<lparr>
     ProtoType = ''tcp4'',
     ProxyAddr = ''0.0.0.0:29000'',
     AdminAddr = ''0.0.0.0:21080'',
     HostProxy = [],
     HostAdmin = [],
     ProductName = ''redismulive-router'',
     ProductAuth = [],
     SessionAuth = [],
     ProxyDataCenter = [],
     ProxyMaxClients = 1000,
     ProxyMaxOffheapBytes = 1024 * MB,
     ProxyHeapPlaceholder = 256 * MB,
     CurrZonePrefix = ''A'',
     CurrZoneAddr = ''172.16.80.2:6379'',
     ZoneInfoKey = ''RMR_ZONE_INFO'',
     ZoneSpr4key = ''::'',
     SentinelMode = True,
     SentinelSwitchPeriod = 5 * Second,
     SentinelSwitchTimeout = 3 * Second,
     BackendPingPeriod = 5 * Second,
     BackendRecvBufsize = 128 * KB,
     BackendRecvTimeout = 30 * Second,
     BackendSendBufsize = 128 * KB,
     BackendSendTimeout = 30 * Second,
     BackendMaxPipeline = 20480,
     BackendPrimaryOnly = False,
     BackendPrimaryParallel = 1,
     BackendReplicaParallel = 1,
     BackendKeepAlivePeriod = 75 * Second,
     BackendNumberDatabases = 16,
     SessionRecvBufsize = 128 * KB,
     SessionRecvTimeout = 30 * Minute,
     SessionSendBufsize = 64 * KB,
     SessionSendTimeout = 30 * Second,
     SessionMaxPipeline = 10000,
     SessionKeepAlivePeriod = 75 * Second,
     SessionBreakOnFailure = False\<rparr>"

text \<open>The largest \<open>int\<close>, the bound of \<open>Validate\<close>.\<close>

definition MaxIntSize :: int where
  "MaxIntSize = 2 ^ 63 - 1"

definition Validate :: "config \<Rightarrow> goerror option" where
  "Validate c =
     (if ProtoType c = [] then Some (ErrNew ''invalid proto_type'')
      else if ProxyAddr c = [] then Some (ErrNew ''invalid proxy_addr'')
      else if AdminAddr c = [] then Some (ErrNew ''invalid admin_addr'')
      else if ProductName c = [] then Some (ErrNew ''invalid product_name'')
      else if ProxyMaxClients c < 0 then Some (ErrNew ''invalid proxy_max_clients'')
      else if ProxyMaxOffheapBytes c < 0 \<or> ProxyMaxOffheapBytes c > MaxIntSize then Some (ErrNew ''invalid proxy_max_offheap_size'')
      else if ProxyHeapPlaceholder c < 0 \<or> ProxyHeapPlaceholder c > MaxIntSize then Some (ErrNew ''invalid proxy_heap_placeholder'')
      else if SentinelSwitchPeriod c < 0 then Some (ErrNew ''invalid sentinel_switch_period'')
      else if SentinelSwitchTimeout c < 0 then Some (ErrNew ''invalid sentinel_switch_period'')
      else if BackendPingPeriod c < 0 then Some (ErrNew ''invalid backend_ping_period'')
      else if BackendRecvBufsize c < 0 \<or> BackendRecvBufsize c > MaxIntSize then Some (ErrNew ''invalid backend_recv_bufsize'')
      else if BackendRecvTimeout c < 0 then Some (ErrNew ''invalid backend_recv_timeout'')
      else if BackendSendBufsize c < 0 \<or> BackendSendBufsize c > MaxIntSize then Some (ErrNew ''invalid backend_send_bufsize'')
      else if BackendSendTimeout c < 0 then Some (ErrNew ''invalid backend_send_timeout'')
      else if BackendMaxPipeline c < 0 then Some (ErrNew ''invalid backend_max_pipeline'')
      else if BackendPrimaryParallel c < 0 then Some (ErrNew ''invalid backend_primary_parallel'')
      else if BackendReplicaParallel c < 0 then Some (ErrNew ''invalid backend_replica_parallel'')
      else if BackendKeepAlivePeriod c < 0 then Some (ErrNew ''invalid backend_keepalive_period'')
      else if BackendNumberDatabases c < 1 then Some (ErrNew ''invalid backend_number_databases'')
      else if SessionRecvBufsize c < 0 \<or> SessionRecvBufsize c > MaxIntSize then Some (ErrNew ''invalid session_recv_bufsize'')
      else if SessionRecvTimeout c < 0 then Some (ErrNew ''invalid session_recv_timeout'')
      else if SessionSendBufsize c < 0 \<or> SessionSendBufsize c > MaxIntSize then Some (ErrNew ''invalid session_send_bufsize'')
      else if SessionSendTimeout c < 0 then Some (ErrNew ''invalid session_send_timeout'')
      else if SessionMaxPipeline c < 0 then Some (ErrNew ''invalid session_max_pipeline'')
      else if SessionKeepAlivePeriod c < 0 then Some (ErrNew ''invalid session_keepalive_period'')
      else None)"

text \<open>\<open>None\<close> is the panic of \<open>NewDefaultConfig\<close>. A file overwrites the fields it names.\<close>

definition NewDefaultConfig :: "config option" where
  "NewDefaultConfig = (case Validate default_config of None \<Rightarrow> Some default_config | Some e \<Rightarrow> None)"

definition LoadFromFile :: "(string \<Rightarrow> config \<Rightarrow> goerror option \<times> config) \<Rightarrow> string \<Rightarrow> config \<Rightarrow> goerror option \<times> config" where
  "LoadFromFile toml path c =
     (case toml path c of
        (Some e, c') \<Rightarrow> (Some (Trace e), c')
      | (None, c') \<Rightarrow> (Validate c', c'))"

text \<open>What a validated configuration promises to the rest of the proxy.\<close>

definition sizes_ok :: "config \<Rightarrow> bool" where
  "sizes_ok c \<longleftrightarrow> list_all (\<lambda>d. 0 \<le> d \<and> d \<le> MaxIntSize)
     [ProxyMaxOffheapBytes c, ProxyHeapPlaceholder c, BackendRecvBufsize c, BackendSendBufsize c,
      SessionRecvBufsize c, SessionSendBufsize c]"

definition periods_ok :: "config \<Rightarrow> bool" where
  "periods_ok c \<longleftrightarrow> list_all (\<lambda>d. 0 \<le> d)
     [SentinelSwitchPeriod c, SentinelSwitchTimeout c, BackendPingPeriod c, BackendRecvTimeout c,
      BackendSendTimeout c, BackendKeepAlivePeriod c, SessionRecvTimeout c, SessionSendTimeout c,
      SessionKeepAlivePeriod c]"

definition counts_ok :: "config \<Rightarrow> bool" where
  "counts_ok c \<longleftrightarrow> list_all (\<lambda>d. 0 \<le> d)
     [ProxyMaxClients c, BackendMaxPipeline c, BackendPrimaryParallel c, BackendReplicaParallel c, SessionMaxPipeline c]
     \<and> 1 \<le> BackendNumberDatabases c"

definition names_ok :: "config \<Rightarrow> bool" where
  "names_ok c \<longleftrightarrow> list_all (\<lambda>s. s \<noteq> []) [ProtoType c, ProxyAddr c, AdminAddr c, ProductName c]"

lemmas config_ok_defs = sizes_ok_def periods_ok_def counts_ok_def names_ok_def

lemma if_error: "(if b then Some e else x) = None \<longleftrightarrow> \<not> b \<and> x = None"
  by simp

lemma Validate_iff: "Validate c = None \<longleftrightarrow> sizes_ok c \<and> periods_ok c \<and> counts_ok c \<and> names_ok c"
  unfolding Validate_def config_ok_defs if_error by auto

lemma default_config_valid: "Validate default_config = None"
  unfolding Validate_iff config_ok_defs by (simp add: default_config_def MaxIntSize_def size_units time_units)

lemma NewDefaultConfig_eq: "NewDefaultConfig = Some default_config"
  by (simp add: NewDefaultConfig_def default_config_valid)

text \<open>
  C39. \<open>Validate\<close> accepts exactly the configurations with names, with sizes that fit an \<open>int\<close>, with
  no negative period or count and with at least one database; the built-in default is one, so
  \<open>NewDefaultConfig\<close> does not panic, and a file that loads without an error gives such a one.
\<close>

theorem Validate_correct:
  "(Validate c = None \<longleftrightarrow> sizes_ok c \<and> periods_ok c \<and> counts_ok c \<and> names_ok c)
   \<and> NewDefaultConfig = Some default_config
   \<and> (LoadFromFile toml path c0 = (None, c) \<longrightarrow> sizes_ok c \<and> periods_ok c \<and> counts_ok c \<and> names_ok c)"
proof -
  have 1: "Validate c = None \<longleftrightarrow> sizes_ok c \<and> periods_ok c \<and> counts_ok c \<and> names_ok c" by (rule Validate_iff)
  note 2 = NewDefaultConfig_eq
  have "sizes_ok c \<and> periods_ok c \<and> counts_ok c \<and> names_ok c" if "LoadFromFile toml path c0 = (None, c)"
    using that unfolding Validate_iff [symmetric] by (auto simp: LoadFromFile_def split: prod.splits option.splits)
  then show ?thesis using 1 2 by blast
qed

theorem Validate_correct_witness:
  "sizes_ok default_config \<and> periods_ok default_config \<and> counts_ok default_config \<and> names_ok default_config"
proof (rule Validate_correct [THEN conjunct2, THEN conjunct2, rule_format])
  show "LoadFromFile (\<lambda>_ c. (None, c)) [] default_config = (None, default_config)"
    by (simp add: LoadFromFile_def default_config_valid)
qed

text \<open>
  The message for a negative \<open>sentinel_switch_timeout\<close> names another setting,
  \<open>sentinel_switch_period\<close>.
\<close>

theorem timeout_message:
  "Validate (default_config\<lparr>SentinelSwitchTimeout := -1\<rparr>) = Some (ErrNew ''invalid sentinel_switch_period'')"
  by (simp add: Validate_def default_config_def MaxIntSize_def size_units time_units)

end
