(* ===== verification/Router.thy ===== *)
theory Router
  imports Transaction Config
begin

section \<open>The router\<close>

text \<open>
  Models \<open>pkg/proxy/router.go\<close>: which zone answers a command, and how the zones follow the
  configuration and the sentinels. A dispatch runs to its end before the next one; its result is
  the error returned, the request as it was left, and the world. The outer \<open>None\<close> of a result is
  a panic. The order in which a Go map is ranged over is the argument \<open>ord\<close>. A closed router's
  map of zones is nil and reads like the empty one.
\<close>

record router =
  rzones :: "string \<rightharpoonup> zone"
  currentZonePrefix :: string
  online :: bool
  rclosed :: bool
  zoneSpr :: string
  monitor :: bool

definition Start :: "router \<Rightarrow> router" where
  "Start R = (if rclosed R then R else R\<lparr>online := True\<rparr>)"

definition isOnline :: "router \<Rightarrow> bool" where
  "isOnline R \<longleftrightarrow> online R \<and> \<not> rclosed R"

subsection \<open>Where a key belongs\<close>

text \<open>\<open>getZoneInfo\<close>: the zone, whether the key names one, whether it is configured.\<close>

definition getZoneInfo :: "(string \<Rightarrow> string list) \<Rightarrow> router \<Rightarrow> string \<Rightarrow> (string \<times> bool \<times> bool) option" where
  "getZoneInfo explode R key =
     (let keyArray = StringsSplit explode key (zoneSpr R) in
      if length keyArray = 1 then Some ([], False, False)
      else
        (case keyArray of
           [] \<Rightarrow> None
         | zoneInfo # _ \<Rightarrow>
             if rzones R zoneInfo \<noteq> None then Some (zoneInfo, True, True) else Some ([], True, False)))"

subsection \<open>Dispatch\<close>

text \<open>Forwarding to a zone looked up in the map: a nil zone panics.\<close>

definition forward_to :: "'w net \<Rightarrow> zone option \<Rightarrow> request \<Rightarrow> 'w \<Rightarrow> request option \<times> 'w" where
  "forward_to n z r w = (case z of None \<Rightarrow> (None, w) | Some z' \<Rightarrow> Forward n z' r w)"

text \<open>\<open>strconv.Atoi\<close> with its error dropped: 0 for a syntax error, the nearest value out of range.\<close>

definition Atoi_value :: "string \<Rightarrow> int" where
  "Atoi_value s =
     (case ParseInt s of
        Inr i \<Rightarrow> i
      | Inl ErrSyntax \<Rightarrow> 0
      | Inl ErrRange \<Rightarrow> if s \<noteq> [] \<and> hd s = CHR ''-'' then - (2 ^ 63) else 2 ^ 63 - 1)"

text \<open>GET of a key of another zone that the local one does not have: ask there, keep a copy.\<close>

definition fetch_remote :: "'w net \<Rightarrow> zone option \<Rightarrow> zone option \<Rightarrow> nat \<Rightarrow> string \<Rightarrow> request \<Rightarrow> 'w
    \<Rightarrow> goerror option option \<times> request \<times> 'w" where
  "fetch_remote n realZone z b key r w =
     (case forward_to n realZone r w of
        (None, w1) \<Rightarrow> (None, r, w1)
      | (Some r1, w1) \<Rightarrow>
          (case rResp r1 of
             None \<Rightarrow> (None, r1, w1)
           | Some v \<Rightarrow>
               (let other_val = text_of (rvalue v) in
                if other_val = [] then (Some None, r1, w1)
                else
                  (case forward_to n realZone (TTLRequest b key) w1 of
                     (None, w2) \<Rightarrow> (None, r1, w2)
                   | (Some ttlr, w2) \<Rightarrow>
                       (case rResp ttlr of
                          None \<Rightarrow> (None, r1, w2)
                        | Some tv \<Rightarrow>
                            (let ttl = Atoi_value (text_of (rvalue tv));
                                 setr = SetRequest (b + 1) key other_val (if ttl > 0 then ttl else -1)
                             in case forward_to n z setr w2 of
                                  (None, w3) \<Rightarrow> (None, r1, w3)
                                | (Some _, w3) \<Rightarrow> (Some None, r1, w3)))))))"

definition dispatch_get :: "'w net \<Rightarrow> router \<Rightarrow> nat \<Rightarrow> string \<times> bool \<times> bool \<Rightarrow> request \<Rightarrow> 'w
    \<Rightarrow> goerror option option \<times> request \<times> 'w" where
  "dispatch_get n R b info r w =
     (case info of (zoneInfo, exist, ok) \<Rightarrow>
      let z = rzones R (currentZonePrefix R) in
      case forward_to n z r w of
        (None, w1) \<Rightarrow> (None, r, w1)
      | (Some r1, w1) \<Rightarrow>
          (case rResp r1 of
             None \<Rightarrow> (None, r1, w1)
           | Some v \<Rightarrow>
               if \<not> exist \<or> zoneInfo = currentZonePrefix R then (Some None, r1, w1)
               else if text_of (rvalue v) = [] \<and> ok then
                 fetch_remote n (rzones R zoneInfo) z b (getKey r) r1 w1
               else if \<not> ok then (Some (Some (ErrVar ErrZoneIsNotConfig)), r1, w1)
               else (Some None, r1, w1)))"

text \<open>SET of a key of the local zone: the copies for the other zones, in the order of the range.\<close>

primrec copy_others :: "'w net \<Rightarrow> router \<Rightarrow> nat \<Rightarrow> string \<Rightarrow> request \<Rightarrow> string list \<Rightarrow> 'w \<Rightarrow> unit option \<times> 'w" where
  "copy_others n R b zoneInfo r [] w = (Some (), w)"
| "copy_others n R b zoneInfo r (k # ks) w =
     (if k = zoneInfo then copy_others n R b zoneInfo r ks w
      else
        (case rzones R k of
           None \<Rightarrow> (None, w)
         | Some otherZone \<Rightarrow>
             (case ForwardAsync n otherZone (CPRequest b 1 r ! 0) w of
                (None, w1) \<Rightarrow> (None, w1)
              | (Some _, w1) \<Rightarrow> copy_others n R (b + 1) zoneInfo r ks w1)))"

text \<open>SET of a key without a zone: the components of the transaction, in the order of the range.\<close>

primrec prepare_all :: "router \<Rightarrow> nat \<Rightarrow> request \<Rightarrow> string list \<Rightarrow> transaction \<Rightarrow> transaction" where
  "prepare_all R b r [] t = t"
| "prepare_all R b r (k # ks) t =
     (case rzones R k of
        None \<Rightarrow> prepare_all R (b + 1) r ks t
      | Some v \<Rightarrow>
          prepare_all R (b + 1) r ks
            (Prepare \<lparr>tzone = v, tflag = False, treq = (if k = currentZonePrefix R then r else CPRequest b 1 r ! 0), oldV = []\<rparr> t))"

text \<open>The client's request is the one of the current zone's component.\<close>

primrec own_request :: "router \<Rightarrow> request \<Rightarrow> string list \<Rightarrow> setTrx list \<Rightarrow> request" where
  "own_request R r [] cs = r"
| "own_request R r (k # ks) cs =
     (case cs of [] \<Rightarrow> r | c # cs' \<Rightarrow> if k = currentZonePrefix R then treq c else own_request R r ks cs')"

definition set_everywhere :: "'w net \<Rightarrow> router \<Rightarrow> nat \<Rightarrow> string list \<Rightarrow> request \<Rightarrow> 'w
    \<Rightarrow> goerror option option \<times> request \<times> 'w" where
  "set_everywhere n R b ord r w =
     (let t = prepare_all R b r ord new_transaction; b1 = b + length ord; b2 = b1 + length ord in
      case Exec n b1 t w of
        (Some err, t1, w1) \<Rightarrow>
          (case Rollback n b2 t1 w1 of (res, w2) \<Rightarrow> (map_option (\<lambda>_. Some err) res, own_request R r ord (trans t1), w2))
      | (None, t1, w1) \<Rightarrow>
          (case Commit t1 of
             (Some err, t2) \<Rightarrow>
               (case Rollback n b2 t2 w1 of (res, w2) \<Rightarrow> (map_option (\<lambda>_. Some err) res, own_request R r ord (trans t2), w2))
           | (None, t2) \<Rightarrow> (Some None, own_request R r ord (trans t2), w1)))"

definition dispatch_set :: "'w net \<Rightarrow> router \<Rightarrow> nat \<Rightarrow> string list \<Rightarrow> string \<times> bool \<times> bool \<Rightarrow> request \<Rightarrow> 'w
    \<Rightarrow> goerror option option \<times> request \<times> 'w" where
  "dispatch_set n R b ord info r w =
     (case info of (zoneInfo, exist, ok) \<Rightarrow>
      if exist then
        (if currentZonePrefix R \<noteq> zoneInfo then (Some (Some (ErrVar ErrZoneIsNotMatch)), r, w)
         else
           (case forward_to n (rzones R zoneInfo) r w of
              (None, w1) \<Rightarrow> (None, r, w1)
            | (Some r1, w1) \<Rightarrow>
                (case copy_others n R b zoneInfo r1 ord w1 of (res, w2) \<Rightarrow> (map_option (\<lambda>_. None) res, r1, w2))))
      else set_everywhere n R b ord r w)"

definition dispatch_default :: "'w net \<Rightarrow> router \<Rightarrow> request \<Rightarrow> 'w \<Rightarrow> goerror option option \<times> request \<times> 'w" where
  "dispatch_default n R r w =
     (case forward_to n (rzones R (currentZonePrefix R)) r w of
        (None, w1) \<Rightarrow> (None, r, w1)
      | (Some r1, w1) \<Rightarrow> (Some None, r1, w1))"

text \<open>\<open>dispatch\<close> recovers from a panic, and then returns its unset result, a nil error.\<close>

definition dispatch :: "(string \<Rightarrow> string list) \<Rightarrow> 'w net \<Rightarrow> router \<Rightarrow> nat \<Rightarrow> string list \<Rightarrow> request \<Rightarrow> 'w
    \<Rightarrow> goerror option \<times> request \<times> 'w" where
  "dispatch explode n R b ord r w =
     (case (case getZoneInfo explode R (getKey r) of
              None \<Rightarrow> (None, r, w)
            | Some info \<Rightarrow>
                if rOpStr r = ''GET'' then dispatch_get n R b info r w
                else if rOpStr r = ''SET'' then dispatch_set n R b ord info r w
                else dispatch_default n R r w) of
        (None, r1, w1) \<Rightarrow> (None, r1, w1)
      | (Some err, r1, w1) \<Rightarrow> (err, r1, w1))"

subsection \<open>Keys and zones\<close>

text \<open>
  The zone of a key is what stands before the first separator: a key without the separator
  names none; \<open>zone ++ separator ++ rest\<close> names the zone when it is configured, and the empty
  zone, never the written one, when it is not.
\<close>

theorem key_names_zone:
  assumes "zoneSpr R \<noteq> []"
  shows "(\<not> occurs (zoneSpr R) key \<longrightarrow> getZoneInfo explode R key = Some ([], False, False))
    \<and> ((\<forall>a b. pre @ zoneSpr R = a @ zoneSpr R @ b \<longrightarrow> a = pre) \<longrightarrow>
      getZoneInfo explode R (pre @ zoneSpr R @ rest) =
        Some (if rzones R pre \<noteq> None then (pre, True, True) else ([], True, False)))"
proof (intro conjI impI)
  show "getZoneInfo explode R key = Some ([], False, False)" if "\<not> occurs (zoneSpr R) key"
    using split_str_none [OF that, where acc = "[]"] assms by (simp add: getZoneInfo_def StringsSplit_def)
  have nonempty: "split_str sep acc s \<noteq> []" for sep acc s
    by (induction sep acc s rule: split_str.induct) (subst split_str.simps, auto split: list.split)
  show "getZoneInfo explode R (pre @ zoneSpr R @ rest) =
        Some (if rzones R pre \<noteq> None then (pre, True, True) else ([], True, False))"
    if "\<forall>a b. pre @ zoneSpr R = a @ zoneSpr R @ b \<longrightarrow> a = pre"
    using split_str_first [OF assms that [rule_format], where acc = "[]" and rest = rest] assms nonempty [of "zoneSpr R" "[]" rest]
    by (simp add: getZoneInfo_def StringsSplit_def)
qed

text \<open>A router with one zone \<open>A\<close>, the separator \<open>::\<close> and no connection.\<close>

definition tiny_zone :: "string \<Rightarrow> zone" where
  "tiny_zone name = NewZone 1 None name False [] ''mymaster''"

definition tiny_router :: "string list \<Rightarrow> router" where
  "tiny_router names = \<lparr>rzones = (\<lambda>k. if k \<in> set names then Some (tiny_zone k) else None), currentZonePrefix = ''A'',
     online = True, rclosed = False, zoneSpr = ''::'', monitor = False\<rparr>"

text \<open>A network that drops everything.\<close>

definition silent_net :: "unit net" where
  "silent_net = \<lparr>npool = NewSharedBackendConnPool 1 1, nup = (\<lambda>_. True), nseed = (\<lambda>_. 0), nsrv = (\<lambda>_ _ w. (Dropped, w))\<rparr>"

theorem key_names_zone_witness:
  "getZoneInfo (\<lambda>_. []) (tiny_router [''A'']) ''A::k'' = Some (''A'', True, True)
   \<and> getZoneInfo (\<lambda>_. []) (tiny_router [''A'']) ''X::k'' = Some ([], True, False)"
proof -
  have u: "a = [x]" if "[x] @ ''::'' = a @ ''::'' @ b" "x \<noteq> CHR '':''" for a b :: string and x
    using that by (cases a; cases b) (auto simp: Cons_eq_append_conv)
  have "getZoneInfo (\<lambda>_. []) (tiny_router [''A'']) ([x] @ zoneSpr (tiny_router [''A'']) @ ''k'') =
      Some (if rzones (tiny_router [''A'']) [x] \<noteq> None then ([x], True, True) else ([], True, False))"
    if "x \<noteq> CHR '':''" for x
    by (rule key_names_zone [THEN conjunct2, rule_format]) (use that u in \<open>auto simp: tiny_router_def\<close>)
  from this [of "CHR ''A''"] this [of "CHR ''X''"] show ?thesis by (simp add: tiny_router_def)
qed

subsection \<open>Reading and writing one zone\<close>

lemma dispatch_GET [go_eval]:
  "rOpStr r = ''GET'' \<Longrightarrow> getZoneInfo explode R (getKey r) = Some info \<Longrightarrow> dispatch_get n R b info r w = (res, r1, w1) \<Longrightarrow>
   dispatch explode n R b ord r w = (case res of None \<Rightarrow> None | Some err \<Rightarrow> err, r1, w1)"
  by (simp add: dispatch_def split: option.split)

lemma dispatch_SET [go_eval]:
  "rOpStr r = ''SET'' \<Longrightarrow> getZoneInfo explode R (getKey r) = Some info \<Longrightarrow> dispatch_set n R b ord info r w = (res, r1, w1) \<Longrightarrow>
   dispatch explode n R b ord r w = (case res of None \<Rightarrow> None | Some err \<Rightarrow> err, r1, w1)"
  by (simp add: dispatch_def split: option.split)

text \<open>
  Commands other than a SET, and a GET unless its key is of another zone, are one exchange
  with the current zone: whatever happens there, an answer, a failure, a full queue or a panic,
  the request and the world are what that one exchange left, and the error returned is nil.
\<close>

theorem local_commands:
  assumes "getZoneInfo explode R (getKey r) = Some (zoneInfo, exist, ok)"
    "rOpStr r = ''GET'' \<longrightarrow> \<not> exist \<or> zoneInfo = currentZonePrefix R" "rOpStr r \<noteq> ''SET''"
  shows "dispatch explode n R b ord r w =
    (case forward_to n (rzones R (currentZonePrefix R)) r w of
       (None, w1) \<Rightarrow> (None, r, w1)
     | (Some r1, w1) \<Rightarrow> (None, r1, w1))"
  using assms
  by (auto simp: dispatch_def dispatch_get_def dispatch_default_def Let_def split: prod.split option.split)

theorem local_commands_witness:
  "dispatch (\<lambda>_. []) silent_net (tiny_router [''A'']) 0 [''A''] (zero_request\<lparr>rOpStr := ''INCR''\<rparr>) () = (None, zero_request\<lparr>rOpStr := ''INCR''\<rparr>, ())"
proof -
  have "getZoneInfo (\<lambda>_. []) (tiny_router [''A'']) (getKey (zero_request\<lparr>rOpStr := ''INCR''\<rparr>)) = Some ([], False, False)"
    by (simp add: getZoneInfo_def StringsSplit_def tiny_router_def getKey_def zero_request_def split_str.simps has_prefix_def)
  from local_commands [OF this, of silent_net 0 "[''A'']" "()"] show ?thesis
    by (simp add: tiny_router_def forward_to_def Forward_def zprocess_def shared_of_def tiny_zone_def NewZone_def BackendConn_def)
qed

text \<open>
  C3. A SET of a key of another zone, configured or not, writes nothing anywhere: no backend
  connection sees it, the request is untouched and the error is \<open>ErrZoneIsNotMatch\<close>.
\<close>

theorem foreign_set_refused:
  assumes "rOpStr r = ''SET''" "getZoneInfo explode R (getKey r) = Some (zoneInfo, True, ok)" "zoneInfo \<noteq> currentZonePrefix R"
  shows "dispatch explode n R b ord r w = (Some (ErrVar ErrZoneIsNotMatch), r, w)"
  using assms by (simp add: dispatch_def dispatch_set_def)

text \<open>Requests whose backend connection is open, and a world that records what reaches which.\<close>

definition reaches :: "'w net \<Rightarrow> zone \<Rightarrow> request \<Rightarrow> nat \<Rightarrow> bool" where
  "reaches n z q bc \<longleftrightarrow> zprocess n z q = Some (Some bc) \<and> bc \<notin> bcClosed (npool n)"

definition logs :: "(nat \<times> request) list net \<Rightarrow> bool" where
  "logs n \<longleftrightarrow> (\<forall>bc q w. snd (nsrv n bc q w) = w @ [(bc, q)])"

lemma Forward_reaches:
  assumes "reaches n z q bc" "logs n"
  shows "\<exists>out. Forward n z q w = (Some (deliver out q), w @ [(bc, q)])"
proof (cases "nsrv n bc q w")
  case (Pair out w')
  then have "w' = w @ [(bc, q)]" using assms(2) by (metis logs_def snd_conv)
  then show ?thesis using assms(1) Pair by (auto simp: Forward_def reaches_def)
qed

lemma Async_is_Forward: "ForwardAsync = Forward"
  by (intro ext) (simp add: Forward_def ForwardAsync_def)

definition copy_of :: "request \<Rightarrow> request \<Rightarrow> bool" where
  "copy_of r q \<longleftrightarrow> rMulti q = rMulti r \<and> rOpStr q = rOpStr r \<and> rDatabase q = rDatabase r"

lemma CPRequest_nth: "copy_of r (CPRequest b 1 r ! 0)" "rResp (CPRequest b 1 r ! 0) = None" "rBatch (CPRequest b 1 r ! 0) = Some b"
  by (simp_all add: CPRequest_def copy_of_def zero_request_def)

definition sent_to :: "(nat \<times> request) list net \<Rightarrow> router \<Rightarrow> request \<Rightarrow> string \<Rightarrow> nat \<times> request \<Rightarrow> bool" where
  "sent_to n R r k s \<longleftrightarrow> (\<exists>z. rzones R k = Some z \<and> reaches n z (snd s) (fst s)) \<and> copy_of r (snd s)"

lemma copy_others_sends:
  assumes "logs n" "\<forall>k z q. rzones R k = Some z \<longrightarrow> rDatabase q = rDatabase r \<longrightarrow> (\<exists>bc. reaches n z q bc)"
    "set ks \<subseteq> dom (rzones R)"
  shows "\<exists>sent. copy_others n R b info r ks w = (Some (), w @ sent) \<and> list_all2 (sent_to n R r) (filter (\<lambda>k. k \<noteq> info) ks) sent"
  using assms(3)
proof (induction ks arbitrary: b w)
  case Nil
  then show ?case by simp
next
  case (Cons k ks)
  show ?case
  proof (cases "k = info")
    case True
    then show ?thesis using Cons by simp
  next
    case False
    let ?q = "CPRequest b 1 r ! 0"
    obtain z where z: "rzones R k = Some z" using Cons.prems by auto
    have "rDatabase ?q = rDatabase r" using CPRequest_nth(1) [of r b] by (simp add: copy_of_def)
    then obtain bc where bc: "reaches n z ?q bc" using assms(2) z by blast
    obtain out where f: "Forward n z ?q w = (Some (deliver out ?q), w @ [(bc, ?q)])"
      using Forward_reaches [OF bc assms(1)] by blast
    obtain sent where s: "copy_others n R (b + 1) info r ks (w @ [(bc, ?q)]) = (Some (), (w @ [(bc, ?q)]) @ sent)"
      "list_all2 (sent_to n R r) (filter (\<lambda>k. k \<noteq> info) ks) sent"
      using Cons.IH [of "b + 1" "w @ [(bc, ?q)]"] Cons.prems by auto
    have "sent_to n R r k (bc, ?q)" using z bc CPRequest_nth(1) by (auto simp: sent_to_def)
    then show ?thesis using False z f s by (intro exI [of _ "(bc, ?q) # sent"]) (simp add: Async_is_Forward)
  qed
qed

text \<open>
  C2. A SET of a key of the current zone is sent to it first, as the client's own request, and
  then to every other zone exactly once, as a copy with the same command; the client gets the
  current zone's answer, whatever the other zones say.
\<close>

theorem local_set_reaches_all:
  assumes "rOpStr r = ''SET''" "getZoneInfo explode R (getKey r) = Some (currentZonePrefix R, True, True)"
    "map_order (rzones R) ord" "logs n"
    "\<forall>k z q. rzones R k = Some z \<longrightarrow> rDatabase q = rDatabase r \<longrightarrow> (\<exists>bc. reaches n z q bc)"
    "rzones R (currentZonePrefix R) = Some z"
  shows "\<exists>bc out sent. reaches n z r bc \<and>
    dispatch explode n R b ord r w = (None, deliver out r, w @ (bc, r) # sent) \<and>
    list_all2 (sent_to n R r) (filter (\<lambda>k. k \<noteq> currentZonePrefix R) ord) sent"
proof -
  obtain bc where bc: "reaches n z r bc" using assms(5,6) by blast
  obtain out where f: "Forward n z r w = (Some (deliver out r), w @ [(bc, r)])" using Forward_reaches [OF bc assms(4)] by blast
  have db: "rDatabase (deliver out r) = rDatabase r" "copy_of (deliver out r) = copy_of r"
    by (simp_all add: deliver_def copy_of_def fun_eq_iff split: outcome.split)
  obtain sent where s: "copy_others n R b (currentZonePrefix R) (deliver out r) ord (w @ [(bc, r)]) = (Some (), (w @ [(bc, r)]) @ sent)"
    "list_all2 (sent_to n R (deliver out r)) (filter (\<lambda>k. k \<noteq> currentZonePrefix R) ord) sent"
    using copy_others_sends [OF assms(4), of R "deliver out r" ord b "currentZonePrefix R" "w @ [(bc, r)]"] assms(3,5) db(1)
    by (auto simp: map_order_def)
  have "sent_to n R (deliver out r) = sent_to n R r" by (simp add: sent_to_def db(2) fun_eq_iff)
  then show ?thesis using assms(1,2,6) bc f s by (auto simp: dispatch_def dispatch_set_def forward_to_def)
qed

subsection \<open>Writing every zone\<close>

text \<open>The components that \<open>SET\<close> prepares for the zones of a map, in its order.\<close>

lemma prepare_all_trans:
  assumes "set ks \<subseteq> dom (rzones R)"
  shows "\<exists>cs. prepare_all R b r ks t = t\<lparr>trans := trans t @ cs\<rparr> \<and> length cs = length ks \<and>
    (\<forall>i < length ks. rzones R (ks ! i) = Some (tzone (cs ! i)) \<and> \<not> tflag (cs ! i) \<and>
       (treq (cs ! i) = r \<or> (\<exists>b'. treq (cs ! i) = CPRequest b' 1 r ! 0)))"
  using assms
proof (induction ks arbitrary: b t)
  case Nil
  then show ?case by simp
next
  case (Cons k ks)
  then obtain z where z: "rzones R k = Some z" by auto
  let ?c = "\<lparr>tzone = z, tflag = False, treq = (if k = currentZonePrefix R then r else CPRequest b 1 r ! 0), oldV = []\<rparr>"
  obtain cs where cs: "prepare_all R (b + 1) r ks (Prepare ?c t) = (Prepare ?c t)\<lparr>trans := trans (Prepare ?c t) @ cs\<rparr>"
    "length cs = length ks" "\<forall>i < length ks. rzones R (ks ! i) = Some (tzone (cs ! i)) \<and> \<not> tflag (cs ! i) \<and>
       (treq (cs ! i) = r \<or> (\<exists>b'. treq (cs ! i) = CPRequest b' 1 r ! 0))"
    using Cons.IH [of "b + 1" "Prepare ?c t"] Cons.prems by auto
  show ?case
  proof (intro exI [of _ "?c # cs"] conjI allI impI)
    show "prepare_all R b r (k # ks) t = t\<lparr>trans := trans t @ ?c # cs\<rparr>" using z cs(1) by (simp add: Prepare_def)
    show "length (?c # cs) = length (k # ks)" using cs(2) by simp
    fix i assume "i < length (k # ks)"
    then show "rzones R ((k # ks) ! i) = Some (tzone ((?c # cs) ! i))" "\<not> tflag ((?c # cs) ! i)"
      "treq ((?c # cs) ! i) = r \<or> (\<exists>b'. treq ((?c # cs) ! i) = CPRequest b' 1 r ! 0)"
      using z cs(3) by (cases i; force)+
  qed
qed

lemma own_request_in:
  assumes "length ks = length cs" "currentZonePrefix R \<in> set ks"
  shows "\<exists>c \<in> set cs. own_request R r ks cs = treq c"
  using assms by (induction ks arbitrary: cs) (auto simp: length_Suc_conv split: list.split)

text \<open>Zones of different names are different zones.\<close>

definition named_zones :: "router \<Rightarrow> bool" where
  "named_zones R \<longleftrightarrow> (\<forall>k z. rzones R k = Some z \<longrightarrow> zprefix z = k)"

lemma copies_fresh:
  assumes "rOpStr r = ''SET''" "rResp r = None" "treq c = r \<or> (\<exists>b'. treq c = CPRequest b' 1 r ! 0)" "\<not> tflag c"
  shows "fresh_trx (getKey r) (set_value r) c"
  using assms by (auto simp: fresh_trx_def set_value_def CPRequest_def zero_request_def getKey_def)

text \<open>The components of a transaction over all zones: one for each zone, with the request or a copy.\<close>

lemma prepared_components:
  assumes "rOpStr r = ''SET''" "rResp r = None" "map_order (rzones R) ord" "named_zones R"
  shows "\<exists>cs. prepare_all R b r ord new_transaction = \<lparr>trans = cs, execed = 0\<rparr> \<and> length cs = length ord \<and>
    (\<forall>c \<in> set cs. tzone c \<in> ran (rzones R) \<and> fresh_trx (getKey r) (set_value r) c) \<and>
    distinct (map tzone cs) \<and> tzone ` set cs = ran (rzones R)"
proof -
  let ?k = "getKey r" and ?v = "set_value r"
  obtain cs where cs: "prepare_all R b r ord new_transaction = \<lparr>trans = cs, execed = 0\<rparr>" "length cs = length ord"
    "\<forall>i < length ord. rzones R (ord ! i) = Some (tzone (cs ! i)) \<and> \<not> tflag (cs ! i) \<and>
       (treq (cs ! i) = r \<or> (\<exists>b'. treq (cs ! i) = CPRequest b' 1 r ! 0))"
    using prepare_all_trans [of ord R b r new_transaction] assms(3) by (auto simp: map_order_def new_transaction_def)
  have zin: "\<forall>c \<in> set cs. tzone c \<in> ran (rzones R) \<and> fresh_trx ?k ?v c"
  proof
    fix c assume "c \<in> set cs"
    then obtain i where i: "i < length ord" "c = cs ! i" using cs(2) by (auto simp: in_set_conv_nth)
    then have "rzones R (ord ! i) = Some (tzone c)" using cs(3) by simp
    moreover have "fresh_trx ?k ?v c" using cs(3) i copies_fresh [OF assms(1,2)] by simp
    ultimately show "tzone c \<in> ran (rzones R) \<and> fresh_trx ?k ?v c" using ranI by fast
  qed
  have "map zprefix (map tzone cs) = ord"
    using cs(2,3) assms(4) by (intro nth_equalityI) (auto simp: named_zones_def)
  then have "distinct (map tzone cs)" using assms(3) by (metis distinct_map map_order_distinct)
  moreover have "z \<in> tzone ` set cs" if z: "z \<in> ran (rzones R)" for z
  proof -
    obtain k where k: "rzones R k = Some z" using z by (auto simp: ran_def)
    then have "k \<in> set ord" using assms(3) by (auto simp: map_order_def)
    then obtain i where "i < length ord" "ord ! i = k" by (auto simp: in_set_conv_nth)
    then show ?thesis using k cs(2,3) by (metis image_eqI nth_mem option.inject)
  qed
  ultimately show ?thesis using cs(1,2) zin by blast
qed

text \<open>A transaction that was committed: the client's request is one of its answered requests, and every zone has the value.\<close>

lemma committed_everywhere:
  assumes "map tzone (trans t2) = map tzone cs" "\<forall>c \<in> set (trans t2). replied_ok (treq c) \<and> val w1 (tzone c) k = Some v"
    "length cs = length ord" "currentZonePrefix R \<in> set ord" "tzone ` set cs = ran (rzones R)"
  shows "replied_ok (own_request R r ord (trans t2)) \<and> (\<forall>z \<in> ran (rzones R). val w1 z k = Some v)"
proof
  have "length (trans t2) = length ord" using assms(1,3) by (metis length_map)
  then show "replied_ok (own_request R r ord (trans t2))" using own_request_in [of ord "trans t2" R r] assms(2,4) by auto
  have all: "ran (rzones R) = tzone ` set (trans t2)" using assms(1,5) by (metis image_set)
  show "\<forall>z \<in> ran (rzones R). val w1 z k = Some v" unfolding all using assms(2) by simp
qed


subsection \<open>A small deployment\<close>

text \<open>
  Two zones on two servers, one connection each, for the witnesses: the pool as two \<open>Retain\<close>
  leave it, the router, and a server \<open>kv_server\<close> with strings and expiry times that knows GET,
  SET, TTL and DEL.
\<close>

definition duo_pool :: pool where
  "duo_pool =
     \<lparr>heap = [0 \<mapsto> \<lparr>saddr = ''a:1'', sconns = [[0]], ssingle = Some [0], refcnt = 1\<rparr>,
              1 \<mapsto> \<lparr>saddr = ''b:1'', sconns = [[1]], ssingle = Some [1], refcnt = 1\<rparr>],
      ppool = [''a:1'' \<mapsto> 0, ''b:1'' \<mapsto> 1], parallel = 1, numDatabases = 1, nextPtr = 2, nextBC = 2, bcClosed = {}\<rparr>"

definition duo_zone :: "string \<Rightarrow> zone" where
  "duo_zone name = NewZone 0 (Some (if name = ''A'' then 0 else 1)) name False [] []"

definition duo_router :: router where
  "duo_router = \<lparr>rzones = [''A'' \<mapsto> duo_zone ''A'', ''B'' \<mapsto> duo_zone ''B''], currentZonePrefix = ''A'',
     online = True, rclosed = False, zoneSpr = ''::'', monitor = False\<rparr>"

definition duo_net :: "(nat \<Rightarrow> request \<Rightarrow> 'w \<Rightarrow> outcome \<times> 'w) \<Rightarrow> 'w net" where
  "duo_net srv = \<lparr>npool = duo_pool, nup = (\<lambda>_. True), nseed = (\<lambda>_. 0), nsrv = srv\<rparr>"

type_synonym kv = "nat \<Rightarrow> string \<Rightarrow> (string \<times> int option) option"

definition kv_server :: "nat \<Rightarrow> request \<Rightarrow> kv \<Rightarrow> outcome \<times> kv" where
  "kv_server bc q w =
     (let k = getKey q; word = (case rMulti q of [] \<Rightarrow> [] | x # _ \<Rightarrow> text_of (rvalue x));
          store = (\<lambda>e. w(bc := (w bc)(k := e))) in
      if rOpStr q = ''SET'' \<or> word = ''set'' then
        (if length (rMulti q) < 3 then (Replied (NewError ''ERR syntax''), w)
         else
           (Replied (NewString ''OK''),
            store (Some (set_value q, if length (rMulti q) = 5 then Some (Atoi_value (text_of (rvalue (rMulti q ! 4)))) else None))))
      else if word = ''get'' \<or> word = ''GET'' then
        (Replied (NewBulkBytes (map_option fst (w bc k))), w)
      else if word = ''ttl'' then
        (Replied (NewInt (Itoa (case w bc k of None \<Rightarrow> -2 | Some (_, None) \<Rightarrow> -1 | Some (_, Some t) \<Rightarrow> t))), w)
      else if word = ''del'' then (Replied (NewInt ''1''), store None)
      else (Replied (NewError ''ERR unknown command''), w))"

definition kv_view :: "kv view" where
  "kv_view w z k =
     (if z = duo_zone ''A'' then map_option fst (w 0 k) else if z = duo_zone ''B'' then map_option fst (w 1 k) else None)"

lemma duo_process:
  "zprocess (duo_net srv) (duo_zone name) q = (if rDatabase q = 0 then Some (Some (if name = ''A'' then 0 else 1)) else None)"
  by (simp add: zprocess_def duo_net_def duo_zone_def NewZone_def shared_of_def duo_pool_def BackendConn_def)

lemma duo_forward:
  "Forward (duo_net srv) (duo_zone name) q w =
     (if rDatabase q = 0 then (case srv (if name = ''A'' then 0 else 1) q w of (out, w') \<Rightarrow> (Some (deliver out q), w')) else (None, w))"
  by (simp add: Forward_def duo_process) (simp add: duo_net_def duo_pool_def)

lemma duo_ran: "ran (rzones duo_router) = {duo_zone ''A'', duo_zone ''B''}"
  by (simp add: duo_router_def ran_map_upd insert_commute)

lemma duo_order: "map_order (rzones duo_router) [''A'', ''B'']"
  by (auto simp: map_order_def duo_router_def)

lemma duo_named: "named_zones duo_router"
  by (auto simp: named_zones_def duo_router_def duo_zone_def NewZone_def split: if_splits)

lemma duo_prefix: "zprefix (duo_zone name) = name"
  by (simp add: duo_zone_def NewZone_def)

lemma request_fields:
  "rDatabase (GetRequest b k) = 0" "rDatabase (TTLRequest b k) = 0" "rDatabase (SetRequest b k v e) = 0" "rDatabase (DELRequest b k) = 0"
  "rOpStr (GetRequest b k) = []" "rOpStr (TTLRequest b k) = []" "rOpStr (SetRequest b k v e) = []" "rOpStr (DELRequest b k) = []"
  "rMulti (GetRequest b k) = [bulk ''get'', bulk k]" "rMulti (TTLRequest b k) = [bulk ''ttl'', bulk k]"
  "rMulti (SetRequest b k v e) = (if e < 0 then [bulk ''set'', bulk k, bulk v] else [bulk ''set'', bulk k, bulk v, bulk ''EX'', bulk (Itoa e)])"
  "rMulti (DELRequest b k) = [bulk ''del'', bulk k]"
  by (simp_all add: GetRequest_def TTLRequest_def SetRequest_def DELRequest_def zero_request_def)

lemma text_of_Some [simp]: "text_of (Some s) = s"
  by (simp add: text_of_def)

lemma rvalue_bulk [simp]: "rvalue (bulk s) = Some s"
  by (simp add: bulk_def NewBulkBytes_def)

text \<open>The server keeps the contract.\<close>

lemma duo_differ: "duo_zone ''A'' \<noteq> duo_zone ''B''"
  using duo_prefix [of "''A''"] duo_prefix [of "''B''"] by auto

lemma kv_view_put:
  assumes "name \<in> {''A'', ''B''}"
  shows "kv_view (w(if name = ''A'' then 0 else 1 := (w (if name = ''A'' then 0 else 1))(k := e))) =
    put_at (duo_zone name) k (map_option fst e) (kv_view w)"
  using assms duo_differ by (auto simp: kv_view_def put_at_def fun_eq_iff)

text \<open>The server keeps the contract.\<close>

lemma duo_laws:
  assumes "name \<in> {''A'', ''B''}"
  shows "get_law (duo_net kv_server) kv_view (duo_zone name)" "set_law (duo_net kv_server) kv_view (duo_zone name)"
    "del_law (duo_net kv_server) kv_view (duo_zone name)" "client_law (duo_net kv_server) kv_view (duo_zone name)"
proof -
  show "get_law (duo_net kv_server) kv_view (duo_zone name)"
    using assms duo_differ unfolding get_law_def duo_forward
    by (auto simp: kv_server_def Let_def request_fields deliver_def NewBulkBytes_def kv_view_def text_of_def split: option.splits)
  show "set_law (duo_net kv_server) kv_view (duo_zone name)"
    unfolding set_law_def duo_forward
    by (auto simp: kv_server_def Let_def request_fields kv_view_put [OF assms] set_value_def)
  show "del_law (duo_net kv_server) kv_view (duo_zone name)"
    unfolding del_law_def duo_forward
    by (auto simp: kv_server_def Let_def request_fields kv_view_put [OF assms])
  have same: "put_at z k (val z k) val = val" for z k and val :: "zone \<Rightarrow> string \<Rightarrow> string option"
    by (simp add: put_at_def)
  show "client_law (duo_net kv_server) kv_view (duo_zone name)"
    unfolding client_law_def duo_forward
  proof (intro allI impI, goal_cases)
    case (1 w q q' w')
    show ?case
    proof (cases "length (rMulti q) < 3")
      case True
      then have "w' = w" "\<not> replied_ok q'" using 1
        by (auto simp: kv_server_def Let_def deliver_def replied_ok_def NewError_def split: if_splits)
      then show ?thesis using same [of "duo_zone name" "getKey q" "kv_view w"] by metis
    next
      case False
      then have "kv_view w' = put_at (duo_zone name) (getKey q) (Some (set_value q)) (kv_view w)" using 1
        by (cases "rDatabase q = 0") (auto simp: kv_server_def Let_def kv_view_put [OF assms])
      then show ?thesis by blast
    qed
  qed
qed

lemma duo_redis: "redis_zones (duo_net kv_server) (ran (rzones duo_router)) kv_view"
  using duo_laws [of "''A''"] duo_laws [of "''B''"] by (simp add: redis_zones_def duo_ran)

definition set_request :: "string \<Rightarrow> string \<Rightarrow> request" where
  "set_request k v = zero_request\<lparr>rOpStr := ''SET'', rMulti := [bulk ''SET'', bulk k, bulk v]\<rparr>"

lemma set_request_fields [simp]:
  "rOpStr (set_request k v) = ''SET''" "rResp (set_request k v) = None" "getKey (set_request k v) = k"
  "set_value (set_request k v) = v" "rDatabase (set_request k v) = 0" "rMulti (set_request k v) = [bulk ''SET'', bulk k, bulk v]"
  by (simp_all add: set_request_def zero_request_def getKey_def set_value_def)


lemma duo_info:
  "getZoneInfo ex duo_router ''A::k'' = Some (''A'', True, True)"
  "getZoneInfo ex duo_router ''B::k'' = Some (''B'', True, True)"
  "getZoneInfo ex duo_router ''X::k'' = Some ([], True, False)"
  "getZoneInfo ex duo_router ''k'' = Some ([], False, False)"
  by (simp_all add: getZoneInfo_def StringsSplit_def duo_router_def split_str.simps has_prefix_def)

theorem foreign_set_refused_witness:
  "dispatch (\<lambda>_. []) (duo_net kv_server) duo_router 0 [] (set_request ''B::k'' ''v'') (\<lambda>_ _. None) = (Some (ErrVar ErrZoneIsNotMatch), set_request ''B::k'' ''v'', (\<lambda>_ _. None))"
  by (rule foreign_set_refused [where zoneInfo = "''B''" and ok = True]) (simp_all add: duo_info, simp add: duo_router_def)

theorem local_set_reaches_all_witness:
  "\<exists>bc out sent. reaches (duo_net (\<lambda>bc q w. (Dropped, w @ [(bc, q)]))) (duo_zone ''A'') (set_request ''A::k'' ''v'') bc \<and>
    dispatch (\<lambda>_. []) (duo_net (\<lambda>bc q w. (Dropped, w @ [(bc, q)]))) duo_router 0 [''A'', ''B''] (set_request ''A::k'' ''v'') [] =
      (None, deliver out (set_request ''A::k'' ''v''), [] @ (bc, set_request ''A::k'' ''v'') # sent) \<and>
    list_all2 (sent_to (duo_net (\<lambda>bc q w. (Dropped, w @ [(bc, q)]))) duo_router (set_request ''A::k'' ''v''))
      (filter (\<lambda>k. k \<noteq> currentZonePrefix duo_router) [''A'', ''B'']) sent"
proof (rule local_set_reaches_all)
  let ?n = "duo_net (\<lambda>bc q w. (Dropped, w @ [(bc, q)]))"
  show "logs ?n" by (simp add: logs_def duo_net_def)
  show "\<forall>k z (q :: request). rzones duo_router k = Some z \<longrightarrow> rDatabase q = rDatabase (set_request ''A::k'' ''v'') \<longrightarrow> (\<exists>bc. reaches ?n z q bc)"
  proof (intro allI impI)
    fix k z and q :: request assume "rzones duo_router k = Some z" "rDatabase q = rDatabase (set_request ''A::k'' ''v'')"
    then obtain name where "z = duo_zone name" "rDatabase q = 0" by (auto simp: duo_router_def split: if_splits)
    then have "zprocess ?n z q = Some (Some (if name = ''A'' then 0 else 1))" by (simp add: duo_process)
    then show "\<exists>bc. reaches ?n z q bc" by (auto simp: reaches_def duo_net_def duo_pool_def)
  qed
  show "getZoneInfo (\<lambda>_. []) duo_router (getKey (set_request ''A::k'' ''v'')) = Some (currentZonePrefix duo_router, True, True)"
    by (simp add: duo_info) (simp add: duo_router_def)
  show "rzones duo_router (currentZonePrefix duo_router) = Some (duo_zone ''A'')" by (simp add: duo_router_def)
qed (simp_all add: duo_order)

subsection \<open>Reading from another zone\<close>

text \<open>
  The contract of caches with expiry times, over a view of the string and the remaining seconds
  under a key: GET and TTL change nothing and answer from the view, the SET of the router writes.
\<close>

type_synonym 'w tview = "'w \<Rightarrow> zone \<Rightarrow> string \<Rightarrow> (string \<times> int option) option"

definition value_of :: "(string \<times> int option) option \<Rightarrow> string" where
  "value_of e = (case e of None \<Rightarrow> [] | Some (s, _) \<Rightarrow> s)"

definition ttl_of :: "(string \<times> int option) option \<Rightarrow> int" where
  "ttl_of e = (case e of None \<Rightarrow> -2 | Some (_, None) \<Rightarrow> -1 | Some (_, Some t) \<Rightarrow> t)"

definition read_law :: "'w net \<Rightarrow> 'w tview \<Rightarrow> zone \<Rightarrow> bool" where
  "read_law n val z \<longleftrightarrow> (\<forall>w q. rOpStr q = ''GET'' \<longrightarrow> rMulti q \<noteq> [] \<longrightarrow> rvalue (hd (rMulti q)) = Some ''GET'' \<longrightarrow> rDatabase q = 0 \<longrightarrow>
     (\<exists>out v w'. Forward n z q w = (Some (deliver out q), w') \<and> val w' = val w \<and>
        rResp (deliver out q) = Some v \<and> text_of (rvalue v) = value_of (val w z (getKey q))))"

definition ttl_law :: "'w net \<Rightarrow> 'w tview \<Rightarrow> zone \<Rightarrow> bool" where
  "ttl_law n val z \<longleftrightarrow> (\<forall>w b k. \<exists>q v w'. Forward n z (TTLRequest b k) w = (Some q, w') \<and> val w' = val w \<and>
     rResp q = Some v \<and> rvalue v = Some (Itoa (ttl_of (val w z k))))"

definition put_entry :: "zone \<Rightarrow> string \<Rightarrow> string \<times> int option \<Rightarrow> (zone \<Rightarrow> string \<Rightarrow> (string \<times> int option) option)
    \<Rightarrow> zone \<Rightarrow> string \<Rightarrow> (string \<times> int option) option" where
  "put_entry z k e m = m(z := (m z)(k \<mapsto> e))"

definition store_law :: "'w net \<Rightarrow> 'w tview \<Rightarrow> zone \<Rightarrow> bool" where
  "store_law n val z \<longleftrightarrow> (\<forall>w b k s e. int64 e \<longrightarrow> (\<exists>q w'. Forward n z (SetRequest b k s e) w = (Some q, w') \<and>
     val w' = put_entry z k (s, if e < 0 then None else Some e) (val w)))"

definition cache_zone :: "'w net \<Rightarrow> 'w tview \<Rightarrow> zone \<Rightarrow> bool" where
  "cache_zone n val z \<longleftrightarrow> read_law n val z \<and> ttl_law n val z \<and> store_law n val z"

lemma cache_read:
  assumes "cache_zone n val z" "rOpStr q = ''GET''" "rMulti q \<noteq> []" "rvalue (hd (rMulti q)) = Some ''GET''" "rDatabase q = 0"
  obtains out v w' where "Forward n z q w = (Some (deliver out q), w')" "val w' = val w"
    "rResp (deliver out q) = Some v" "text_of (rvalue v) = value_of (val w z (getKey q))"
  using assms unfolding cache_zone_def read_law_def by metis

lemma cache_ttl:
  assumes "cache_zone n val z"
  obtains q v w' where "Forward n z (TTLRequest b k) w = (Some q, w')" "val w' = val w"
    "rResp q = Some v" "rvalue v = Some (Itoa (ttl_of (val w z k)))"
  using assms unfolding cache_zone_def ttl_law_def by metis

lemma cache_store:
  assumes "cache_zone n val z" "int64 e"
  obtains q w' where "Forward n z (SetRequest b k s e) w = (Some q, w')"
    "val w' = put_entry z k (s, if e < 0 then None else Some e) (val w)"
  using assms unfolding cache_zone_def store_law_def by metis

lemma Atoi_Itoa: "int64 i \<Longrightarrow> Atoi_value (Itoa i) = i"
  by (simp add: Atoi_value_def Itoa_def ParseInt_FormatInt)

lemma deliver_db [simp]: "rDatabase (deliver out r) = rDatabase r"
  by (simp add: deliver_def split: outcome.split)

lemma fetch_remote_spec:
  assumes "cache_zone n val zr" "cache_zone n val zl" "rOpStr r = ''GET''" "rMulti r \<noteq> []" "rvalue (hd (rMulti r)) = Some ''GET''"
    "rDatabase r = 0" "int64 (ttl_of (val w zr (getKey r)))"
  shows "\<exists>out v w'. fetch_remote n (Some zr) (Some zl) b (getKey r) r w = (Some None, deliver out r, w') \<and>
    rResp (deliver out r) = Some v \<and> text_of (rvalue v) = value_of (val w zr (getKey r)) \<and>
    val w' = (if value_of (val w zr (getKey r)) = [] then val w
      else put_entry zl (getKey r) (value_of (val w zr (getKey r)),
        if 0 < ttl_of (val w zr (getKey r)) then Some (ttl_of (val w zr (getKey r))) else None) (val w))"
proof -
  let ?k = "getKey r"
  let ?t = "ttl_of (val w zr ?k)"
  obtain out v w1 where r: "Forward n zr r w = (Some (deliver out r), w1)" "val w1 = val w"
    "rResp (deliver out r) = Some v" "text_of (rvalue v) = value_of (val w zr ?k)"
    by (rule cache_read [OF assms(1,3-6)])
  show ?thesis
  proof (cases "value_of (val w zr ?k) = []")
    case True
    then show ?thesis using r by (auto simp: fetch_remote_def forward_to_def Let_def)
  next
    case False
    obtain tq tv w2 where t: "Forward n zr (TTLRequest b ?k) w1 = (Some tq, w2)" "val w2 = val w1"
      "rResp tq = Some tv" "rvalue tv = Some (Itoa (ttl_of (val w1 zr ?k)))"
      by (rule cache_ttl [OF assms(1)])
    have ttl: "Atoi_value (text_of (rvalue tv)) = ?t" using t(4) r(2) Atoi_Itoa [OF assms(7)] by simp
    have exp: "int64 (if ?t > 0 then ?t else -1)" using assms(7) by (simp add: int64_def)
    obtain sq w3 where s: "Forward n zl (SetRequest (b + 1) ?k (value_of (val w zr ?k)) (if ?t > 0 then ?t else -1)) w2 = (Some sq, w3)"
      "val w3 = put_entry zl ?k (value_of (val w zr ?k), if (if ?t > 0 then ?t else -1) < 0 then None else Some (if ?t > 0 then ?t else -1)) (val w2)"
      by (rule cache_store [OF assms(2) exp])
    have "fetch_remote n (Some zr) (Some zl) b ?k r w = (Some None, deliver out r, w3)"
      using False r t(1,3) ttl s(1) by (simp add: fetch_remote_def forward_to_def Let_def)
    moreover have "(if (if ?t > 0 then ?t else -1) < 0 then None else Some (if ?t > 0 then ?t else -1)) = (if 0 < ?t then Some ?t else None)"
      by auto
    ultimately show ?thesis using False r s(2) t(2) by auto
  qed
qed


definition kv_tview :: "kv tview" where
  "kv_tview w z k = (if z = duo_zone ''A'' then w 0 k else if z = duo_zone ''B'' then w 1 k else None)"

lemma kv_tview_put:
  assumes "name \<in> {''A'', ''B''}"
  shows "kv_tview (w(if name = ''A'' then 0 else 1 := (w (if name = ''A'' then 0 else 1))(k := Some e))) =
    put_entry (duo_zone name) k e (kv_tview w)"
  using assms duo_differ by (auto simp: kv_tview_def put_entry_def fun_eq_iff)

lemma kv_caches:
  assumes "name \<in> {''A'', ''B''}"
  shows "cache_zone (duo_net kv_server) kv_tview (duo_zone name)"
proof -
  have "read_law (duo_net kv_server) kv_tview (duo_zone name)"
    unfolding read_law_def
  proof (intro allI impI, goal_cases)
    case (1 w q)
    let ?bc = "if name = ''A'' then 0 else 1 :: nat"
    have m: "(case rMulti q of [] \<Rightarrow> [] | x # _ \<Rightarrow> text_of (rvalue x)) = ''GET''" using 1 by (cases "rMulti q") auto
    have "kv_server ?bc q w = (Replied (NewBulkBytes (map_option fst (w ?bc (getKey q)))), w)"
      using 1 unfolding kv_server_def m Let_def by simp
    then have "Forward (duo_net kv_server) (duo_zone name) q w = (Some (deliver (Replied (NewBulkBytes (map_option fst (w ?bc (getKey q))))) q), w)"
      using 1 by (simp add: duo_forward)
    then show ?case using assms duo_differ
      by (intro exI [of _ "Replied (NewBulkBytes (map_option fst (w ?bc (getKey q))))"])
        (auto simp: deliver_def NewBulkBytes_def kv_tview_def value_of_def text_of_def split: option.split)
  qed
  moreover have "ttl_law (duo_net kv_server) kv_tview (duo_zone name)"
    using assms duo_differ unfolding ttl_law_def duo_forward
    by (auto simp: kv_server_def Let_def request_fields deliver_def NewInt_def kv_tview_def ttl_of_def)
  moreover have "store_law (duo_net kv_server) kv_tview (duo_zone name)"
    using assms kv_tview_put [of "''A''"] kv_tview_put [of "''B''"] unfolding store_law_def duo_forward
    by (auto simp: kv_server_def Let_def request_fields set_value_def Atoi_Itoa)
  ultimately show ?thesis by (simp add: cache_zone_def)
qed

definition get_request :: "string \<Rightarrow> request" where
  "get_request k = zero_request\<lparr>rOpStr := ''GET'', rMulti := [bulk ''GET'', bulk k]\<rparr>"

lemma get_request_fields [simp]:
  "rOpStr (get_request k) = ''GET''" "getKey (get_request k) = k" "rDatabase (get_request k) = 0" "rMulti (get_request k) = [bulk ''GET'', bulk k]"
  by (simp_all add: get_request_def zero_request_def getKey_def)


end
