(* ===== verification/Session.thy ===== *)
theory Session
  imports Conn Stats Router
begin

section \<open>Sessions\<close>

text \<open>
  Models \<open>pkg/proxy/session.go\<close>: a session per client connection, with a goroutine that reads
  requests and dispatches them and one that writes the replies in the order of the requests.
  The functions are the bodies of the loops; the goroutines are a transition system below.
  What the backends answer is found when a request is dispatched, as in the router's model; the
  goroutine that waits for it may take its step at any later time. Log lines are left out.
\<close>

subsection \<open>The session\<close>

text \<open>\<open>exitOnce\<close>: what the first call of \<open>exit.Do\<close> logged. The socket as far as it is closed.\<close>

datatype sockState = SockOpen | SockReadClosed | SockClosed

record session =
  sdec :: decoder
  senc :: flushEncoder
  LastOpUnix :: int
  SessOps :: int
  sdatabase :: int
  sstats :: sessStats
  exitOnce :: "goerror option option"
  squit :: bool
  sbroken :: bool
  sock :: sockState

text \<open>
  \<open>NewSession\<close> over a socket (its reads and writes), with the memory of the two buffers. The
  flush encoder of \<open>loopWriter\<close>, which wraps the connection's encoder, is made with it.
\<close>

definition NewSession :: "sockRead list \<Rightarrow> sockWrite list \<Rightarrow> bytes \<Rightarrow> bytes \<Rightarrow> config \<Rightarrow> session" where
  "NewSession rds wrs rmem wmem c =
     \<lparr>sdec = newConnDecoder rds (SessionRecvTimeout c) rmem,
      senc = NewFlushEncoder (newConnEncoder wrs (SessionSendTimeout c) wmem),
      LastOpUnix = 0, SessOps = 0, sdatabase = 0, sstats = new_sessStats, exitOnce = None,
      squit = False, sbroken = False, sock = SockOpen\<rparr>"

definition exit_do :: "goerror option \<Rightarrow> session \<Rightarrow> session" where
  "exit_do err s = (if exitOnce s = None then s\<lparr>exitOnce := Some err\<rparr> else s)"

definition CloseWithError :: "goerror option \<Rightarrow> session \<Rightarrow> session" where
  "CloseWithError err s = (exit_do err s)\<lparr>sbroken := True, sock := SockClosed\<rparr>"

definition CloseReaderWithError :: "bool \<Rightarrow> goerror option \<Rightarrow> session \<Rightarrow> session" where
  "CloseReaderWithError tcp err s =
     (let s1 = exit_do err s in
      case CloseReader tcp of
        CloseReadCall \<Rightarrow> s1\<lparr>sock := (if sock s1 = SockOpen then SockReadClosed else sock s1)\<rparr>
      | _ \<Rightarrow> s1\<lparr>sock := SockClosed\<rparr>)"

subsection \<open>Requests\<close>

text \<open>The text of \<open>fmt.Errorf\<close> for a command that is not allowed; \<open>0x27\<close> is the apostrophe.\<close>

definition not_allowed :: "string \<Rightarrow> string" where
  "not_allowed name = ''command '' @ [CHR 0x27] @ name @ [CHR 0x27] @ '' is not allowed''"

text \<open>\<open>broken\<close> is the address of the session's flag, which every request of it points to.\<close>

definition handleRequest :: "(string \<Rightarrow> string) \<Rightarrow> (string \<Rightarrow> string list) \<Rightarrow> 'w net \<Rightarrow> router \<Rightarrow> nat \<Rightarrow> string list
    \<Rightarrow> nat \<Rightarrow> request \<Rightarrow> 'w \<Rightarrow> goerror option \<times> request \<times> 'w" where
  "handleRequest uni explode n R b ord broken r w =
     (case getOpInfo uni (rMulti r) of
        Inl err \<Rightarrow> (Some err, r, w)
      | Inr (name, flag) \<Rightarrow>
          (let r1 = r\<lparr>rOpStr := name, rOpFlag := flag, rBroken := Some broken\<rparr> in
           if IsNotAllowed flag then (Some (ErrNew (not_allowed name)), r1, w)
           else dispatch explode n R b ord r1 w))"

definition new_request :: "resp list \<Rightarrow> nat \<Rightarrow> int \<Rightarrow> int \<Rightarrow> request" where
  "new_request multi batch database nano =
     zero_request\<lparr>rMulti := multi, rBatch := Some batch, rDatabase := database, rUnixNano := nano\<rparr>"

text \<open>How the body of \<open>loopReader\<close> ends: with a request for the queue, or by leaving the loop.\<close>

datatype readResult = ReadOn request | ReadLast request goerror | ReadStop goerror

definition read_body :: "(goerror \<Rightarrow> string) \<Rightarrow> (string \<Rightarrow> string) \<Rightarrow> (string \<Rightarrow> string list) \<Rightarrow> nat \<Rightarrow> config \<Rightarrow> 'w net \<Rightarrow> router
    \<Rightarrow> nat \<Rightarrow> string list \<Rightarrow> nat \<Rightarrow> int \<Rightarrow> nat \<Rightarrow> session \<Rightarrow> 'w \<Rightarrow> (readResult \<times> session \<times> 'w) option" where
  "read_body txt uni explode fuel c n R b ord broken now queued s w =
     (case DecodeMultiBulk fuel (sdec s) of
        None \<Rightarrow> None
      | Some (Inl err, d) \<Rightarrow> Some (ReadStop err, s\<lparr>sdec := d\<rparr>, w)
      | Some (Inr multi, d) \<Rightarrow>
          (let s1 = s\<lparr>sdec := d, sstats := sessIncrOpTotal (sstats s)\<rparr> in
           if int queued > SessionMaxPipeline c then
             Some (ReadStop (ErrVar ErrTooManyPipelinedRequests), s1\<lparr>sstats := sessIncrOpFails None (sstats s1)\<rparr>, w)
           else
             (let s2 = s1\<lparr>LastOpUnix := now div 1000000000, SessOps := wrap64 (SessOps s1 + 1)\<rparr>;
                  r = new_request multi b (sdatabase s2) now
              in case handleRequest uni explode n R (b + 1) ord broken r w of
                   (None, r1, w1) \<Rightarrow> Some (ReadOn r1, s2, w1)
                 | (Some err, r1, w1) \<Rightarrow>
                     (let r2 = r1\<lparr>rResp := Some (NewErrorf (''ERR handle request, '' @ error_text txt err))\<rparr> in
                      if SessionBreakOnFailure c then Some (ReadLast r2 err, s2, w1)
                      else Some (ReadOn r2, s2, w1)))))"

subsection \<open>Replies\<close>

definition handleResponse :: "request \<Rightarrow> goerror + resp" where
  "handleResponse r =
     (case rCoalesce r of
        Some (Some err) \<Rightarrow> Inl err
      | _ \<Rightarrow>
          (case rErr r of
             Some err \<Rightarrow> Inl err
           | None \<Rightarrow> (case rResp r of None \<Rightarrow> Inl (ErrVar ErrRespIsRequired) | Some x \<Rightarrow> Inr x)))"

text \<open>
  The function \<open>loopWriter\<close> gives to \<open>PopFrontAll\<close>. \<open>fflush\<close> is what \<open>tasks.IsEmpty()\<close> says; the
  times are those of the flush, of the count and of the report, \<open>ord\<close> the order of its range.
\<close>

record replyTimes =
  since :: int
  counted_at :: int
  reported_at :: int

definition write_body :: "(goerror \<Rightarrow> string) \<Rightarrow> config \<Rightarrow> replyTimes \<Rightarrow> string list \<Rightarrow> bool \<Rightarrow> request \<Rightarrow> session \<Rightarrow> cmdStats
    \<Rightarrow> (goerror option \<times> session \<times> cmdStats) option" where
  "write_body txt c tm ord fflush r s g =
     (let (resp, err) = (case handleResponse r of
             Inr x \<Rightarrow> (x, None)
           | Inl e \<Rightarrow> (NewErrorf (''ERR handle response, '' @ error_text txt e), Some e));
          failed = (\<lambda>e p. (Some e, s\<lparr>senc := p, sstats := sessIncrOpFails (Some (rOpStr r)) (sstats s)\<rparr>, g))
      in case (err, SessionBreakOnFailure c) of
           (Some e, True) \<Rightarrow>
             (case Encode resp True (fenc (senc s)) of
                None \<Rightarrow> None
              | Some (_, en) \<Rightarrow> Some (failed e ((senc s)\<lparr>fenc := en\<rparr>)))
         | _ \<Rightarrow>
             (case FEEncode resp (senc s) of
                None \<Rightarrow> None
              | Some (Some e, p) \<Rightarrow> Some (failed e p)
              | Some (None, p) \<Rightarrow>
                  (case FEFlush (since tm) fflush p of
                     (Some e, p1) \<Rightarrow> Some (failed e p1)
                   | (None, p1) \<Rightarrow>
                       (let st = sessIncrOpStats (counted_at tm) (rOpStr r) (rUnixNano r) (rtype resp) (sstats s);
                            (st1, g1) = (if fflush then flushOpStats (reported_at tm) False ord st g else (st, g))
                        in Some (None, s\<lparr>senc := p1, sstats := st1\<rparr>, g1)))))"

subsection \<open>Starting a session\<close>

text \<open>
  \<open>Start\<close>: over the limit, or with the router offline, the client gets an error and the session
  is not counted as alive any more. \<open>refuse\<close> is the goroutine that says so.
\<close>

datatype startResult = Refused string errvar | Started

definition StartSession :: "config \<Rightarrow> router \<Rightarrow> sessCount \<Rightarrow> startResult \<times> sessCount" where
  "StartSession c R sc =
     (case incrSessions sc of
        (alive, sc1) \<Rightarrow>
          if alive > ProxyMaxClients c then (Refused ''ERR max number of clients reached'' ErrTooManySessions, decrSessions sc1)
          else if \<not> isOnline R then (Refused ''ERR router is not online'' ErrRouterNotOnline, decrSessions sc1)
          else (Started, sc1))"

definition refuse :: "string \<Rightarrow> errvar \<Rightarrow> int \<Rightarrow> string list \<Rightarrow> session \<Rightarrow> cmdStats \<Rightarrow> (session \<times> cmdStats) option" where
  "refuse msg why now ord s g =
     (case Encode (NewErrorf msg) True (fenc (senc s)) of
        None \<Rightarrow> None
      | Some (_, en) \<Rightarrow>
          (let s1 = CloseWithError (Some (ErrVar why)) (s\<lparr>senc := (senc s)\<lparr>fenc := en\<rparr>\<rparr>);
               s2 = s1\<lparr>sstats := sessIncrOpFails None (sstats s1)\<rparr>;
               (st, g1) = flushOpStats now True ord (sstats s2) g
           in Some (s2\<lparr>sstats := st\<rparr>, g1)))"


subsection \<open>What a dispatch leaves of a request\<close>

text \<open>
  \<open>answers r q\<close>: \<open>q\<close> is the request \<open>r\<close> with the same command, and the reply it may have can be
  encoded. Backends reply with values the decoder has read, so their replies can.
\<close>

definition answers :: "request \<Rightarrow> request \<Rightarrow> bool" where
  "answers r q \<longleftrightarrow> rMulti q = rMulti r \<and> (\<forall>x. rResp q = Some x \<longrightarrow> encodable x)"

definition net_ok :: "'w net \<Rightarrow> bool" where
  "net_ok n \<longleftrightarrow> (\<forall>bc q w x w'. nsrv n bc q w = (Replied x, w') \<longrightarrow> encodable x)"

lemma net_okD: "net_ok n \<Longrightarrow> nsrv n bc q w = (Replied x, w') \<Longrightarrow> encodable x"
  unfolding net_ok_def by blast

lemma Forward_answers:
  assumes "net_ok n" "answers r q" "Forward n z q w = (Some q', w')"
  shows "answers r q'"
proof -
  obtain bc out where "nsrv n bc q w = (out, w')" "q' = deliver out q"
    using assms(3) by (auto simp: Forward_def split: option.splits prod.splits if_splits)
  then show ?thesis using assms(1,2) by (cases out) (auto simp: answers_def net_okD deliver_def)
qed

lemma forward_to_answers: "forward_to n z q w = (Some q', w') \<Longrightarrow> net_ok n \<Longrightarrow> answers r q \<Longrightarrow> answers r q'"
  by (auto simp: forward_to_def intro: Forward_answers split: option.splits)

lemma copy_answers: "answers r r \<Longrightarrow> answers r (CPRequest b 1 r ! 0)"
  using CPRequest_nth [where r = r and b = b] by (simp add: answers_def copy_of_def)

lemma fetch_remote_answers:
  assumes "fetch_remote n rz z b key q w = (res, q', w')" "net_ok n" "answers r q"
  shows "answers r q'"
proof (cases "forward_to n rz q w")
  case (Pair x w1)
  then show ?thesis using assms forward_to_answers [of n rz q w]
    by (cases x) (auto simp: fetch_remote_def Let_def split: prod.splits option.splits if_splits)
qed

lemma dispatch_get_answers:
  assumes "dispatch_get n R b info q w = (res, q', w')" "net_ok n" "answers r q"
  shows "answers r q'"
proof (cases "forward_to n (rzones R (currentZonePrefix R)) q w")
  case (Pair x w1)
  show ?thesis
  proof (cases x)
    case None
    then show ?thesis using assms Pair by (auto simp: dispatch_get_def split: prod.splits)
  next
    case (Some q1)
    then have "answers r q1" using forward_to_answers Pair assms(2,3) by metis
    then show ?thesis using assms(1,2) Pair Some
      by (auto simp: dispatch_get_def split: prod.splits option.splits if_splits dest: fetch_remote_answers)
  qed
qed

text \<open>The components of a transaction, whatever runs of it.\<close>

abbreviation all_answer :: "request \<Rightarrow> setTrx list \<Rightarrow> bool" where
  "all_answer r cs \<equiv> list_all (\<lambda>c. answers r (treq c)) cs"

lemma prepare_all_answers: "answers r r \<Longrightarrow> all_answer r (trans t) \<Longrightarrow> all_answer r (trans (prepare_all R b r ks t))"
proof (induction ks arbitrary: b t)
  case (Cons k ks)
  have "all_answer r (trans (Prepare \<lparr>tzone = v, tflag = False, treq = (if k = currentZonePrefix R then r else CPRequest b 1 r ! 0), oldV = []\<rparr> t))" for v
    using Cons.prems copy_answers [of r b] by (simp add: Prepare_def)
  then show ?case using Cons by (auto split: option.split)
qed simp

lemma TrxExec_answers: "net_ok n \<Longrightarrow> answers r (treq c) \<Longrightarrow> TrxExec n b c w = (res, c', w') \<Longrightarrow> answers r (treq c')"
  using Forward_answers [of n r "treq c" "tzone c"]
  by (auto simp: TrxExec_def Let_def split: prod.splits option.splits)

lemma exec_loop_answers:
  "net_ok n \<Longrightarrow> all_answer r fin \<Longrightarrow> all_answer r cs \<Longrightarrow> exec_loop n b fin cs w = (res, (fin', rest), w') \<Longrightarrow>
   all_answer r (fin' @ rest)"
proof (induction n b fin cs w arbitrary: fin' rest rule: exec_loop.induct)
  case (2 n b fin c cs w)
  obtain e c1 w1 where t: "TrxExec n b c w = (e, c1, w1)" by (metis surj_pair)
  then have "answers r (treq c1)" using TrxExec_answers 2(2,4) by auto
  then show ?case using 2 t by (auto split: option.splits)
qed simp

lemma check_loop_answers: "all_answer r cs \<Longrightarrow> all_answer r (snd (check_loop cs))"
proof (induction cs)
  case (Cons c cs)
  have "treq (snd (TrxCheck c)) = treq c" by (simp add: TrxCheck_def Let_def split: option.split)
  then show ?case using Cons by (auto simp: Let_def split: prod.splits option.splits)
qed simp

lemma own_request_answers: "answers r r \<Longrightarrow> all_answer r cs \<Longrightarrow> answers r (own_request R r ks cs)"
  by (induction ks arbitrary: cs) (auto split: list.split)

lemma set_everywhere_answers:
  assumes "net_ok n" "answers r r" "set_everywhere n R b ord r w = (res, q, w')"
  shows "answers r q"
proof -
  let ?t = "prepare_all R b r ord new_transaction"
  have p: "all_answer r (trans ?t)" using prepare_all_answers [OF assms(2)] by (simp add: new_transaction_def)
  obtain e t1 w1 where x: "Exec n (b + length ord) ?t w = (e, t1, w1)" by (metis surj_pair)
  have 1: "all_answer r (trans t1)"
  proof -
    obtain res' fin rest w2 where l: "exec_loop n (b + length ord) [] (trans ?t) w = (res', (fin, rest), w2)" by (metis surj_pair)
    have "trans t1 = fin @ rest" using x l by (auto simp: Exec_def)
    then show ?thesis using exec_loop_answers [OF assms(1) _ p l] by simp
  qed
  have 2: "all_answer r (trans (snd (Commit t1)))"
    using 1 check_loop_answers [OF 1] by (cases "check_loop (trans t1)") (simp add: Commit_def)
  show ?thesis using assms(3) x own_request_answers [OF assms(2) 1, of R ord] own_request_answers [OF assms(2) 2, of R ord]
    by (auto simp: set_everywhere_def Let_def split: prod.splits option.splits)
qed

lemma dispatch_answers:
  assumes "net_ok n" "answers r r" "dispatch explode n R b ord r w = (err, q, w')"
  shows "answers r q"
proof (cases "getZoneInfo explode R (getKey r)")
  case None
  then show ?thesis using assms(2,3) by (simp add: dispatch_def)
next
  case (Some info)
  obtain e q1 w1 where "(if rOpStr r = ''GET'' then dispatch_get n R b info r w
      else if rOpStr r = ''SET'' then dispatch_set n R b ord info r w else dispatch_default n R r w) = (e, q1, w1)"
    by (metis surj_pair)
  moreover from this have "answers r q1"
    using dispatch_get_answers [OF _ assms(1,2)] set_everywhere_answers [OF assms(1,2)] forward_to_answers [OF _ assms(1,2)] assms(2)
    by (auto simp: dispatch_set_def dispatch_default_def split: if_splits prod.splits option.splits)
  ultimately show ?thesis using assms(3) Some by (auto simp: dispatch_def split: option.splits)
qed

lemma handleRequest_answers:
  assumes "net_ok n" "answers r r" "handleRequest uni explode n R b ord broken r w = (err, q, w')"
  shows "answers r q"
proof (cases "\<exists>name flag. getOpInfo uni (rMulti r) = Inr (name, flag) \<and> \<not> IsNotAllowed flag")
  case True
  then obtain name flag where g: "getOpInfo uni (rMulti r) = Inr (name, flag)" "\<not> IsNotAllowed flag" by blast
  let ?r = "r\<lparr>rOpStr := name, rOpFlag := flag, rBroken := Some broken\<rparr>"
  have "answers ?r ?r" using assms(2) by (simp add: answers_def)
  moreover have "dispatch explode n R b ord ?r w = (err, q, w')" using assms(3) g by (simp add: handleRequest_def)
  ultimately have "answers ?r q" by (rule dispatch_answers [OF assms(1)])
  then show ?thesis by (simp add: answers_def)
next
  case False
  then show ?thesis using assms(2,3)
    by (auto simp: handleRequest_def answers_def Let_def split: sum.splits prod.splits if_splits)
qed


subsection \<open>The two goroutines\<close>

text \<open>What stays the same while a session runs.\<close>

record sessEnv =
  txtOf :: "goerror \<Rightarrow> string"
  uniUpper :: "string \<Rightarrow> string"
  explodeOf :: "string \<Rightarrow> string list"
  fuelOf :: nat
  cfg :: config
  brokenAt :: nat
  isTCP :: bool

text \<open>
  The reader runs its loop, has left it but not closed the queue yet, or is gone. The writer waits
  for a request, holds one, has left its loop, drops what is left in the queue, or is gone.
\<close>

datatype readPhase = RRun | RLeaving "goerror option" | RGone

datatype writePhase = WRun | WHold request | WLeaving "goerror option" | WDrain | WGone

text \<open>
  The state: the session, its queue and goroutines, the counters of the proxy and the world of
  the backends. \<open>pushed\<close>, \<open>handled\<close> and \<open>dropped\<close> are the history of the queue: the requests put
  in, those answered, and those thrown away at the end.
\<close>

record 'w serving =
  ses :: session
  tasks :: "request requestChan"
  rphase :: readPhase
  wphase :: writePhase
  gcmd :: cmdStats
  world :: 'w
  pushed :: "request list"
  handled :: "request list"
  dropped :: "request list"

definition serving_start :: "session \<Rightarrow> cmdStats \<Rightarrow> 'w \<Rightarrow> config \<Rightarrow> 'w serving" where
  "serving_start s g w c =
     \<lparr>ses = s\<lparr>senc := (senc s)\<lparr>MaxInterval := 1000000, MaxBuffered := go_div (SessionMaxPipeline c) 2\<rparr>\<rparr>,
      tasks = NewRequestChan, rphase = RRun, wphase = WRun, gcmd = g, world = w, pushed = [], handled = [], dropped = []\<rparr>"

abbreviation body_of :: "sessEnv \<Rightarrow> 'w net \<Rightarrow> router \<Rightarrow> nat \<Rightarrow> string list \<Rightarrow> int \<Rightarrow> 'w serving
    \<Rightarrow> (readResult \<times> session \<times> 'w) option" where
  "body_of E n R b ord now t \<equiv> read_body (txtOf E) (uniUpper E) (explodeOf E) (fuelOf E) (cfg E) n R b ord
     (brokenAt E) now (Buffered (tasks t)) (ses t) (world t)"

inductive session_step :: "sessEnv \<Rightarrow> 'w serving \<Rightarrow> 'w serving \<Rightarrow> bool" for E where
  read_on: "rphase t = RRun \<Longrightarrow> \<not> squit (ses t) \<Longrightarrow> net_ok n \<Longrightarrow>
    body_of E n R b ord now t = Some (ReadOn r, s, w) \<Longrightarrow> chan_push r (tasks t) = Some q \<Longrightarrow>
    session_step E t (t\<lparr>ses := s, tasks := q, pushed := pushed t @ [r], world := w\<rparr>)"
| read_last: "rphase t = RRun \<Longrightarrow> \<not> squit (ses t) \<Longrightarrow> net_ok n \<Longrightarrow>
    body_of E n R b ord now t = Some (ReadLast r err, s, w) \<Longrightarrow> chan_push r (tasks t) = Some q \<Longrightarrow>
    session_step E t (t\<lparr>ses := s, tasks := q, pushed := pushed t @ [r], world := w, rphase := RLeaving (Some err)\<rparr>)"
| read_stop: "rphase t = RRun \<Longrightarrow> \<not> squit (ses t) \<Longrightarrow> net_ok n \<Longrightarrow>
    body_of E n R b ord now t = Some (ReadStop err, s, w) \<Longrightarrow>
    session_step E t (t\<lparr>ses := s, world := w, rphase := RLeaving (Some err)\<rparr>)"
| read_quit: "rphase t = RRun \<Longrightarrow> squit (ses t) \<Longrightarrow> session_step E t (t\<lparr>rphase := RLeaving None\<rparr>)"
| reader_leaves: "rphase t = RLeaving err \<Longrightarrow>
    session_step E t (t\<lparr>ses := CloseReaderWithError (isTCP E) err (ses t), tasks := CloseChan (tasks t), rphase := RGone\<rparr>)"
| write_pop: "wphase t = WRun \<Longrightarrow> chan_pop (tasks t) = Some (r, q) \<Longrightarrow>
    session_step E t (t\<lparr>tasks := q, wphase := WHold r\<rparr>)"
| write_reply: "wphase t = WHold r \<Longrightarrow>
    write_body (txtOf E) (cfg E) tm ord (IsEmpty (tasks t)) r (ses t) (gcmd t) = Some (None, s, g) \<Longrightarrow>
    session_step E t (t\<lparr>ses := s, gcmd := g, wphase := WRun, handled := handled t @ [r]\<rparr>)"
| write_fail: "wphase t = WHold r \<Longrightarrow>
    write_body (txtOf E) (cfg E) tm ord (IsEmpty (tasks t)) r (ses t) (gcmd t) = Some (Some err, s, g) \<Longrightarrow>
    session_step E t (t\<lparr>ses := s, gcmd := g, wphase := WLeaving (Some err), handled := handled t @ [r]\<rparr>)"
| write_end: "wphase t = WRun \<Longrightarrow> fst (lockedPopFront (tasks t)) = PopClosed \<Longrightarrow>
    session_step E t (t\<lparr>wphase := WLeaving None\<rparr>)"
| writer_leaves: "wphase t = WLeaving err \<Longrightarrow>
    session_step E t (t\<lparr>ses := CloseWithError err (ses t), wphase := WDrain\<rparr>)"
| write_drop: "wphase t = WDrain \<Longrightarrow> chan_pop (tasks t) = Some (r, q) \<Longrightarrow>
    session_step E t (t\<lparr>ses := (ses t)\<lparr>sstats := sessIncrOpFails (Some (rOpStr r)) (sstats (ses t))\<rparr>, tasks := q,
      dropped := dropped t @ [r]\<rparr>)"
| write_gone: "wphase t = WDrain \<Longrightarrow> fst (lockedPopFront (tasks t)) = PopClosed \<Longrightarrow>
    flushOpStats now True ord (sstats (ses t)) (gcmd t) = (st, g) \<Longrightarrow>
    session_step E t (t\<lparr>ses := (ses t)\<lparr>sstats := st\<rparr>, gcmd := g, wphase := WGone\<rparr>)"
| elsewhere: "session_step E t (t\<lparr>world := w, gcmd := g\<rparr>)"

text \<open>What the client is told for a request.\<close>

definition reply_of :: "sessEnv \<Rightarrow> request \<Rightarrow> resp" where
  "reply_of E r =
     (case handleResponse r of
        Inr x \<Rightarrow> x
      | Inl e \<Rightarrow> NewErrorf (''ERR handle response, '' @ error_text (txtOf E) e))"

definition held_by :: "writePhase \<Rightarrow> request list" where
  "held_by p = (case p of WHold r \<Rightarrow> [r] | _ \<Rightarrow> [])"

lemma held_by_simps [simp]:
  "held_by WRun = []" "held_by (WHold r) = [r]" "held_by (WLeaving e) = []" "held_by WDrain = []" "held_by WGone = []"
  by (simp_all add: held_by_def)

definition replyable :: "request \<Rightarrow> bool" where
  "replyable r \<longleftrightarrow> (\<forall>x. rResp r = Some x \<longrightarrow> encodable x)"

lemma encodable_Errorf [simp]: "encodable (NewErrorf m)"
  by (simp add: new_resp encodable.simps is_text_def)

lemma reply_encodable: "replyable r \<Longrightarrow> encodable (reply_of E r)"
  by (auto simp: reply_of_def handleResponse_def replyable_def split: option.split)

text \<open>What the loop bodies do to the parts of the session.\<close>

lemma read_body_request:
  assumes "read_body txt uni explode fuel c n R b ord broken now queued s w = Some (res, s', w')" "net_ok n"
    "res = ReadOn r \<or> res = ReadLast r err"
  shows "\<exists>d. DecodeMultiBulk fuel (sdec s) = Some (Inr (rMulti r), d) \<and> sdec s' = d" "senc s' = senc s" "replyable r"
    "int queued \<le> SessionMaxPipeline c"
proof -
  obtain multi d where d: "DecodeMultiBulk fuel (sdec s) = Some (Inr multi, d)"
    using assms(1,3) by (auto simp: read_body_def split: option.splits sum.splits prod.splits)
  let ?r = "new_request multi b (sdatabase s) now"
  obtain e r1 w1 where h: "handleRequest uni explode n R (b + 1) ord broken ?r w = (e, r1, w1)" by (metis surj_pair)
  have "answers ?r ?r" by (simp add: answers_def new_request_def zero_request_def)
  from handleRequest_answers [OF assms(2) this h] have a: "rMulti r1 = multi" "\<forall>x. rResp r1 = Some x \<longrightarrow> encodable x"
    by (simp_all add: answers_def new_request_def)
  have q: "int queued \<le> SessionMaxPipeline c" using assms(1,3) d by (auto simp: read_body_def Let_def split: if_splits)
  then have "sdec s' = d \<and> senc s' = senc s \<and> rMulti r = multi \<and> replyable r"
    using assms(1,3) d h a by (cases e) (auto simp: read_body_def Let_def replyable_def split: if_splits)
  then show "\<exists>d. DecodeMultiBulk fuel (sdec s) = Some (Inr (rMulti r), d) \<and> sdec s' = d" "senc s' = senc s" "replyable r"
    "int queued \<le> SessionMaxPipeline c" using d q by auto
qed

lemma read_body_stop:
  "read_body txt uni explode fuel c n R b ord broken now queued s w = Some (ReadStop err, s', w') \<Longrightarrow> senc s' = senc s"
  by (auto simp: read_body_def Let_def split: option.splits sum.splits prod.splits if_splits)

lemma write_body_encodes:
  assumes "fe_at (senc s) rs n" "replyable r"
  shows "\<exists>err s' g'. write_body (txtOf E) c tm ord fl r s g = Some (err, s', g') \<and> sdec s' = sdec s \<and>
    enc_at (fenc (senc s')) (wires (rs @ [reply_of E r])) n \<and> (err = None \<longrightarrow> fe_at (senc s') (rs @ [reply_of E r]) n \<and>
      (fl \<longrightarrow> sink (bw (fenc (senc s'))) = wires (rs @ [reply_of E r])))"
proof (cases "\<exists>e. handleResponse r = Inl e \<and> SessionBreakOnFailure c")
  case True
  then obtain e where e: "handleResponse r = Inl e" "SessionBreakOnFailure c" by blast
  have at: "enc_at (fenc (senc s)) (wires rs) n" using assms(1) by (simp add: fe_at_def)
  obtain er en where "Encode (reply_of E r) True (fenc (senc s)) = Some (er, en)" "enc_at en (wires rs @ wire (reply_of E r)) n"
    using Encode_at [OF at reply_encodable [OF assms(2)], where flush = True] by blast
  then show ?thesis using e by (simp add: write_body_def reply_of_def)
next
  case False
  obtain er p where f: "FEEncode (reply_of E r) (senc s) = Some (er, p)" "enc_at (fenc p) (wires (rs @ [reply_of E r])) n"
    "er = None \<longrightarrow> fe_at p (rs @ [reply_of E r]) n"
    using FEEncode_at [OF assms(1) reply_encodable [OF assms(2)]] by blast
  show ?thesis
  proof (cases er)
    case (Some e)
    then show ?thesis using f False
      by (cases "handleResponse r") (auto simp: write_body_def reply_of_def split: bool.split)
  next
    case None
    obtain e2 p2 where f2: "FEFlush (since tm) fl p = (e2, p2)" "enc_at (fenc p2) (wires (rs @ [reply_of E r])) n"
      "e2 = None \<longrightarrow> fe_at p2 (rs @ [reply_of E r]) n \<and> (fl \<longrightarrow> sink (bw (fenc p2)) = wires (rs @ [reply_of E r]))"
      using FEFlush_at [of p "rs @ [reply_of E r]" n "since tm" fl] f(3) None by blast
    show ?thesis
    proof (cases "handleResponse r")
      case (Inl x)
      then show ?thesis using f f2 None False
        by (cases e2) (auto simp: write_body_def reply_of_def Let_def split: bool.split prod.split)
    next
      case (Inr x)
      then show ?thesis using f f2 None False
        by (cases e2) (auto simp: write_body_def reply_of_def Let_def split: bool.split prod.split)
    qed
  qed
qed


subsection \<open>What every reachable state satisfies\<close>

text \<open>The queue is first in first out: what was put in is what came out, is held, and is left.\<close>

definition order_inv :: "'w serving \<Rightarrow> bool" where
  "order_inv t \<longleftrightarrow> pushed t = handled t @ held_by (wphase t) @ dropped t @ cdata (tasks t) \<and>
     (dropped t \<noteq> [] \<longrightarrow> wphase t = WDrain \<or> wphase t = WGone)"

text \<open>
  The encoder was handed the replies of the handled requests, works while the writer runs, and has
  nothing buffered while the writer waits for a request.
\<close>

definition reply_inv :: "sessEnv \<Rightarrow> nat \<Rightarrow> 'w serving \<Rightarrow> bool" where
  "reply_inv E n t \<longleftrightarrow> (\<forall>r \<in> set (pushed t). replyable r) \<and>
     enc_at (fenc (senc (ses t))) (wires (map (reply_of E) (handled t))) n \<and>
     (wphase t = WRun \<or> (\<exists>r. wphase t = WHold r) \<longrightarrow> fe_at (senc (ses t)) (map (reply_of E) (handled t)) n) \<and>
     (wphase t = WRun \<and> cdata (tasks t) = [] \<longrightarrow> sink (bw (fenc (senc (ses t)))) = wires (map (reply_of E) (handled t)))"

text \<open>
  The requests put into the queue are those the client sent, in order, as far as the client's
  stream consists of requests; the decoder stands behind the last of them.
\<close>

definition agree :: "'a list \<Rightarrow> 'a list \<Rightarrow> bool" where
  "agree xs ys \<longleftrightarrow> take (length ys) xs = take (length xs) ys"

definition stream_inv :: "sessEnv \<Rightarrow> resp list list \<Rightarrow> bytes \<Rightarrow> goerror \<Rightarrow> 'w serving \<Rightarrow> bool" where
  "stream_inv E ms rest e t \<longleftrightarrow> agree (map rMulti (pushed t)) ms \<and>
     (rphase t = RRun \<and> length (pushed t) \<le> length ms \<longrightarrow>
       dec_at (fuelOf E) e (sdec (ses t)) (concat (map wire_multi (drop (length (pushed t)) ms)) @ rest))"

definition queue_inv :: "sessEnv \<Rightarrow> 'w serving \<Rightarrow> bool" where
  "queue_inv E t \<longleftrightarrow> int (length (cdata (tasks t))) \<le> SessionMaxPipeline (cfg E) + 1 \<and>
     (cclosed (tasks t) \<longleftrightarrow> rphase t = RGone)"

definition sess_inv :: "sessEnv \<Rightarrow> resp list list \<Rightarrow> bytes \<Rightarrow> goerror \<Rightarrow> nat \<Rightarrow> 'w serving \<Rightarrow> bool" where
  "sess_inv E ms rest e n t \<longleftrightarrow> list_all good_request ms \<and> order_inv t \<and> reply_inv E n t \<and> stream_inv E ms rest e t \<and> queue_inv E t"

lemma push_facts: "chan_push r c = Some q \<Longrightarrow> cdata q = cdata c @ [r] \<and> cclosed q = cclosed c \<and> \<not> cclosed c"
  by (auto simp: chan_push_def lockedPushBack_def signal_def Let_def split: if_splits)

lemma pop_facts: "chan_pop c = Some (r, q) \<Longrightarrow> cdata c = r # cdata q \<and> cclosed q = cclosed c"
  by (auto simp: chan_pop_def lockedPopFront_def split: list.splits if_splits)

lemma closed_facts: "fst (lockedPopFront c) = PopClosed \<longleftrightarrow> cdata c = [] \<and> cclosed c"
  by (auto simp: lockedPopFront_def split: list.splits)

lemma CloseChan_facts [simp]: "cdata (CloseChan c) = cdata c" "cclosed (CloseChan c)"
  by (auto simp: CloseChan_def broadcast_def)

lemma close_facts [simp]:
  "senc (CloseWithError err s) = senc s" "sdec (CloseWithError err s) = sdec s"
  "senc (CloseReaderWithError tcp err s) = senc s" "sdec (CloseReaderWithError tcp err s) = sdec s"
  by (simp_all add: CloseWithError_def CloseReaderWithError_def exit_do_def CloseReader_def Let_def)

lemma order_inv_step [inv_preserved]: "session_step E t t' \<Longrightarrow> order_inv t \<Longrightarrow> order_inv t'"
  by (induction rule: session_step.induct) (auto simp: order_inv_def closed_facts dest!: push_facts pop_facts)

lemma queue_inv_step [inv_preserved]: "session_step E t t' \<Longrightarrow> queue_inv E t \<Longrightarrow> queue_inv E t'"
proof (induction rule: session_step.induct)
  case (read_on t n R b ord now r s w q)
  then show ?case using read_body_request(4) [OF read_on(4,3)] push_facts [OF read_on(5)]
    by (auto simp: queue_inv_def Buffered_def)
next
  case (read_last t n R b ord now r err s w q)
  then show ?case using read_body_request(4) [OF read_last(4,3)] push_facts [OF read_last(5)]
    by (auto simp: queue_inv_def Buffered_def)
qed (auto simp: queue_inv_def dest!: pop_facts)

lemma agree_snoc:
  assumes "agree xs ys" "length xs < length ys \<Longrightarrow> y = ys ! length xs"
  shows "agree (xs @ [y]) ys"
proof (cases "length xs < length ys")
  case True
  then show ?thesis using assms by (simp add: agree_def take_Suc_conv_app_nth)
next
  case False
  then show ?thesis using assms(1) by (simp add: agree_def)
qed

lemma stream_read:
  assumes "stream_inv E ms rest e t" "rphase t = RRun" "list_all good_request ms"
    "DecodeMultiBulk (fuelOf E) (sdec (ses t)) = Some (Inr m, d)"
  shows "agree (map rMulti (pushed t) @ [m]) ms"
    "Suc (length (pushed t)) \<le> length ms \<Longrightarrow> dec_at (fuelOf E) e d (concat (map wire_multi (drop (Suc (length (pushed t))) ms)) @ rest)"
proof -
  let ?k = "length (pushed t)"
  have more: "m = ms ! ?k \<and> dec_at (fuelOf E) e d (concat (map wire_multi (drop (Suc ?k) ms)) @ rest)" if "?k < length ms"
  proof -
    have "drop ?k ms = ms ! ?k # drop (Suc ?k) ms" using that by (simp add: Cons_nth_drop_Suc)
    then have "dec_at (fuelOf E) e (sdec (ses t)) (wire_multi (ms ! ?k) @ concat (map wire_multi (drop (Suc ?k) ms)) @ rest)"
      using assms(1,2) that by (simp add: stream_inv_def)
    moreover have "good_request (ms ! ?k)" using assms(3) that by (simp add: list_all_length)
    ultimately show ?thesis using DecodeMultiBulk_wire assms(4) by fastforce
  qed
  have "agree (map rMulti (pushed t)) ms" using assms(1) by (simp add: stream_inv_def)
  then show "agree (map rMulti (pushed t) @ [m]) ms" using more by (intro agree_snoc) simp_all
  show "Suc ?k \<le> length ms \<Longrightarrow> dec_at (fuelOf E) e d (concat (map wire_multi (drop (Suc ?k) ms)) @ rest)"
    using more by simp
qed

lemma stream_inv_step [inv_preserved]:
  "session_step E t t' \<Longrightarrow> stream_inv E ms rest e t \<Longrightarrow> list_all good_request ms \<Longrightarrow> reply_inv E n t \<Longrightarrow> order_inv t \<Longrightarrow> stream_inv E ms rest e t'"
proof (induction rule: session_step.induct)
  case (read_on t n R b ord now r s w q)
  obtain d where d: "DecodeMultiBulk (fuelOf E) (sdec (ses t)) = Some (Inr (rMulti r), d)" "sdec s = d"
    using read_body_request(1) [OF read_on(4,3)] by blast
  show ?case using stream_read [OF read_on(6,1,7) d(1)] d(2) by (simp add: stream_inv_def)
next
  case (read_last t n R b ord now r err s w q)
  obtain d where d: "DecodeMultiBulk (fuelOf E) (sdec (ses t)) = Some (Inr (rMulti r), d)" "sdec s = d"
    using read_body_request(1) [OF read_last(4,3)] by blast
  show ?case using stream_read(1) [OF read_last(6,1,7) d(1)] by (simp add: stream_inv_def)
next
  case (write_reply t r tm ord s g)
  have "fe_at (senc (ses t)) (map (reply_of E) (handled t)) n" "replyable r"
    using write_reply.prems(3,4) write_reply.hyps(1) by (auto simp: reply_inv_def order_inv_def)
  from write_body_encodes [OF this] write_reply.hyps(2) have "sdec s = sdec (ses t)" by (metis option.inject prod.inject)
  then show ?case using write_reply.prems(1) by (simp add: stream_inv_def)
next
  case (write_fail t r tm ord err s g)
  have "fe_at (senc (ses t)) (map (reply_of E) (handled t)) n" "replyable r"
    using write_fail.prems(3,4) write_fail.hyps(1) by (auto simp: reply_inv_def order_inv_def)
  from write_body_encodes [OF this] write_fail.hyps(2) have "sdec s = sdec (ses t)" by (metis option.inject prod.inject)
  then show ?case using write_fail.prems(1) by (simp add: stream_inv_def)
qed (simp_all add: stream_inv_def)

lemma reply_inv_step [inv_preserved]:
  "session_step E t t' \<Longrightarrow> reply_inv E n t \<Longrightarrow> order_inv t \<Longrightarrow> reply_inv E n t'"
proof (induction rule: session_step.induct)
  case (read_on t n R b ord now r s w q)
  then show ?case using read_body_request(2,3) [OF read_on(4,3)] push_facts [OF read_on(5)] by (auto simp: reply_inv_def)
next
  case (read_last t n R b ord now r err s w q)
  then show ?case using read_body_request(2,3) [OF read_last(4,3)] push_facts [OF read_last(5)] by (auto simp: reply_inv_def)
next
  case (read_stop t n R b ord now err s w)
  then show ?case using read_body_stop [OF read_stop(4)] by (auto simp: reply_inv_def)
next
  case (write_reply t r tm ord s g)
  have "fe_at (senc (ses t)) (map (reply_of E) (handled t)) n" "replyable r"
    using write_reply.prems write_reply.hyps(1) by (auto simp: reply_inv_def order_inv_def)
  from write_body_encodes [OF this, of E "cfg E" tm ord "IsEmpty (tasks t)" "gcmd t"] write_reply.hyps(2)
  show ?case using write_reply.prems(1) by (auto simp: reply_inv_def IsEmpty_def Buffered_def)
next
  case (write_fail t r tm ord err s g)
  have "fe_at (senc (ses t)) (map (reply_of E) (handled t)) n" "replyable r"
    using write_fail.prems write_fail.hyps(1) by (auto simp: reply_inv_def order_inv_def)
  from write_body_encodes [OF this, of E "cfg E" tm ord "IsEmpty (tasks t)" "gcmd t"] write_fail.hyps(2)
  show ?case using write_fail.prems(1) by (auto simp: reply_inv_def)
qed (auto simp: reply_inv_def)


text \<open>
  A session that serves a client whose stream starts with the requests \<open>ms\<close>, over a connection
  whose write buffer has \<open>n\<close> bytes.
\<close>

definition serves :: "sessEnv \<Rightarrow> resp list list \<Rightarrow> bytes \<Rightarrow> goerror \<Rightarrow> nat \<Rightarrow> 'w serving \<Rightarrow> bool" where
  "serves E ms rest e n t \<longleftrightarrow> list_all good_request ms \<and> 0 \<le> SessionMaxPipeline (cfg E) \<and>
     (\<exists>s g w. t = serving_start s g w (cfg E) \<and> fe_at (senc s) [] n \<and> sink (bw (fenc (senc s))) = [] \<and>
        dec_at (fuelOf E) e (sdec s) (concat (map wire_multi ms) @ rest))"

lemma serves_inv: "serves E ms rest e n t \<Longrightarrow> sess_inv E ms rest e n t"
  by (auto simp: serves_def sess_inv_def serving_start_def order_inv_def reply_inv_def stream_inv_def queue_inv_def
      agree_def NewRequestChan_def fe_at_def)

interpretation serving: trans_sys "serves E ms rest e n" "session_step E" "sess_inv E ms rest e n" for E ms rest e n
proof (unfold_locales, goal_cases)
  case (1 t)
  then show ?case by (rule serves_inv)
next
  case (2 t t')
  then show ?case
    using order_inv_step [of E t t'] queue_inv_step [of E t t'] reply_inv_step [of E t t' n] stream_inv_step [of E t t' ms rest e n]
    by (simp add: sess_inv_def)
qed

text \<open>
  C5. The client gets the replies to its requests, one for each, in the order of the requests.
  However the two goroutines interleave, whatever the backends answer and the connection does:
  the requests taken in are the client's, in order; those handled are the first of them; what the
  socket has taken is a prefix of the encodings of their replies; and whenever the writer waits
  for the next request every request has been answered in full.
\<close>

theorem replies_in_order:
  assumes "serves E ms rest e n t0" "(session_step E)\<^sup>*\<^sup>* t0 t"
  shows "agree (map rMulti (pushed t)) ms \<and>
    (\<exists>left. pushed t = handled t @ left) \<and>
    (\<exists>later. wires (map (reply_of E) (handled t)) = sink (bw (fenc (senc (ses t)))) @ later) \<and>
    (wphase t = WRun \<and> cdata (tasks t) = [] \<longrightarrow> handled t = pushed t \<and>
       sink (bw (fenc (senc (ses t)))) = wires (map (reply_of E) (pushed t)))"
proof -
  have i: "sess_inv E ms rest e n t" using serving.reach_inv [OF assms] .
  have "agree (map rMulti (pushed t)) ms" using i by (simp add: sess_inv_def stream_inv_def)
  moreover have "\<exists>later. wires (map (reply_of E) (handled t)) = sink (bw (fenc (senc (ses t)))) @ later"
    using i enc_at_prefix [of "fenc (senc (ses t))"] by (auto simp: sess_inv_def reply_inv_def)
  moreover have "pushed t = handled t" if "wphase t = WRun" "cdata (tasks t) = []"
    using i that by (auto simp: sess_inv_def order_inv_def)
  ultimately show ?thesis using i by (auto simp: sess_inv_def order_inv_def reply_inv_def)
qed

text \<open>
  The queue of a session is bounded: it never holds more than \<open>session_max_pipeline\<close> requests
  and the one read when it was full.
\<close>

theorem pipeline_bounded:
  assumes "serves E ms rest e n t0" "(session_step E)\<^sup>*\<^sup>* t0 t"
  shows "int (length (cdata (tasks t))) \<le> SessionMaxPipeline (cfg E) + 1"
  using serving.reach_inv [OF assms] by (simp add: sess_inv_def queue_inv_def)


subsection \<open>Every request is answered in the end\<close>

lemma write_body_quiet:
  fixes E :: sessEnv
  assumes "fe_quiet (senc s) n" "replyable r" "\<not> SessionBreakOnFailure c"
  shows "\<exists>s' g'. write_body (txtOf E) c tm ord fl r s g = Some (None, s', g') \<and> fe_quiet (senc s') n"
proof -
  obtain p where p: "FEEncode (reply_of E r) (senc s) = Some (None, p)" "fe_quiet p n"
    using FEEncode_quiet [OF assms(1) reply_encodable [OF assms(2)]] by blast
  obtain p' where p': "FEFlush (since tm) fl p = (None, p')" "fe_quiet p' n" using FEFlush_quiet [OF p(2)] by blast
  show ?thesis
  proof (cases "handleResponse r")
    case (Inl x)
    then show ?thesis using p p' assms(3) by (auto simp: write_body_def reply_of_def Let_def split: prod.split)
  next
    case (Inr x)
    then show ?thesis using p p' assms(3) by (auto simp: write_body_def reply_of_def Let_def split: prod.split)
  qed
qed

text \<open>Such a session has a writer that never fails.\<close>

definition unfailing :: "sessEnv \<Rightarrow> nat \<Rightarrow> 'w serving \<Rightarrow> bool" where
  "unfailing E n t \<longleftrightarrow> \<not> SessionBreakOnFailure (cfg E) \<and> fe_quiet (senc (ses t)) n"

lemma unfailing_step [inv_preserved]:
  "session_step E t t' \<Longrightarrow> unfailing E n t \<Longrightarrow> reply_inv E m t \<Longrightarrow> order_inv t \<Longrightarrow> unfailing E n t'"
proof (induction rule: session_step.induct)
  case (read_on t k R b ord now r s w q)
  then show ?case using read_body_request(2) [OF read_on(4,3)] by (simp add: unfailing_def)
next
  case (read_last t k R b ord now r err s w q)
  then show ?case using read_body_request(2) [OF read_last(4,3)] by (simp add: unfailing_def)
next
  case (read_stop t k R b ord now err s w)
  then show ?case using read_body_stop [OF read_stop(4)] by (simp add: unfailing_def)
next
  case (write_reply t r tm ord s g)
  then have "replyable r" by (auto simp: reply_inv_def order_inv_def)
  then show ?case using write_body_quiet [of "ses t" n r "cfg E" E tm ord "IsEmpty (tasks t)" "gcmd t"] write_reply
    by (auto simp: unfailing_def)
next
  case (write_fail t r tm ord err s g)
  then have "replyable r" by (auto simp: reply_inv_def order_inv_def)
  then show ?case using write_body_quiet [of "ses t" n r "cfg E" E tm ord "IsEmpty (tasks t)" "gcmd t"] write_fail
    by (auto simp: unfailing_def)
qed (simp_all add: unfailing_def)

lemma unfailing_steps:
  "(session_step E)\<^sup>*\<^sup>* t t' \<Longrightarrow> sess_inv E ms rest e m t \<Longrightarrow> unfailing E n t \<Longrightarrow> unfailing E n t'"
proof (induction rule: rtranclp_induct)
  case (step y z)
  then show ?case using unfailing_step serving.steps_inv [OF step(1,4)] by (auto simp: sess_inv_def)
qed simp

text \<open>With the reader gone the writer can finish: it answers what is queued and leaves.\<close>

lemma writer_finishes:
  "sess_inv E ms rest e m t \<Longrightarrow> unfailing E n t \<Longrightarrow> rphase t = RGone \<Longrightarrow> wphase t = WRun \<Longrightarrow>
   \<exists>t'. (session_step E)\<^sup>*\<^sup>* t t' \<and> wphase t' = WGone \<and> handled t' = pushed t \<and> pushed t' = pushed t \<and>
     sink (bw (fenc (senc (ses t')))) = wires (map (reply_of E) (pushed t))"
proof (induction "length (cdata (tasks t))" arbitrary: t)
  case 0
  then have i: "cdata (tasks t) = []" "cclosed (tasks t)" "handled t = pushed t"
    "sink (bw (fenc (senc (ses t)))) = wires (map (reply_of E) (pushed t))"
    by (auto simp: sess_inv_def queue_inv_def order_inv_def reply_inv_def)
  let ?t1 = "t\<lparr>wphase := WLeaving None\<rparr>"
  let ?t2 = "?t1\<lparr>ses := CloseWithError None (ses ?t1), wphase := WDrain\<rparr>"
  obtain st g where f: "flushOpStats 0 True [] (sstats (ses ?t2)) (gcmd ?t2) = (st, g)" by (metis surj_pair)
  let ?t3 = "?t2\<lparr>ses := (ses ?t2)\<lparr>sstats := st\<rparr>, gcmd := g, wphase := WGone\<rparr>"
  have "session_step E t ?t1" using 0 i by (intro write_end) (simp_all add: closed_facts)
  moreover have "session_step E ?t1 ?t2" by (rule writer_leaves) simp
  moreover have "session_step E ?t2 ?t3" using i f by (intro write_gone [where ord = "[]" and now = 0]) (simp_all add: closed_facts)
  ultimately have "(session_step E)\<^sup>*\<^sup>* t ?t3" by (meson rtranclp.rtrancl_refl rtranclp.rtrancl_into_rtrancl)
  then show ?case using i by (intro exI [of _ ?t3]) simp
next
  case (Suc k)
  then obtain r rs where d: "cdata (tasks t) = r # rs" by (cases "cdata (tasks t)") auto
  let ?q = "(tasks t)\<lparr>cdata := rs\<rparr>"
  let ?t1 = "t\<lparr>tasks := ?q, wphase := WHold r\<rparr>"
  have 1: "session_step E t ?t1" using d Suc.prems(4) by (intro write_pop) (simp_all add: chan_pop_def lockedPopFront_def)
  have r: "replyable r" using Suc.prems(1) d by (auto simp: sess_inv_def order_inv_def reply_inv_def)
  obtain s g where w: "write_body (txtOf E) (cfg E) undefined [] (IsEmpty (tasks ?t1)) r (ses ?t1) (gcmd ?t1) = Some (None, s, g)"
    using write_body_quiet [of "ses t" n r "cfg E" E undefined "[]" "IsEmpty ?q" "gcmd t"] Suc.prems(2) r
    by (auto simp: unfailing_def)
  let ?t2 = "?t1\<lparr>ses := s, gcmd := g, wphase := WRun, handled := handled ?t1 @ [r]\<rparr>"
  have 2: "session_step E ?t1 ?t2" using w by (intro write_reply) simp_all
  have s: "(session_step E)\<^sup>*\<^sup>* t ?t2" using 1 2 by (meson rtranclp.rtrancl_refl rtranclp.rtrancl_into_rtrancl)
  have "sess_inv E ms rest e m ?t2" "unfailing E n ?t2"
    using serving.steps_inv [OF s Suc.prems(1)] unfailing_steps [OF s Suc.prems(1,2)] by blast+
  from Suc.hyps(1) [OF _ this] obtain t' where t': "(session_step E)\<^sup>*\<^sup>* ?t2 t'" "wphase t' = WGone" "handled t' = pushed t"
    "pushed t' = pushed t" "sink (bw (fenc (senc (ses t')))) = wires (map (reply_of E) (pushed t))"
    using Suc.hyps(2) Suc.prems(3) d by auto
  then show ?case using s by (meson rtranclp_trans)
qed





subsection \<open>A session that is told to shut down the server\<close>

definition shutdown :: "resp list" where
  "shutdown = [NewBulkBytes (Some ''shutdown'')]"

definition demo_env :: sessEnv where
  "demo_env = \<lparr>txtOf = (\<lambda>_. []), uniUpper = id, explodeOf = (\<lambda>_. []), fuelOf = 100, cfg = default_config,
     brokenAt = 0, isTCP = True\<rparr>"

definition demo_start :: "unit serving" where
  "demo_start = serving_start (NewSession [(0, None, wire_multi shutdown, None)] [] [] [] default_config) no_stats () default_config"

lemma shutdown_good: "good_request shutdown"
  by (simp add: shutdown_def good_request_def is_bulk_list_def IsBulkBytes_def new_resp MaxArrayLen_def wf_resp.simps MaxBulkBytesLen_def)

lemma shutdown_short: "length (wire_multi shutdown) < 90"
  by code_simp

lemma demo_serves: "serves demo_env [shutdown] [] (ErrVar EOF) 1024 demo_start"
proof -
  let ?s = "NewSession [(0, None, wire_multi shutdown, None)] [] [] [] default_config"
  have "read_script [(0, None, wire_multi shutdown, None)] (new_side t) = bytes_reader (wire_multi shutdown)" for t
    by (simp add: conn_read_def set_deadline_def new_side_def TraceOpt_def bytes_reader_def wire_multi_def)
  then have "sdec ?s = NewDecoderSize (bytes_reader (wire_multi shutdown)) 0"
    by (simp add: NewSession_def newConnDecoder_def NewDecoderSize_def NewReaderBuffer_def NewReaderSize_def)
  moreover have "dec_at 100 (ErrVar EOF) (NewDecoderSize (bytes_reader (wire_multi shutdown)) 0) (wire_multi shutdown)"
    using NewDecoder_at [of "bytes_reader (wire_multi shutdown)" 0 100] shutdown_short
    by (simp add: bytes_reader_stream)
  ultimately have d: "dec_at 100 (ErrVar EOF) (sdec ?s) (wire_multi shutdown)" by simp
  have e: "fenc (senc ?s) = NewEncoderSize [] 0" 
    by (simp add: NewSession_def NewFlushEncoder_def newConnEncoder_def NewEncoderSize_def NewWriterBuffer_def NewWriterSize_def)
  have f: "fe_at (senc ?s) [] 1024" "sink (bw (fenc (senc ?s))) = []"
    using NewEncoder_at [of "[]" 0] e
    by (simp_all add: fe_at_def NewEncoderSize_def NewEncoderBuffer_def NewWriterSize_def NewSession_def NewFlushEncoder_def)
  show ?thesis using d f shutdown_good by (auto simp: serves_def demo_start_def demo_env_def default_config_def)
qed


lemma shutdown_refused:
  assumes "rMulti r = shutdown"
  shows "\<exists>r'. handleRequest uni explode n R b ord broken r w =
    (Some (ErrNew (not_allowed ''SHUTDOWN'')), r', w) \<and> rMulti r' = shutdown \<and>
     rErr r' = rErr r \<and> rCoalesce r' = rCoalesce r"
proof -
  have "map ascii_upper ''shutdown'' = ''SHUTDOWN''" by code_simp
  then have "getOpInfo uni shutdown = Inr (''SHUTDOWN'', FlagNotAllow)"
    unfolding shutdown_def by (intro getOpInfo_entry) (simp_all add: op_entries is_letter_def new_resp)
  then show ?thesis using assms by (simp add: handleRequest_def op_flag_tests op_flags)
qed

text \<open>The session reads the command, refuses it, and finds the end of the client's stream.\<close>

definition refusal :: resp where
  "refusal = NewErrorf (''ERR handle request, '' @ not_allowed ''SHUTDOWN'')"

lemma demo_reads:
  "\<exists>r t. (session_step demo_env)\<^sup>*\<^sup>* demo_start t \<and> rphase t \<noteq> RRun \<and> wphase t = WRun \<and> pushed t = [r] \<and> reply_of demo_env r = refusal"
proof -
  let ?E = demo_env
  have inv: "sess_inv ?E [shutdown] [] (ErrVar EOF) 1024 demo_start" by (rule serves_inv [OF demo_serves])
  then have "dec_at (fuelOf ?E) (ErrVar EOF) (sdec (ses demo_start)) (wire_multi shutdown)"
    by (simp add: sess_inv_def stream_inv_def demo_start_def serving_start_def)
  then obtain d where d: "DecodeMultiBulk (fuelOf ?E) (sdec (ses demo_start)) = Some (Inr shutdown, d)" "dec_at (fuelOf ?E) (ErrVar EOF) d []"
    using DecodeMultiBulk_wire [OF shutdown_good, where s = "[]" and fuel = "fuelOf ?E" and e = "ErrVar EOF" and d = "sdec (ses demo_start)"] by auto
  obtain r' where r': "handleRequest (uniUpper ?E) (explodeOf ?E) silent_net (tiny_router []) 1 [] (brokenAt ?E) (new_request shutdown 0 0 0) () =
    (Some (ErrNew (not_allowed ''SHUTDOWN'')), r', ())"
    "rErr r' = None" "rCoalesce r' = None"
    using shutdown_refused [of "new_request shutdown 0 0 0" "uniUpper ?E" "explodeOf ?E" silent_net "tiny_router []" 1 "[]" "brokenAt ?E" "()"]
    by (auto simp: new_request_def zero_request_def)
  let ?r = "r'\<lparr>rResp := Some refusal\<rparr>"
  let ?s = "(ses demo_start)\<lparr>sdec := d, sstats := sessIncrOpTotal new_sessStats, LastOpUnix := 0, SessOps := 1\<rparr>"
  have body: "body_of ?E silent_net (tiny_router []) 0 [] 0 demo_start = Some (ReadOn ?r, ?s, ())"
    using d(1) r' by (simp add: read_body_def demo_start_def serving_start_def NewSession_def demo_env_def default_config_def
        Buffered_def NewRequestChan_def refusal_def int64_def)
  have net: "net_ok silent_net" by (simp add: net_ok_def silent_net_def)
  have start: "rphase demo_start = RRun" "\<not> squit (ses demo_start)" "wphase demo_start = WRun" "pushed demo_start = []" "tasks demo_start = NewRequestChan"
    by (simp_all add: demo_start_def serving_start_def NewSession_def)
  obtain q where q: "chan_push ?r (tasks demo_start) = Some q"
    using start(5) by (simp add: chan_push_def lockedPushBack_def NewRequestChan_def Let_def)
  let ?t1 = "demo_start\<lparr>ses := ?s, tasks := q, pushed := [?r], world := ()\<rparr>"
  have 1: "session_step ?E demo_start ?t1"
    using read_on [OF start(1,2) net body q] start(4) by simp
  obtain b where b: "decodeMultiBulk (fuelOf ?E) (dbr d) = Some (Inl (Trace (ErrVar EOF)), b)"
    using d(2) PeekByte_Nil [of "dbr d" "ErrVar EOF"] by (fastforce simp: dec_at_def decodeMultiBulk_def)
  then obtain d' where d': "DecodeMultiBulk (fuelOf ?E) d = Some (Inl (Trace (ErrVar EOF)), d')"
    using d(2) by (simp add: DecodeMultiBulk_def dec_at_def)
  have 2: "session_step ?E ?t1 (?t1\<lparr>ses := ?s\<lparr>sdec := d'\<rparr>, world := (), rphase := RLeaving (Some (Trace (ErrVar EOF)))\<rparr>)"
    using start d' net by (intro read_stop [where n = silent_net and R = "tiny_router []" and b = 0 and ord = "[]" and now = 0])
      (simp_all add: read_body_def)
  let ?t2 = "?t1\<lparr>ses := ?s\<lparr>sdec := d'\<rparr>, world := (), rphase := RLeaving (Some (Trace (ErrVar EOF)))\<rparr>"
  have "reply_of ?E ?r = refusal" using r'(2,3) by (simp add: reply_of_def handleResponse_def)
  moreover have "(session_step ?E)\<^sup>*\<^sup>* demo_start ?t2"
    using 1 2 by (meson rtranclp.rtrancl_refl rtranclp.rtrancl_into_rtrancl)
  moreover have "rphase ?t2 \<noteq> RRun \<and> wphase ?t2 = WRun \<and> pushed ?t2 = [?r]" using start by simp
  ultimately show ?thesis by blast
qed


text \<open>The witnesses of the four properties: this session, whose client is told no.\<close>

lemma demo_quiet: "fe_quiet (senc (ses demo_start)) 1024" "\<not> SessionBreakOnFailure (cfg demo_env)"
  using writes_to_new [of 1024]
  by (auto simp: fe_quiet_def demo_start_def serving_start_def NewSession_def NewFlushEncoder_def newConnEncoder_def
      NewEncoderBuffer_def NewWriterBuffer_def NewWriterSize_def demo_env_def default_config_def)


theorem replies_in_order_witness:
  "\<exists>t. (session_step demo_env)\<^sup>*\<^sup>* demo_start t \<and> rphase t \<noteq> RRun \<and> agree (map rMulti (pushed t)) [shutdown] \<and>
    (\<exists>later. wires (map (reply_of demo_env) (handled t)) = sink (bw (fenc (senc (ses t)))) @ later)"
proof -
  obtain r t where t: "(session_step demo_env)\<^sup>*\<^sup>* demo_start t" "rphase t \<noteq> RRun" using demo_reads by blast
  from replies_in_order [OF demo_serves t(1)] t show ?thesis by blast
qed

theorem pipeline_bounded_witness:
  "\<exists>t. (session_step demo_env)\<^sup>*\<^sup>* demo_start t \<and> rphase t \<noteq> RRun \<and> int (length (cdata (tasks t))) \<le> SessionMaxPipeline (cfg demo_env) + 1"
proof -
  obtain r t where t: "(session_step demo_env)\<^sup>*\<^sup>* demo_start t" "rphase t \<noteq> RRun" using demo_reads by blast
  from pipeline_bounded [OF demo_serves t(1)] t show ?thesis by blast
qed


subsection \<open>The limit on sessions\<close>

text \<open>
  Clients come and go: \<open>StartSession\<close> for one that comes, \<open>decrSessions\<close> when the writer of a
  session has returned. The second part of the state is how many sessions run.
\<close>

inductive gate_step :: "config \<Rightarrow> sessCount \<times> nat \<Rightarrow> sessCount \<times> nat \<Rightarrow> bool" for c where
  gate_in: "StartSession c R sc = (Started, sc') \<Longrightarrow> gate_step c (sc, k) (sc', Suc k)"
| gate_refused: "StartSession c R sc = (Refused msg why, sc') \<Longrightarrow> gate_step c (sc, k) (sc', k)"
| gate_out: "gate_step c (sc, Suc k) (decrSessions sc, k)"

inductive_cases gate_stepE: "gate_step c (sc, k) s"

definition gate_inv :: "config \<Rightarrow> sessCount \<times> nat \<Rightarrow> bool" where
  "gate_inv c s \<longleftrightarrow> sessAlive (fst s) = int (snd s) \<and> int (snd s) \<le> ProxyMaxClients c \<and> ProxyMaxClients c < 2 ^ 63 - 1"

lemma gate_inv_step [inv_preserved]:
  assumes "gate_step c s s'" "gate_inv c s"
  shows "gate_inv c s'"
proof -
  have w: "wrap64 (int k + 1) = int k + 1" "wrap64 (int k) = int k" if "int k \<le> ProxyMaxClients c" for k
    using that assms(2) by (auto intro!: wrap64_id simp: int64_def gate_inv_def)
  show ?thesis using assms(1,2)
  proof (induction rule: gate_step.induct)
    case (gate_in R sc sc' k)
    then show ?case using w [of k]
      by (auto simp: gate_inv_def StartSession_def incrSessions_def IncrInt64_def AddInt64_def Let_def split: if_splits)
  next
    case (gate_refused R sc msg why sc' k)
    then show ?case using w [of k]
      by (auto simp: gate_inv_def StartSession_def incrSessions_def decrSessions_def IncrInt64_def DecrInt64_def AddInt64_def Let_def split: if_splits)
  next
    case (gate_out sc k)
    then show ?case using w [of k] by (simp add: gate_inv_def decrSessions_def DecrInt64_def AddInt64_def)
  qed
qed


definition gate_start :: "config \<Rightarrow> sessCount \<times> nat \<Rightarrow> bool" where
  "gate_start c s \<longleftrightarrow> sessAlive (fst s) = 0 \<and> snd s = 0 \<and> 0 \<le> ProxyMaxClients c \<and> ProxyMaxClients c < 2 ^ 63 - 1"

interpretation gate: trans_sys "gate_start c" "gate_step c" "gate_inv c" for c
proof (unfold_locales, goal_cases)
  case (1 s)
  then show ?case by (simp add: gate_start_def gate_inv_def)
next
  case (2 s s')
  then show ?case by (rule gate_inv_step)
qed

text \<open>
  C24. The number of sessions is counted exactly and limited: however clients come and go, and
  however the router goes on and off line, \<open>sessions.alive\<close> is the number of sessions that run,
  and it never exceeds \<open>proxy_max_clients\<close>.
\<close>

theorem sessions_limited:
  assumes "gate_start c (sc0, 0)" "(gate_step c)\<^sup>*\<^sup>* (sc0, 0) (sc, k)"
  shows "sessAlive sc = int k \<and> int k \<le> ProxyMaxClients c"
  using gate.reach_inv [OF assms] by (simp add: gate_inv_def)

theorem sessions_limited_witness:
  "\<exists>sc. (gate_step (default_config\<lparr>ProxyMaxClients := 1\<rparr>))\<^sup>*\<^sup>* (\<lparr>sessTotal = 0, sessAlive = 0\<rparr>, 0) (sc, 1) \<and> sessAlive sc = 1"
proof -
  let ?c = "default_config\<lparr>ProxyMaxClients := 1\<rparr>" and ?s = "\<lparr>sessTotal = 0, sessAlive = 0\<rparr>"
  have g: "gate_start ?c (?s, 0)" by (simp add: gate_start_def)
  obtain sc where "StartSession ?c (Start (tiny_router [])) ?s = (Started, sc)"
    by (auto simp: StartSession_def incrSessions_def IncrInt64_def AddInt64_def int64_def isOnline_def Start_def tiny_router_def)
  then have "gate_step ?c (?s, 0) (sc, 1)" using gate_in by fastforce
  then have "(gate_step ?c)\<^sup>*\<^sup>* (?s, 0) (sc, 1)" by simp
  with sessions_limited [OF g this] show ?thesis by auto
qed

end
