(* ===== verification/Handshake.thy ===== *)
theory Handshake
  imports Conn Config Request
begin

section \<open>Dialling a backend\<close>

text \<open>
  Models \<open>newBackendReader\<close>, \<open>verifyAuth\<close> and \<open>selectDatabase\<close> of \<open>pkg/proxy/pool.go\<close> over the
  connection of \<open>Conn\<close>: what is written goes through the encoder and its buffer, what is read
  through the decoder. The dialled socket is the script of its reads and writes with the memory of
  the two buffers. The outer \<open>None\<close> is fuel that is too small for \<open>Decode\<close>.
\<close>

record dialled_conn =
  cdec :: decoder
  cenc :: encoder

text \<open>The check of the replies to \<open>AUTH\<close> and \<open>SELECT\<close>.\<close>

definition handshake_reply :: "goerror + resp \<Rightarrow> goerror option" where
  "handshake_reply res =
     (case res of
        Inl e \<Rightarrow> Some e
      | Inr r \<Rightarrow>
          if IsError r then Some (ErrNew (''error resp: '' @ text_of (rvalue r)))
          else if IsString r then None
          else Some (ErrNew (''error resp: should be string, but got '' @ RespType_String (rtype r))))"

text \<open>\<open>c.EncodeMultiBulk(multi, true)\<close>, then \<open>c.Decode()\<close> unless it failed.\<close>

definition exchange :: "nat \<Rightarrow> resp list \<Rightarrow> dialled_conn \<Rightarrow> (goerror option \<times> dialled_conn) option" where
  "exchange fuel multi c =
     (case EncodeMultiBulk (Some multi) True (cenc c) of
        None \<Rightarrow> None
      | Some (Some err, e) \<Rightarrow> Some (Some err, c\<lparr>cenc := e\<rparr>)
      | Some (None, e) \<Rightarrow>
          (case Decode fuel (cdec c) of
             None \<Rightarrow> None
           | Some (res, d) \<Rightarrow> Some (handshake_reply res, c\<lparr>cenc := e, cdec := d\<rparr>)))"

definition AuthMulti :: "string \<Rightarrow> resp list" where
  "AuthMulti auth = [bulk ''AUTH'', bulk auth]"

definition verifyAuth :: "nat \<Rightarrow> string \<Rightarrow> dialled_conn \<Rightarrow> (goerror option \<times> dialled_conn) option" where
  "verifyAuth fuel auth c = (if auth = [] then Some (None, c) else exchange fuel (AuthMulti auth) c)"

definition SelectMulti :: "int \<Rightarrow> resp list" where
  "SelectMulti db = [bulk ''SELECT'', bulk (Itoa db)]"

definition selectDatabase :: "nat \<Rightarrow> int \<Rightarrow> dialled_conn \<Rightarrow> (goerror option \<times> dialled_conn) option" where
  "selectDatabase fuel db c = (if db = 0 then Some (None, c) else exchange fuel (SelectMulti db) c)"

text \<open>
  \<open>newBackendReader\<close>: the error, or the connection with the capacity of its task channel; and what
  was done to the socket besides reading and writing. Setting the keep-alive period may fail,
  which is ignored.
\<close>

definition newBackendReader :: "nat \<Rightarrow> config \<Rightarrow> int \<Rightarrow> bool \<Rightarrow> goerror option \<times> goerror option
    \<Rightarrow> goerror + (sockRead list \<times> sockWrite list \<times> bytes \<times> bytes)
    \<Rightarrow> ((goerror + (dialled_conn \<times> int)) \<times> sockCall list) option" where
  "newBackendReader fuel conf db tcp kerrs dial =
     (case dial of
        Inl e \<Rightarrow> Some (Inl (Trace e), [])
      | Inr (rds, wrs, rmem, wmem) \<Rightarrow>
          (let c = \<lparr>cdec = newConnDecoder rds (BackendRecvTimeout conf) rmem,
                    cenc = newConnEncoder wrs (BackendSendTimeout conf) wmem\<rparr>;
               calls = snd (SetKeepAlivePeriod tcp (fst kerrs) (snd kerrs) (BackendKeepAlivePeriod conf))
           in case verifyAuth fuel (ProductAuth conf) c of
                None \<Rightarrow> None
              | Some (Some err, c1) \<Rightarrow> Some (Inl err, calls @ [CloseCall])
              | Some (None, c1) \<Rightarrow>
                  (case selectDatabase fuel db c1 of
                     None \<Rightarrow> None
                   | Some (Some err, c2) \<Rightarrow> Some (Inl err, calls @ [CloseCall])
                   | Some (None, c2) \<Rightarrow> Some (Inr (c2, BackendMaxPipeline conf), calls))))"

subsection \<open>What a dial puts on the wire\<close>

text \<open>The commands of the handshake, in order.\<close>

definition handshake :: "config \<Rightarrow> int \<Rightarrow> resp list list" where
  "handshake conf db =
     (if ProductAuth conf = [] then [] else [AuthMulti (ProductAuth conf)]) @
     (if db = 0 then [] else [SelectMulti db])"

definition hello :: "config \<Rightarrow> int \<Rightarrow> bytes" where
  "hello conf db = concat (map wire_multi (handshake conf db))"

text \<open>A connection that has written \<open>w\<close> in full and will read \<open>s\<close>, then the error \<open>e\<close>.\<close>

definition conn_at :: "nat \<Rightarrow> goerror \<Rightarrow> dialled_conn \<Rightarrow> bytes \<Rightarrow> nat \<Rightarrow> bytes \<Rightarrow> bool" where
  "conn_at fuel e c w n s \<longleftrightarrow>
     dec_at fuel e (cdec c) s \<and> enc_at (cenc c) w n \<and> eErr (cenc c) = None \<and> sink (bw (cenc c)) = w"

lemma encodable_bulk [simp]: "encodable (bulk s)"
  by (simp add: bulk_def NewBulkBytes_def encodable.simps)

lemma handshake_reply_string: "handshake_reply (Inr r) = None \<longleftrightarrow> IsString r"
  by (auto simp: handshake_reply_def IsError_def IsString_def resp_types)

text \<open>One command: either it has failed, or all of it has gone out and a status reply was read.\<close>

lemma exchange_at:
  assumes "conn_at fuel e c w n (wire r @ s)" "wf_resp r" "list_all encodable multi"
  shows "\<exists>err c'. exchange fuel multi c = Some (err, c') \<and>
    (err = None \<longrightarrow> IsString r \<and> conn_at fuel e c' (w @ wire_multi multi) n s)"
proof -
  obtain er en where en: "EncodeMultiBulk (Some multi) True (cenc c) = Some (er, en)" "enc_at en (w @ wire_multi multi) n"
    "er = None \<longrightarrow> eErr en = None \<and> sink (bw en) = w @ wire_multi multi"
    using EncodeMultiBulk_at [of "cenc c" w n multi True] assms(1,3) unfolding conn_at_def by blast
  obtain d where d: "Decode fuel (cdec c) = Some (Inr r, d)" "dec_at fuel e d s"
    using Decode_wire [OF assms(2)] assms(1) unfolding conn_at_def by blast
  show ?thesis
  proof (cases er)
    case None
    then have "exchange fuel multi c = Some (handshake_reply (Inr r), c\<lparr>cenc := en, cdec := d\<rparr>)"
      using en(1) d(1) by (simp add: exchange_def)
    moreover have "conn_at fuel e (c\<lparr>cenc := en, cdec := d\<rparr>) (w @ wire_multi multi) n s"
      using en(2,3) d(2) None by (simp add: conn_at_def)
    ultimately show ?thesis by (simp add: handshake_reply_string)
  next
    case (Some x)
    then show ?thesis using en(1) by (simp add: exchange_def)
  qed
qed

lemma conn_new:
  assumes "clean (read_script rds (new_side t))" "serr (read_script rds (new_side t)) \<noteq> ErrVar ErrBufferFull"
    "rmem = [] \<or> 16 \<le> length rmem" "Suc (length (sdata (read_script rds (new_side t)))) < fuel"
  shows "conn_at fuel (serr (read_script rds (new_side t)))
    \<lparr>cdec = newConnDecoder rds t rmem, cenc = newConnEncoder wrs u wmem\<rparr>
    [] (if wmem = [] then 1024 else length wmem) (sdata (read_script rds (new_side t)))"
proof -
  let ?b = "NewReaderBuffer (read_script rds (new_side t)) rmem"
  let ?n = "if rmem = [] then DefaultBufferSize else length rmem"
  have "reader_at ?b (sdata (read_script rds (new_side t))) (serr (read_script rds (new_side t))) ?n"
    using assms by (auto simp: reader_at_def NewReaderBuffer_def rinv_def window_def Let_def DefaultBufferSize_def)
  moreover have "16 \<le> ?n" using assms(3) by (auto simp: DefaultBufferSize_def)
  ultimately have "dec_at fuel (serr (read_script rds (new_side t))) (newConnDecoder rds t rmem) (sdata (read_script rds (new_side t)))"
    using assms(4) unfolding dec_at_def newConnDecoder_def NewDecoderBuffer_def by auto
  moreover have "enc_at (newConnEncoder wrs u wmem) [] (if wmem = [] then 1024 else length wmem)"
    using sent_new_buffer [of "write_script wrs (new_side u)" wmem]
    by (simp add: enc_at_def newConnEncoder_def NewEncoderBuffer_def NewWriterBuffer_def Let_def)
  ultimately show ?thesis
    by (simp add: conn_at_def newConnEncoder_def NewEncoderBuffer_def NewWriterBuffer_def Let_def)
qed

text \<open>
  The first part of the handshake as one step: nothing, or one command answered by the first
  of the replies left.
\<close>

lemma step_at:
  assumes "conn_at fuel e c w n (concat (map wire (rs1 @ rs2)) @ s)" "list_all wf_resp rs1"
    "length rs1 = (if skip then 0 else 1)" "list_all encodable multi"
  shows "\<exists>err c'. (if skip then Some (None, c) else exchange fuel multi c) = Some (err, c') \<and>
    (err = None \<longrightarrow> list_all IsString rs1 \<and>
       conn_at fuel e c' (w @ concat (map wire_multi (if skip then [] else [multi]))) n (concat (map wire rs2) @ s))"
proof (cases skip)
  case True
  then show ?thesis using assms(1,3) by simp
next
  case False
  then obtain r where r: "rs1 = [r]" using assms(3) by (auto simp: length_Suc_conv)
  then have "conn_at fuel e c w n (wire r @ (concat (map wire rs2) @ s))" "wf_resp r" using assms(1,2) by simp_all
  from exchange_at [OF this assms(4)] show ?thesis using r False by simp
qed

text \<open>The whole handshake: the password fails, or the database does, or every command was answered by a status.\<close>

lemma handshake_run:
  assumes "conn_at fuel e c [] n (concat (map wire rs) @ s)" "list_all wf_resp rs" "length rs = length (handshake conf db)"
  shows "(\<exists>err c1. verifyAuth fuel (ProductAuth conf) c = Some (Some err, c1))
    \<or> (\<exists>c1 err c2. verifyAuth fuel (ProductAuth conf) c = Some (None, c1) \<and> selectDatabase fuel db c1 = Some (Some err, c2))
    \<or> (\<exists>c1 c2. verifyAuth fuel (ProductAuth conf) c = Some (None, c1) \<and> selectDatabase fuel db c1 = Some (None, c2)
         \<and> list_all IsString rs \<and> conn_at fuel e c2 (hello conf db) n s)"
proof -
  let ?auth = "ProductAuth conf = []" and ?sel = "db = 0"
  let ?w = "concat (map wire_multi (if ?auth then [] else [AuthMulti (ProductAuth conf)]))"
  define rs1 where "rs1 = take (if ?auth then 0 else 1) rs"
  define rs2 where "rs2 = drop (if ?auth then 0 else 1) rs"
  have rs: "rs = rs1 @ rs2" by (simp add: rs1_def rs2_def)
  have len: "length rs1 = (if ?auth then 0 else 1)" "length rs2 = (if ?sel then 0 else 1)"
    using assms(3) by (auto simp: rs1_def rs2_def handshake_def split: if_splits)
  have wf: "list_all wf_resp rs1" "list_all wf_resp rs2" using assms(2) rs by simp_all
  have enc: "list_all encodable (AuthMulti (ProductAuth conf))" "list_all encodable (SelectMulti db)"
    by (simp_all add: AuthMulti_def SelectMulti_def)
  have all: "?w @ concat (map wire_multi (if ?sel then [] else [SelectMulti db])) = hello conf db"
    by (simp add: hello_def handshake_def)
  obtain err1 c1 where v: "verifyAuth fuel (ProductAuth conf) c = Some (err1, c1)"
    "err1 = None \<Longrightarrow> list_all IsString rs1 \<and> conn_at fuel e c1 ?w n (concat (map wire (rs2 @ [])) @ s)"
    using step_at [OF assms(1) [unfolded rs] wf(1) len(1) enc(1)] unfolding verifyAuth_def by (metis append_Nil append_Nil2)
  show ?thesis
  proof (cases err1)
    case None
    from step_at [OF v(2) [OF None, THEN conjunct2] wf(2) len(2) enc(2)] obtain err2 c2 where u: "selectDatabase fuel db c1 = Some (err2, c2)"
      "err2 = None \<Longrightarrow> list_all IsString rs2 \<and> conn_at fuel e c2 (hello conf db) n (concat (map wire []) @ s)"
      unfolding selectDatabase_def all by blast
    show ?thesis using v None u rs by (cases err2) simp_all
  qed (use v(1) in simp)
qed


text \<open>Database 3, no password: the server answers the one command of the handshake.\<close>

definition ok_reads :: "sockRead list" where
  "ok_reads = [(0, None, wire (NewString ''OK''), None)]"


end
