(* ===== verification/Delay.thy ===== *)
theory Delay
  imports GoErrors
begin

section \<open>Exponential back-off\<close>

text \<open>
  Models \<open>pkg/proxy/delay.go\<close>. The state is the last value; \<open>None\<close> is the panic of \<open>MinMaxInt\<close>
  on an empty range. A duration is the number of nanoseconds the caller sleeps.
\<close>

record delayExp2 =
  dMin :: int
  dMax :: int
  dValue :: int
  dUnit :: int

definition ResetDelay :: "delayExp2 \<Rightarrow> delayExp2" where
  "ResetDelay d = d\<lparr>dValue := 0\<rparr>"

definition NextValue :: "delayExp2 \<Rightarrow> (int \<times> delayExp2) option" where
  "NextValue d =
     (case MinMaxInt (wrap64 (dValue d * 2)) (dMin d) (dMax d) of
        None \<Rightarrow> None
      | Some v \<Rightarrow> Some (v, d\<lparr>dValue := v\<rparr>))"

text \<open>\<open>After\<close> and \<open>Sleep\<close>: the time they wait.\<close>

definition AfterDelay :: "delayExp2 \<Rightarrow> (int \<times> delayExp2) option" where
  "AfterDelay d = (case NextValue d of None \<Rightarrow> None | Some (v, d') \<Rightarrow> Some (wrap64 (dUnit d * v), d'))"

definition SleepDelay :: "delayExp2 \<Rightarrow> (int \<times> delayExp2) option" where
  "SleepDelay d = (case NextValue d of None \<Rightarrow> None | Some (v, d') \<Rightarrow> Some (wrap64 (dUnit d * v), d'))"

text \<open>
  \<open>SleepWithCancel\<close> sleeps one unit at a time and asks \<open>canceled\<close> before each: \<open>canceled i\<close> is
  the answer of the \<open>i\<close>-th call, the result the number of units slept (\<open>total\<close> is not negative
  when \<open>Min\<close> is not, otherwise the loop of the code would only end when cancelled).
\<close>

fun sleepLoop :: "nat \<Rightarrow> nat \<Rightarrow> (nat \<Rightarrow> bool) \<Rightarrow> nat" where
  "sleepLoop i 0 canceled = i"
| "sleepLoop i (Suc left) canceled = (if canceled i then i else sleepLoop (Suc i) left canceled)"

definition SleepWithCancel :: "(nat \<Rightarrow> bool) \<Rightarrow> delayExp2 \<Rightarrow> (nat \<times> delayExp2) option" where
  "SleepWithCancel canceled d =
     (case NextValue d of None \<Rightarrow> None | Some (v, d') \<Rightarrow> Some (sleepLoop 0 (nat v) canceled, d'))"

lemma sleepLoop_bound: "sleepLoop i left canceled \<le> i + left"
proof (induction left arbitrary: i)
  case 0
  then show ?case by simp
next
  case (Suc left)
  show ?case using Suc.IH [of "Suc i"] by simp
qed

text \<open>The value after \<open>k\<close> calls since the last reset.\<close>

primrec after_calls :: "nat \<Rightarrow> delayExp2 \<Rightarrow> delayExp2 option" where
  "after_calls 0 d = Some d"
| "after_calls (Suc k) d = (case after_calls k d of None \<Rightarrow> None | Some d' \<Rightarrow> map_option snd (NextValue d'))"

definition delay_ok :: "delayExp2 \<Rightarrow> bool" where
  "delay_ok d \<longleftrightarrow> 0 < dMin d \<and> dMin d \<le> dMax d \<and> dMax d < 2 ^ 62"

lemma NextValue_ok:
  assumes "delay_ok d" "0 \<le> dValue d" "dValue d \<le> dMax d"
  shows "NextValue d = Some (min (max (2 * dValue d) (dMin d)) (dMax d),
    d\<lparr>dValue := min (max (2 * dValue d) (dMin d)) (dMax d)\<rparr>)"
proof -
  have "int64 (dValue d * 2)" using assms by (simp add: int64_def delay_ok_def)
  then show ?thesis using assms by (simp add: NextValue_def delay_ok_def MinMaxInt_clamp mult.commute)
qed

lemma clamp_double:
  "0 < lo \<Longrightarrow> lo \<le> hi \<Longrightarrow> lo \<le> x \<Longrightarrow> min (max (2 * min x hi) lo) hi = min (2 * x) (hi :: int)"
  by (simp add: min_def max_def)

lemma doubled_clamp:
  assumes "0 < lo" "lo \<le> hi"
  shows "min (max (2 * min (lo * 2 ^ k) hi) lo) hi = min (lo * 2 ^ Suc k) (hi :: int)"
proof -
  have "lo \<le> lo * 2 ^ k" using assms by (simp add: mult_le_cancel_left1)
  from clamp_double [OF assms this] show ?thesis by simp
qed

lemma after_calls_value:
  assumes "delay_ok d"
  shows "after_calls (Suc k) (ResetDelay d) = Some (d\<lparr>dValue := min (dMin d * 2 ^ k) (dMax d)\<rparr>)"
proof (induction k)
  case 0
  have "delay_ok (d\<lparr>dValue := 0\<rparr>)" using assms by (simp add: delay_ok_def)
  from NextValue_ok [OF this] show ?case using assms by (simp add: ResetDelay_def delay_ok_def)
next
  case (Suc k)
  let ?d = "d\<lparr>dValue := min (dMin d * 2 ^ k) (dMax d)\<rparr>"
  have "delay_ok ?d" "0 \<le> dValue ?d" "dValue ?d \<le> dMax ?d" using assms by (simp_all add: delay_ok_def)
  from NextValue_ok [OF this] show ?case
    using Suc doubled_clamp [of "dMin d" "dMax d" k] assms by (simp add: delay_ok_def)
qed

text \<open>
  Back-off. After a reset, the \<open>k\<close>-th waiting time is \<open>Min\<close> doubled \<open>k - 1\<close> times, capped at
  \<open>Max\<close>: it never overflows, never leaves the range and never panics.
\<close>

theorem backoff_doubles:
  assumes "delay_ok d"
  shows "map_option dValue (after_calls (Suc k) (ResetDelay d)) = Some (min (dMin d * 2 ^ k) (dMax d))"
  using after_calls_value [OF assms, of k] by simp

theorem backoff_doubles_witness:
  "map_option dValue (after_calls (Suc 9) (ResetDelay \<lparr>dMin = 50, dMax = 5000, dValue = 17, dUnit = 1000000\<rparr>)) = Some 5000"
  using backoff_doubles [of "\<lparr>dMin = 50, dMax = 5000, dValue = 17, dUnit = 1000000\<rparr>" 9] by (simp add: delay_ok_def)

end
