(* ===== verification/Backend.thy ===== *)
theory Backend
  imports Request Delay "HOL-Library.Multiset"
begin

section \<open>A backend connection\<close>

text \<open>
  Models \<open>BackendConn\<close> of \<open>pkg/proxy/pool.go\<close> with its goroutines: the writer \<open>run\<close> (dial, write
  requests, drain, wait before a retry) and one reader \<open>loopReader\<close> per dialled connection. The
  goroutines are the steps of a relation on the state below; the network, the clock and the
  scheduler choose the step. A request is named by a number that stands for one \<open>PushBack\<close> of it;
  \<open>reqs\<close> gives its fields and \<open>brk\<close> the answer of \<open>IsBroken\<close> when the writer takes it.
  The lemmas show where each request is, that it is answered at most once and, by the measure
  \<open>chore\<close>, that the goroutines of an open connection can always go on until all are answered.
\<close>

subsection \<open>State\<close>

type_synonym answer = "resp option \<times> goerror option"

definition stateConnected :: int where "stateConnected = 1"
definition stateDataStale :: int where "stateDataStale = 2"

text \<open>
  A dialled connection and its reader: the channel \<open>tasks\<close>, the request being answered, whether
  the reader runs, drains the channel after a failure or has returned. Ghost: the requests
  encoded on the connection in order, those since the last flush, the replies given out.
\<close>

datatype rphase = RRun | RDrain | RDone

record rdr =
  tasks :: "nat list"
  tclosed :: bool
  rcur :: "nat option"
  rphase :: rphase
  wsent :: "nat list"
  unflushed :: "nat list"
  got :: "(nat \<times> resp) list"

definition new_rdr :: rdr where
  "new_rdr = \<lparr>tasks = [], tclosed = False, rcur = None, rphase = RRun, wsent = [], unflushed = [], got = []\<rparr>"

text \<open>
  Where the writer is: at the loop head of \<open>run\<close>, dialling, at \<open>range bc.input\<close>, holding a
  written request that the channel has no room for, in the deferred drain with a number of
  requests left (and whether \<open>loopWriter\<close> returns an error), at the loop head or in the \<open>select\<close>
  of \<open>delayBeforeRetry\<close>, gone.
\<close>

datatype wphase = WStart | WDial | WLoop | WHold nat | WDrain nat bool | WDelayCheck | WDelaySelect | WExit

record backend =
  input :: "nat list"
  inclosed :: bool
  bclosed :: bool
  bstate :: int
  bfails :: int
  bdelay :: delayExp2
  wph :: wphase
  rdrs :: "rdr list"
  accepted :: "nat list"
  dropped :: "nat list"
  answered :: "(nat \<times> answer) list"

definition input_cap :: nat where "input_cap = 10240"

definition NewBackendConn :: backend where
  "NewBackendConn =
     \<lparr>input = [], inclosed = False, bclosed = False, bstate = 0, bfails = 0,
      bdelay = \<lparr>dMin = 50, dMax = 5000, dValue = 0, dUnit = 1000000\<rparr>,
      wph = WStart, rdrs = [], accepted = [], dropped = [], answered = []\<rparr>"

subsection \<open>Operations\<close>

definition IsConnected :: "backend \<Rightarrow> bool" where
  "IsConnected b = (bstate b = stateConnected)"

text \<open>\<open>PushBack\<close>: \<open>None\<close> is the panic of a send on the closed channel; a full channel drops.\<close>

definition PushBack :: "nat \<Rightarrow> backend \<Rightarrow> backend option" where
  "PushBack r b =
     (if inclosed b then None
      else if length (input b) < input_cap then Some (b\<lparr>input := input b @ [r], accepted := accepted b @ [r]\<rparr>)
      else Some (b\<lparr>dropped := dropped b @ [r]\<rparr>))"

definition setResponse :: "nat \<Rightarrow> resp option \<Rightarrow> goerror option \<Rightarrow> backend \<Rightarrow> backend" where
  "setResponse r resp err b = b\<lparr>answered := answered b @ [(r, (resp, err))]\<rparr>"

abbreviation reset_answer :: "nat \<Rightarrow> backend \<Rightarrow> backend" where
  "reset_answer r b \<equiv> setResponse r None (Some (ErrVar ErrBackendConnReset)) b"

text \<open>The current connection is the last one dialled.\<close>

definition upd_last :: "('a \<Rightarrow> 'a) \<Rightarrow> 'a list \<Rightarrow> 'a list" where
  "upd_last f xs = (case rev xs of [] \<Rightarrow> [] | x # ys \<Rightarrow> rev ys @ [f x])"

text \<open>A dial that succeeds: a new reader starts, the writer enters its loop.\<close>

definition dialled :: "backend \<Rightarrow> backend" where
  "dialled b = b\<lparr>rdrs := rdrs b @ [new_rdr], bstate := stateConnected, bfails := 0, bdelay := ResetDelay (bdelay b), wph := WLoop\<rparr>"

text \<open>A dial that fails: only the deferred drain runs.\<close>

definition dial_failed :: "backend \<Rightarrow> backend" where
  "dial_failed b = b\<lparr>wph := WDrain (length (input b)) True\<rparr>"

text \<open>The deferred calls of \<open>loopWriter\<close> once a connection was made: state, tasks, then the drain.\<close>

definition writer_exit :: "bool \<Rightarrow> backend \<Rightarrow> backend" where
  "writer_exit err b =
     b\<lparr>bstate := 0, rdrs := upd_last (\<lambda>q. q\<lparr>tclosed := True\<rparr>) (rdrs b), wph := WDrain (length (input b)) err\<rparr>"

text \<open>
  One round of the writer's loop on request \<open>r\<close>. The network decides whether encoding or flushing
  fails, the clock whether the last write is longer ago than \<open>MaxInterval\<close> (\<open>late\<close>); \<open>cap\<close> is
  \<open>BackendMaxPipeline\<close>, and \<open>MaxBuffered\<close> half of it.
\<close>

datatype wire_out = EncodeFails goerror | FlushFails goerror | Written bool

definition conn_failure :: "string \<Rightarrow> (goerror \<Rightarrow> string) \<Rightarrow> goerror \<Rightarrow> goerror" where
  "conn_failure tag etxt e = ErrNew (tag @ ''backend conn failure, '' @ error_text etxt e)"

definition write_one :: "nat \<Rightarrow> (nat \<Rightarrow> request) \<Rightarrow> (nat \<Rightarrow> bool) \<Rightarrow> (goerror \<Rightarrow> string) \<Rightarrow> wire_out \<Rightarrow> nat \<Rightarrow> backend \<Rightarrow> backend" where
  "write_one cap reqs brk etxt out r b =
     (if IsReadOnly (rOpFlag (reqs r)) \<and> brk r then setResponse r None (Some (ErrVar ErrRequestIsBroken)) b
      else
        (case out of
           EncodeFails e \<Rightarrow> writer_exit True (setResponse r None (Some (conn_failure ''W1'' etxt e)) b)
         | FlushFails e \<Rightarrow> writer_exit True (setResponse r None (Some (conn_failure ''W2'' etxt e)) b)
         | Written late \<Rightarrow>
             b\<lparr>rdrs := upd_last (\<lambda>q.
                  let un = unflushed q @ [r];
                      need = cap div 2 < length un \<or> late;
                      flushed = input b = [] \<or> need
                  in q\<lparr>wsent := wsent q @ [r], unflushed := (if flushed then [] else un)\<rparr>) (rdrs b),
               wph := WHold r\<rparr>))"

text \<open>\<open>tasks <- r\<close>: a buffered channel has room below its capacity, an unbuffered one when the reader waits.\<close>

definition has_room :: "nat \<Rightarrow> rdr \<Rightarrow> bool" where
  "has_room cap q \<longleftrightarrow> length (tasks q) < cap \<or> tasks q = [] \<and> rcur q = None \<and> rphase q \<noteq> RDone"

definition send_task :: "nat \<Rightarrow> backend \<Rightarrow> backend" where
  "send_task r b = b\<lparr>rdrs := upd_last (\<lambda>q. q\<lparr>tasks := tasks q @ [r]\<rparr>) (rdrs b), wph := WLoop\<rparr>"

text \<open>\<open>delayBeforeRetry\<close> up to the loop: ten failures are retried at once.\<close>

definition delayBeforeRetry :: "backend \<Rightarrow> backend option" where
  "delayBeforeRetry b =
     (let b1 = b\<lparr>bfails := bfails b + 1\<rparr> in
      if bfails b1 \<le> 10 then Some (b1\<lparr>wph := WStart\<rparr>)
      else (case AfterDelay (bdelay b1) of
              None \<Rightarrow> None
            | Some (_, d) \<Rightarrow> Some (b1\<lparr>bdelay := d, wph := WDelayCheck\<rparr>)))"

text \<open>The reader's side, on connection \<open>q\<close>.\<close>

definition stale_reply :: "resp \<Rightarrow> bool" where
  "stale_reply resp \<longleftrightarrow> IsError resp \<and>
     (has_prefix (text_of (rvalue resp)) ''MASTERDOWN'' \<or> has_prefix (text_of (rvalue resp)) ''LOADING'')"

definition note_state :: "resp \<Rightarrow> backend \<Rightarrow> backend" where
  "note_state resp b =
     (if stale_reply resp then b\<lparr>bstate := snd (CompareAndSwap (bstate b) stateConnected stateDataStale)\<rparr> else b)"

definition reader_take :: "rdr \<Rightarrow> rdr" where
  "reader_take q = (case tasks q of r # ts \<Rightarrow> q\<lparr>tasks := ts, rcur := Some r\<rparr> | [] \<Rightarrow> q)"

definition reader_got :: "nat \<Rightarrow> nat \<Rightarrow> resp \<Rightarrow> backend \<Rightarrow> backend" where
  "reader_got j r resp b =
     setResponse r (Some resp) None
       (note_state resp (b\<lparr>rdrs := (rdrs b)[j := (rdrs b ! j)\<lparr>rcur := None, got := got (rdrs b ! j) @ [(r, resp)]\<rparr>]\<rparr>))"

definition reader_failed :: "(goerror \<Rightarrow> string) \<Rightarrow> nat \<Rightarrow> nat \<Rightarrow> goerror \<Rightarrow> backend \<Rightarrow> backend" where
  "reader_failed etxt j r e b =
     setResponse r None (Some (conn_failure ''R2'' etxt e))
       (b\<lparr>rdrs := (rdrs b)[j := (rdrs b ! j)\<lparr>rcur := None, rphase := RDrain\<rparr>]\<rparr>)"

subsection \<open>Steps\<close>

inductive bstep :: "nat \<Rightarrow> (nat \<Rightarrow> request) \<Rightarrow> (nat \<Rightarrow> bool) \<Rightarrow> (goerror \<Rightarrow> string) \<Rightarrow> backend \<Rightarrow> backend \<Rightarrow> bool"
  for cap :: nat and reqs :: "nat \<Rightarrow> request" and brk :: "nat \<Rightarrow> bool" and etxt :: "goerror \<Rightarrow> string" where
  push: "r \<notin> set (accepted b) \<Longrightarrow> PushBack r b = Some b' \<Longrightarrow> bstep cap reqs brk etxt b b'"
| stop_input: "bstep cap reqs brk etxt b (b\<lparr>inclosed := True\<rparr>)"
| close_flag: "inclosed b \<Longrightarrow> bstep cap reqs brk etxt b (b\<lparr>bclosed := True\<rparr>)"
| run_exit: "wph b = WStart \<Longrightarrow> bclosed b \<Longrightarrow> bstep cap reqs brk etxt b (b\<lparr>wph := WExit\<rparr>)"
| run_round: "wph b = WStart \<Longrightarrow> \<not> bclosed b \<Longrightarrow> bstep cap reqs brk etxt b (b\<lparr>wph := WDial\<rparr>)"
| dial_ok: "wph b = WDial \<Longrightarrow> bstep cap reqs brk etxt b (dialled b)"
| dial_err: "wph b = WDial \<Longrightarrow> bstep cap reqs brk etxt b (dial_failed b)"
| write_req: "wph b = WLoop \<Longrightarrow> input b = r # rest \<Longrightarrow>
    bstep cap reqs brk etxt b (write_one cap reqs brk etxt out r (b\<lparr>input := rest\<rparr>))"
| input_end: "wph b = WLoop \<Longrightarrow> input b = [] \<Longrightarrow> inclosed b \<Longrightarrow> bstep cap reqs brk etxt b (writer_exit False b)"
| send_req: "wph b = WHold r \<Longrightarrow> rdrs b \<noteq> [] \<Longrightarrow> has_room cap (last (rdrs b)) \<Longrightarrow> bstep cap reqs brk etxt b (send_task r b)"
| drain_one: "wph b = WDrain (Suc i) err \<Longrightarrow> input b = r # rest \<Longrightarrow>
    bstep cap reqs brk etxt b (reset_answer r (b\<lparr>input := rest, wph := WDrain i err\<rparr>))"
| drain_ok: "wph b = WDrain 0 False \<Longrightarrow> bstep cap reqs brk etxt b (b\<lparr>wph := WStart\<rparr>)"
| drain_err: "wph b = WDrain 0 True \<Longrightarrow> delayBeforeRetry b = Some b' \<Longrightarrow> bstep cap reqs brk etxt b b'"
| delay_closed: "wph b = WDelayCheck \<Longrightarrow> bclosed b \<Longrightarrow> bstep cap reqs brk etxt b (b\<lparr>wph := WStart\<rparr>)"
| delay_select: "wph b = WDelayCheck \<Longrightarrow> \<not> bclosed b \<Longrightarrow> bstep cap reqs brk etxt b (b\<lparr>wph := WDelaySelect\<rparr>)"
| delay_timeout: "wph b = WDelaySelect \<Longrightarrow> bstep cap reqs brk etxt b (b\<lparr>wph := WStart\<rparr>)"
| delay_end: "wph b = WDelaySelect \<Longrightarrow> input b = [] \<Longrightarrow> inclosed b \<Longrightarrow> bstep cap reqs brk etxt b (b\<lparr>wph := WStart\<rparr>)"
| delay_one: "wph b = WDelaySelect \<Longrightarrow> input b = r # rest \<Longrightarrow>
    bstep cap reqs brk etxt b (reset_answer r (b\<lparr>input := rest, wph := WDelayCheck\<rparr>))"
| read_take: "j < length (rdrs b) \<Longrightarrow> rphase (rdrs b ! j) = RRun \<Longrightarrow> rcur (rdrs b ! j) = None \<Longrightarrow> tasks (rdrs b ! j) \<noteq> [] \<Longrightarrow>
    bstep cap reqs brk etxt b (b\<lparr>rdrs := (rdrs b)[j := reader_take (rdrs b ! j)]\<rparr>)"
| read_ok: "j < length (rdrs b) \<Longrightarrow> rphase (rdrs b ! j) = RRun \<Longrightarrow> rcur (rdrs b ! j) = Some r \<Longrightarrow>
    bstep cap reqs brk etxt b (reader_got j r resp b)"
| read_err: "j < length (rdrs b) \<Longrightarrow> rphase (rdrs b ! j) = RRun \<Longrightarrow> rcur (rdrs b ! j) = Some r \<Longrightarrow>
    bstep cap reqs brk etxt b (reader_failed etxt j r e b)"
| read_end: "j < length (rdrs b) \<Longrightarrow> rphase (rdrs b ! j) \<noteq> RDone \<Longrightarrow> rcur (rdrs b ! j) = None \<Longrightarrow> tasks (rdrs b ! j) = [] \<Longrightarrow>
    tclosed (rdrs b ! j) \<Longrightarrow> bstep cap reqs brk etxt b (b\<lparr>rdrs := (rdrs b)[j := (rdrs b ! j)\<lparr>rphase := RDone\<rparr>]\<rparr>)"
| read_drain: "j < length (rdrs b) \<Longrightarrow> rphase (rdrs b ! j) = RDrain \<Longrightarrow> tasks (rdrs b ! j) = r # ts \<Longrightarrow>
    bstep cap reqs brk etxt b (reset_answer r (b\<lparr>rdrs := (rdrs b)[j := (rdrs b ! j)\<lparr>tasks := ts\<rparr>]\<rparr>))"

subsection \<open>Where a request is\<close>

definition pending :: "rdr \<Rightarrow> nat list" where
  "pending q = (case rcur q of None \<Rightarrow> [] | Some r \<Rightarrow> [r]) @ tasks q"

definition hold :: "wphase \<Rightarrow> nat list" where
  "hold w = (case w of WHold r \<Rightarrow> [r] | _ \<Rightarrow> [])"

text \<open>Accepted and not answered: queued, held by the writer, or at a reader.\<close>

definition outstanding :: "backend \<Rightarrow> nat list" where
  "outstanding b = input b @ hold (wph b) @ concat (map pending (rdrs b))"

definition writing :: "wphase \<Rightarrow> bool" where
  "writing w \<longleftrightarrow> w = WLoop \<or> (\<exists>r. w = WHold r)"

lemma writing_simps [simp]:
  "writing WLoop" "writing (WHold r)" "\<not> writing WStart" "\<not> writing WDial" "\<not> writing (WDrain i e)"
  "\<not> writing WDelayCheck" "\<not> writing WDelaySelect" "\<not> writing WExit"
  by (simp_all add: writing_def)

lemma hold_simps [simp]:
  "hold WLoop = []" "hold (WHold r) = [r]" "hold WStart = []" "hold WDial = []" "hold (WDrain i e) = []"
  "hold WDelayCheck = []" "hold WDelaySelect = []" "hold WExit = []"
  by (simp_all add: hold_def)

lemma upd_last_update: "upd_last f xs = xs[length xs - 1 := f (xs ! (length xs - 1))]"
  by (cases xs rule: rev_cases) (simp_all add: upd_last_def)

lemma length_upd_last [simp]: "length (upd_last f xs) = length xs"
  by (simp add: upd_last_update)

lemma upd_last_snoc [simp]: "upd_last f (xs @ [x]) = xs @ [f x]"
  by (simp add: upd_last_def)

lemma mset_update:
  assumes "j < length xs"
  shows "mset (concat (map f (xs[j := y]))) + mset (f (xs ! j)) = mset (concat (map f xs)) + mset (f y)"
proof -
  have "xs = take j xs @ xs ! j # drop (Suc j) xs" using assms by (rule id_take_nth_drop)
  then have "concat (map f xs) = concat (map f (take j xs)) @ f (xs ! j) @ concat (map f (drop (Suc j) xs))"
    by (metis concat.simps(2) concat_append list.simps(9) map_append)
  moreover have "xs[j := y] = take j xs @ y # drop (Suc j) xs" using assms by (rule upd_conv_take_nth_drop)
  ultimately show ?thesis by simp
qed

text \<open>The shape of the state: who has the open channel, and what readers that stopped have left.\<close>

definition shape :: "backend \<Rightarrow> bool" where
  "shape b \<longleftrightarrow>
     (writing (wph b) \<longrightarrow> rdrs b \<noteq> []) \<and>
     (\<forall>i < length (rdrs b). tclosed (rdrs b ! i) = (\<not> (writing (wph b) \<and> Suc i = length (rdrs b)))) \<and>
     (\<forall>q \<in> set (rdrs b). (rphase q \<noteq> RRun \<longrightarrow> rcur q = None) \<and> (rphase q = RDone \<longrightarrow> tasks q = [] \<and> tclosed q)) \<and>
     (\<forall>i e. wph b = WDrain i e \<longrightarrow> i \<le> length (input b)) \<and>
     (bclosed b \<longrightarrow> inclosed b)"

lemma shape_writing: "shape b \<Longrightarrow> writing (wph b) \<Longrightarrow> \<exists>olds q. rdrs b = olds @ [q] \<and> \<not> tclosed q \<and> rphase q \<noteq> RDone"
proof -
  assume a: "shape b" "writing (wph b)"
  then obtain olds q where q: "rdrs b = olds @ [q]" unfolding shape_def by (metis rev_exhaust)
  moreover have "\<not> tclosed q" using a q unfolding shape_def by (auto dest: spec [of _ "length olds"])
  moreover have "rphase q \<noteq> RDone" using a q calculation(2) unfolding shape_def by auto
  ultimately show ?thesis by blast
qed

lemma shape_drain: "shape b \<Longrightarrow> wph b = WDrain i e \<Longrightarrow> i \<le> length (input b)"
  by (simp add: shape_def)

text \<open>Changing one reader, without touching whether its channel is closed.\<close>

lemma shape_reader:
  assumes "shape b" "j < length (rdrs b)" "tclosed q' = tclosed (rdrs b ! j)"
    "rphase q' \<noteq> RRun \<Longrightarrow> rcur q' = None" "rphase q' = RDone \<Longrightarrow> tasks q' = [] \<and> tclosed q'"
    "rdrs b' = (rdrs b)[j := q']" "wph b' = wph b" "input b' = input b" "bclosed b' = bclosed b" "inclosed b' = inclosed b"
  shows "shape b'"
  using assms unfolding shape_def
  by (auto simp: nth_list_update dest!: subsetD [OF set_update_subset_insert] split: if_splits)

lemma shape_start: "shape NewBackendConn"
  by (simp add: shape_def NewBackendConn_def)

lemma shape_at:
  "shape b \<Longrightarrow> j < length (rdrs b) \<Longrightarrow>
   (rphase (rdrs b ! j) \<noteq> RRun \<longrightarrow> rcur (rdrs b ! j) = None)
   \<and> (rphase (rdrs b ! j) = RDone \<longrightarrow> tasks (rdrs b ! j) = [] \<and> tclosed (rdrs b ! j))"
  unfolding shape_def using nth_mem by blast

lemma set_rdrs_update:
  "(\<forall>q \<in> set xs. P q) \<Longrightarrow> P y \<Longrightarrow> (\<forall>q \<in> set (xs[j := y]). P q)"
  using set_update_subset_insert [of xs j y] by blast

text \<open>The writer changes the open connection and stays in its loop, or closes its channel.\<close>

lemma shape_last:
  assumes "shape b" "writing (wph b)" "writing w" "\<And>q. tclosed (f q) = tclosed q" "\<And>q. rphase (f q) = rphase q"
    "\<And>q. rcur (f q) = rcur q" "\<And>q. rphase q \<noteq> RDone \<Longrightarrow> rphase (f q) \<noteq> RDone"
    "rdrs b' = upd_last f (rdrs b)" "wph b' = w" "bclosed b' = bclosed b" "inclosed b' = inclosed b"
  shows "shape b'"
proof -
  obtain olds q where q: "rdrs b = olds @ [q]" "\<not> tclosed q" "rphase q \<noteq> RDone" using shape_writing [OF assms(1,2)] by blast
  have "\<forall>i < Suc (length olds). tclosed ((olds @ [f q]) ! i) = (\<not> Suc i = Suc (length olds))"
    using assms(1) q assms(2,4) unfolding shape_def by (auto simp: nth_append less_Suc_eq)
  then show ?thesis
    using assms(1,3,5,6,8-11) q unfolding shape_def by (auto simp: writing_def)
qed

lemma shape_exit:
  assumes "shape b" "writing (wph b)"
  shows "shape (writer_exit err b)"
proof -
  obtain olds q where q: "rdrs b = olds @ [q]" "\<not> tclosed q" "rphase q \<noteq> RDone" using shape_writing [OF assms] by blast
  have "\<forall>i < Suc (length olds). tclosed ((olds @ [q\<lparr>tclosed := True\<rparr>]) ! i)"
    using assms q unfolding shape_def by (auto simp: nth_append less_Suc_eq)
  then show ?thesis using assms(1) q unfolding shape_def by (auto simp: writer_exit_def)
qed

lemma shape_setResponse [simp]: "shape (setResponse r x e b) = shape b"
  by (simp add: shape_def setResponse_def)

lemma wph_setResponse [simp]:
  "wph (setResponse r x e b) = wph b" "rdrs (setResponse r x e b) = rdrs b" "input (setResponse r x e b) = input b"
  "inclosed (setResponse r x e b) = inclosed b" "bclosed (setResponse r x e b) = bclosed b"
  "accepted (setResponse r x e b) = accepted b" "bdelay (setResponse r x e b) = bdelay b"
  "answered (setResponse r x e b) = answered b @ [(r, (x, e))]" "bstate (setResponse r x e b) = bstate b"
  by (simp_all add: setResponse_def)

lemma shape_idle:
  assumes "shape b" "\<not> writing (wph b)" "\<not> writing (wph b')" "rdrs b' = rdrs b"
    "\<forall>i e. wph b' = WDrain i e \<longrightarrow> i \<le> length (input b')" "bclosed b' = bclosed b" "inclosed b' = inclosed b"
  shows "shape b'"
  using assms by (simp add: shape_def)

lemma note_state_fields [simp]:
  "rdrs (note_state x b) = rdrs b" "wph (note_state x b) = wph b" "input (note_state x b) = input b"
  "inclosed (note_state x b) = inclosed b" "bclosed (note_state x b) = bclosed b" "accepted (note_state x b) = accepted b"
  "answered (note_state x b) = answered b" "bdelay (note_state x b) = bdelay b"
  by (simp_all add: note_state_def)

lemma delayBeforeRetry_fields:
  assumes "delayBeforeRetry b = Some b'"
  shows "rdrs b' = rdrs b \<and> input b' = input b \<and> inclosed b' = inclosed b \<and> bclosed b' = bclosed b
    \<and> accepted b' = accepted b \<and> answered b' = answered b \<and> (wph b' = WStart \<or> wph b' = WDelayCheck)"
  using assms by (auto simp: delayBeforeRetry_def Let_def split: if_splits option.splits prod.splits)

lemma shape_write_one:
  assumes "shape b" "wph b = WLoop"
  shows "shape (write_one cap reqs brk etxt out r (b\<lparr>input := rest\<rparr>))"
proof -
  have b: "shape (b\<lparr>input := rest\<rparr>)" "writing (wph (b\<lparr>input := rest\<rparr>))" using assms by (simp_all add: shape_def)
  show ?thesis
  proof (cases out)
    case (Written late)
    let ?f = "\<lambda>q. let un = unflushed q @ [r]; need = cap div 2 < length un \<or> late; flushed = input (b\<lparr>input := rest\<rparr>) = [] \<or> need
        in q\<lparr>wsent := wsent q @ [r], unflushed := (if flushed then [] else un)\<rparr>"
    have "shape ((b\<lparr>input := rest\<rparr>)\<lparr>rdrs := upd_last ?f (rdrs (b\<lparr>input := rest\<rparr>)), wph := WHold r\<rparr>)"
      by (rule shape_last [OF b, where f = ?f and w = "WHold r"]) (simp_all add: Let_def)
    then show ?thesis using Written b by (simp add: write_one_def)
  qed (use b shape_exit [of "setResponse r x y (b\<lparr>input := rest\<rparr>)" for x y] in \<open>auto simp: write_one_def\<close>)
qed

lemma bstep_shape: "bstep cap reqs brk etxt b b' \<Longrightarrow> shape b \<Longrightarrow> shape b'"
proof (induction rule: bstep.induct)
  case (push r b b')
  then show ?case by (auto simp: PushBack_def shape_def split: if_splits)
next
  case (write_req b r rest out)
  then show ?case by (simp add: shape_write_one)
next
  case (dial_ok b)
  then show ?case by (auto simp: shape_def dialled_def new_rdr_def nth_append less_Suc_eq)
next
  case (send_req b r)
  then show ?case
    unfolding send_task_def by (auto intro!: shape_last [where b = b and f = "\<lambda>q. q\<lparr>tasks := tasks q @ [r]\<rparr>" and w = WLoop])
next
  case (input_end b)
  then show ?case by (simp add: shape_exit)
next
  case (drain_err b b')
  then show ?case using delayBeforeRetry_fields [OF drain_err(2)] by (auto intro!: shape_idle [of b b'])
next
  case (read_take j b)
  show ?case
    by (rule shape_reader [of b j "reader_take (rdrs b ! j)"])
      (use read_take shape_at [OF read_take(5,1)] in \<open>auto simp: reader_take_def split: list.split\<close>)
next
  case (read_ok j b r resp)
  show ?case
    by (rule shape_reader [of b j "(rdrs b ! j)\<lparr>rcur := None, got := got (rdrs b ! j) @ [(r, resp)]\<rparr>"])
      (use read_ok in \<open>auto simp: reader_got_def\<close>)
next
  case (read_err j b r e)
  show ?case
    by (rule shape_reader [of b j "(rdrs b ! j)\<lparr>rcur := None, rphase := RDrain\<rparr>"])
      (use read_err in \<open>auto simp: reader_failed_def\<close>)
next
  case (read_end j b)
  show ?case
    by (rule shape_reader [of b j "(rdrs b ! j)\<lparr>rphase := RDone\<rparr>"]) (use read_end in auto)
next
  case (read_drain j b r ts)
  show ?case
    by (rule shape_reader [of b j "(rdrs b ! j)\<lparr>tasks := ts\<rparr>"])
      (use read_drain shape_at [OF read_drain(4,1)] in auto)
qed (auto simp: shape_def dial_failed_def)

subsection \<open>Every request is answered once\<close>

definition accounted :: "backend \<Rightarrow> bool" where
  "accounted b \<longleftrightarrow>
     mset (accepted b) = mset (outstanding b) + mset (map fst (answered b)) \<and> distinct (accepted b)"

lemma pending_new [simp]: "pending new_rdr = []"
  by (simp add: pending_def new_rdr_def)

lemma pending_closed [simp]: "pending (q\<lparr>tclosed := c\<rparr>) = pending q"
  by (simp add: pending_def)

lemma upd_last_Nil [simp]: "upd_last f [] = []"
  by (simp add: upd_last_def)

lemma concat_upd_last:
  assumes "\<And>q. pending (f q) = pending q"
  shows "concat (map pending (upd_last f qs)) = concat (map pending qs)"
  by (cases qs rule: rev_cases) (simp_all add: assms)

lemma accounted_same:
  assumes "accounted b" "accepted b' = accepted b" "mset (outstanding b') + mset (map fst (answered b')) = mset (outstanding b) + mset (map fst (answered b))"
  shows "accounted b'"
  using assms by (simp add: accounted_def)

text \<open>A reader that answers or takes one request.\<close>

lemma outstanding_reader:
  assumes "j < length (rdrs b)" "rdrs b' = (rdrs b)[j := q']" "wph b' = wph b" "input b' = input b"
  shows "mset (outstanding b') + mset (pending (rdrs b ! j)) = mset (outstanding b) + mset (pending q')"
  using mset_update [OF assms(1), of pending q'] assms(2-4) by (simp add: outstanding_def algebra_simps)

lemma accounted_reader:
  assumes "accounted b" "j < length (rdrs b)" "rdrs b' = (rdrs b)[j := q']" "wph b' = wph b" "input b' = input b"
    "accepted b' = accepted b" "answered b' = answered b @ new" "pending (rdrs b ! j) = map fst new @ pending q'"
  shows "accounted b'"
proof (rule accounted_same [OF assms(1,6)])
  have "mset (outstanding b') + mset (map fst new) + mset (pending q') = mset (outstanding b) + mset (pending q')"
    using outstanding_reader [OF assms(2-5)] assms(8) by (simp add: ac_simps)
  then show "mset (outstanding b') + mset (map fst (answered b')) = mset (outstanding b) + mset (map fst (answered b))"
    using assms(7) by (simp add: ac_simps)
qed

lemma writer_exit_fields [simp]:
  "input (writer_exit err b) = input b" "accepted (writer_exit err b) = accepted b"
  "answered (writer_exit err b) = answered b" "hold (wph (writer_exit err b)) = []"
  "concat (map pending (rdrs (writer_exit err b))) = concat (map pending (rdrs b))"
  by (simp_all add: writer_exit_def concat_upd_last)

lemma accounted_write_one:
  assumes "accounted b" "wph b = WLoop" "input b = r # rest"
  shows "accounted (write_one cap reqs brk etxt out r (b\<lparr>input := rest\<rparr>))"
proof (rule accounted_same [OF assms(1)])
  let ?b = "write_one cap reqs brk etxt out r (b\<lparr>input := rest\<rparr>)"
  show "accepted ?b = accepted b" by (simp add: write_one_def split: wire_out.split)
  have same: "concat (map pending (upd_last (\<lambda>q. let un = unflushed q @ [r]; need = cap div 2 < length un \<or> late; flushed = e \<or> need
      in q\<lparr>wsent := wsent q @ [r], unflushed := (if flushed then [] else un)\<rparr>) qs)) = concat (map pending qs)" for late e qs
    by (rule concat_upd_last) (simp add: pending_def Let_def)
  show "mset (outstanding ?b) + mset (map fst (answered ?b)) = mset (outstanding b) + mset (map fst (answered b))"
    using assms(2,3) same by (simp add: write_one_def outstanding_def split: wire_out.split)
qed

lemma bstep_accounted: "bstep cap reqs brk etxt b b' \<Longrightarrow> shape b \<Longrightarrow> accounted b \<Longrightarrow> accounted b'"
proof (induction rule: bstep.induct)
  case (push r b b')
  then show ?case by (auto simp: PushBack_def accounted_def outstanding_def split: if_splits)
next
  case (write_req b r rest out)
  then show ?case by (simp add: accounted_write_one)
next
  case (dial_ok b)
  then show ?case by (simp add: accounted_def outstanding_def dialled_def)
next
  case (input_end b)
  then show ?case by (simp add: accounted_def outstanding_def)
next
  case (send_req b r)
  then have "concat (map pending (upd_last (\<lambda>q. q\<lparr>tasks := tasks q @ [r]\<rparr>) (rdrs b))) = concat (map pending (rdrs b)) @ [r]"
    by (cases "rdrs b" rule: rev_cases) (simp_all add: pending_def)
  then show ?case using send_req by (simp add: accounted_def outstanding_def send_task_def)
next
  case (drain_err b b')
  then show ?case using delayBeforeRetry_fields [OF drain_err(2)] by (auto simp: accounted_def outstanding_def)
next
  case (read_take j b)
  show ?case
    by (rule accounted_reader [OF read_take(6,1), where q' = "reader_take (rdrs b ! j)" and new = "[]"])
      (use read_take in \<open>auto simp: pending_def reader_take_def split: list.split\<close>)
next
  case (read_ok j b r resp)
  show ?case
    by (rule accounted_reader [OF read_ok(5,1), where q' = "(rdrs b ! j)\<lparr>rcur := None, got := got (rdrs b ! j) @ [(r, resp)]\<rparr>"
          and new = "[(r, (Some resp, None))]"])
      (use read_ok in \<open>simp_all add: pending_def reader_got_def\<close>)
next
  case (read_err j b r e)
  show ?case
    by (rule accounted_reader [OF read_err(5,1), where q' = "(rdrs b ! j)\<lparr>rcur := None, rphase := RDrain\<rparr>"
          and new = "[(r, (None, Some (conn_failure ''R2'' etxt e)))]"])
      (use read_err in \<open>simp_all add: pending_def reader_failed_def\<close>)
next
  case (read_end j b)
  show ?case
    by (rule accounted_reader [OF read_end(7,1), where q' = "(rdrs b ! j)\<lparr>rphase := RDone\<rparr>" and new = "[]"])
      (use read_end in \<open>simp_all add: pending_def\<close>)
next
  case (read_drain j b r ts)
  have "rcur (rdrs b ! j) = None" using shape_at [OF read_drain(4,1)] read_drain(2) by simp
  then show ?case
    by (intro accounted_reader [OF read_drain(5,1), where q' = "(rdrs b ! j)\<lparr>tasks := ts\<rparr>"
          and new = "[(r, (None, Some (ErrVar ErrBackendConnReset)))]"])
      (use read_drain in \<open>simp_all add: pending_def\<close>)
qed (auto simp: accounted_def outstanding_def dial_failed_def)

subsection \<open>Replies go to the request they answer\<close>

text \<open>
  On the open connection a running reader's replies, its pending requests and the one the writer
  holds are exactly what was sent, in order; on the others they are a prefix of it.
\<close>

definition in_line :: "bool \<Rightarrow> wphase \<Rightarrow> rdr \<Rightarrow> bool" where
  "in_line open_conn w q \<longleftrightarrow>
     (if rphase q = RRun then
        (if open_conn \<and> writing w then map fst (got q) @ pending q @ hold w = wsent q
         else \<exists>rest. map fst (got q) @ pending q @ rest = wsent q)
      else \<exists>rest. map fst (got q) @ rest = wsent q)"

definition lined_up :: "backend \<Rightarrow> bool" where
  "lined_up b \<longleftrightarrow> (\<forall>i < length (rdrs b). in_line (Suc i = length (rdrs b)) (wph b) (rdrs b ! i))"

lemma in_line_prefix: "in_line o1 w q \<Longrightarrow> \<exists>rest. wsent q = map fst (got q) @ rest"
  unfolding in_line_def by (metis append_assoc)

lemma in_line_stop:
  assumes "in_line o1 w q" "rphase q' \<noteq> RRun" "got q' = got q" "wsent q' = wsent q"
  shows "in_line o1 w q'"
  using in_line_prefix [OF assms(1)] assms(2-4) unfolding in_line_def by auto

lemma in_line_weaken: "in_line o1 w q \<Longrightarrow> \<not> writing w' \<or> \<not> o2 \<Longrightarrow> in_line o2 w' q"
  unfolding in_line_def by (auto split: if_splits)

lemma lined_up_reader:
  assumes "lined_up b" "j < length (rdrs b)" "rdrs b' = (rdrs b)[j := q']" "wph b' = wph b"
    "\<And>o1. in_line o1 (wph b) (rdrs b ! j) \<Longrightarrow> in_line o1 (wph b) q'"
  shows "lined_up b'"
  using assms by (auto simp: lined_up_def nth_list_update)

lemma lined_up_idle:
  assumes "lined_up b" "\<not> writing (wph b')" "rdrs b' = rdrs b"
  shows "lined_up b'"
  unfolding lined_up_def
proof (intro allI impI)
  fix i assume "i < length (rdrs b')"
  then have "in_line (Suc i = length (rdrs b)) (wph b) (rdrs b ! i)" using assms(1,3) by (simp add: lined_up_def)
  then show "in_line (Suc i = length (rdrs b')) (wph b') (rdrs b' ! i)"
    unfolding assms(3) by (rule in_line_weaken) (simp add: assms(2))
qed

lemma lined_up_last:
  assumes "lined_up b" "rdrs b' = upd_last f (rdrs b)"
    "\<And>q. in_line True (wph b) q \<Longrightarrow> in_line True (wph b') (f q)"
  shows "lined_up b'"
proof (cases "rdrs b" rule: rev_cases)
  case Nil
  then show ?thesis using assms(2) by (simp add: lined_up_def upd_last_def)
next
  case (snoc olds q)
  have "in_line False (wph b') (olds ! i)" if "i < length olds" for i
  proof -
    have "i < length (rdrs b)" using that snoc by simp
    then have "in_line (Suc i = length (rdrs b)) (wph b) (rdrs b ! i)" using assms(1) unfolding lined_up_def by blast
    moreover have "rdrs b ! i = olds ! i" "(Suc i = length (rdrs b)) = False" using that snoc by (auto simp: nth_append)
    ultimately have "in_line False (wph b) (olds ! i)" by simp
    then show ?thesis by (rule in_line_weaken) simp
  qed
  moreover have "in_line True (wph b) q"
    using assms(1) snoc unfolding lined_up_def by (auto dest!: spec [of _ "length olds"])
  ultimately show ?thesis using assms(2,3) snoc by (auto simp: lined_up_def nth_append less_Suc_eq)
qed

lemma lined_up_exit:
  assumes "lined_up b"
  shows "lined_up (writer_exit err b)"
proof (rule lined_up_last [OF assms, where f = "\<lambda>q. q\<lparr>tclosed := True\<rparr>"])
  show "rdrs (writer_exit err b) = upd_last (\<lambda>q. q\<lparr>tclosed := True\<rparr>) (rdrs b)" by (simp add: writer_exit_def)
  fix q assume "in_line True (wph b) q"
  then have "in_line True (WDrain 0 err) q" using in_line_weaken [of True "wph b" q "WDrain 0 err" True] by simp
  then show "in_line True (wph (writer_exit err b)) (q\<lparr>tclosed := True\<rparr>)" by (simp add: in_line_def writer_exit_def)
qed

lemma lined_up_setResponse [simp]: "lined_up (setResponse r x e b) = lined_up b"
  by (simp add: lined_up_def)

lemma lined_up_write_one:
  assumes "lined_up b" "wph b = WLoop"
  shows "lined_up (write_one cap reqs brk etxt out r (b\<lparr>input := rest\<rparr>))"
proof -
  have b: "lined_up (b\<lparr>input := rest\<rparr>)" using assms(1) by (simp add: lined_up_def)
  show ?thesis
  proof (cases out)
    case (Written late)
    let ?f = "\<lambda>q. let un = unflushed q @ [r]; need = cap div 2 < length un \<or> late; flushed = input (b\<lparr>input := rest\<rparr>) = [] \<or> need
        in q\<lparr>wsent := wsent q @ [r], unflushed := (if flushed then [] else un)\<rparr>"
    have "lined_up ((b\<lparr>input := rest\<rparr>)\<lparr>rdrs := upd_last ?f (rdrs (b\<lparr>input := rest\<rparr>)), wph := WHold r\<rparr>)"
    proof (rule lined_up_last [OF b, where f = ?f], goal_cases)
      case (2 q)
      then show ?case using assms(2) by (auto simp: in_line_def pending_def Let_def split: if_splits) (metis append_assoc)+
    qed simp
    then show ?thesis using Written b by (simp add: write_one_def)
  qed (use b lined_up_exit [of "setResponse r x y (b\<lparr>input := rest\<rparr>)" for x y] in \<open>auto simp: write_one_def\<close>)
qed

lemma bstep_lined_up: "bstep cap reqs brk etxt b b' \<Longrightarrow> shape b \<Longrightarrow> lined_up b \<Longrightarrow> lined_up b'"
proof (induction rule: bstep.induct)
  case (push r b b')
  then show ?case by (auto simp: PushBack_def lined_up_def split: if_splits)
next
  case (write_req b r rest out)
  then show ?case by (simp add: lined_up_write_one)
next
  case (dial_ok b)
  have "in_line False WLoop (rdrs b ! i)" if "i < length (rdrs b)" for i
  proof -
    have "in_line (Suc i = length (rdrs b)) (wph b) (rdrs b ! i)" using that dial_ok(3) by (simp add: lined_up_def)
    then show ?thesis by (rule in_line_weaken) simp
  qed
  moreover have "in_line True WLoop new_rdr" by (simp add: in_line_def new_rdr_def pending_def)
  ultimately show ?case by (auto simp: lined_up_def dialled_def nth_append less_Suc_eq)
next
  case (input_end b)
  then show ?case by (simp add: lined_up_exit)
next
  case (send_req b r)
  show ?case
    by (rule lined_up_last [OF send_req(5), where f = "\<lambda>q. q\<lparr>tasks := tasks q @ [r]\<rparr>"])
      (use send_req(1) in \<open>auto simp: send_task_def in_line_def pending_def\<close>)
next
  case (drain_err b b')
  then show ?case using delayBeforeRetry_fields [OF drain_err(2)] by (auto intro: lined_up_idle [of b b'])
next
  case (read_take j b)
  show ?case
    by (rule lined_up_reader [OF read_take(6,1), where q' = "reader_take (rdrs b ! j)"])
      (use read_take in \<open>auto simp: in_line_def pending_def reader_take_def split: list.split\<close>)
next
  case (read_ok j b r resp)
  show ?case
    by (rule lined_up_reader [OF read_ok(5,1), where q' = "(rdrs b ! j)\<lparr>rcur := None, got := got (rdrs b ! j) @ [(r, resp)]\<rparr>"])
      (use read_ok in \<open>auto simp: in_line_def pending_def reader_got_def\<close>)
next
  case (read_err j b r e)
  show ?case
    by (rule lined_up_reader [OF read_err(5,1), where q' = "(rdrs b ! j)\<lparr>rcur := None, rphase := RDrain\<rparr>"])
      (auto simp: reader_failed_def intro: in_line_stop)
next
  case (read_end j b)
  show ?case
    by (rule lined_up_reader [OF read_end(7,1), where q' = "(rdrs b ! j)\<lparr>rphase := RDone\<rparr>"])
      (auto intro: in_line_stop)
next
  case (read_drain j b r ts)
  show ?case
    by (rule lined_up_reader [OF read_drain(5,1), where q' = "(rdrs b ! j)\<lparr>tasks := ts\<rparr>"])
      (use read_drain in \<open>auto intro: in_line_stop\<close>)
next
  case (stop_input b)
  then show ?case by (simp add: lined_up_def)
next
  case (close_flag b)
  then show ?case by (simp add: lined_up_def)
qed (erule lined_up_idle, simp_all add: dial_failed_def)+

subsection \<open>The invariant\<close>

text \<open>An answer that is a reply was read for that request; the back-off stays in its range.\<close>

definition replies_read :: "backend \<Rightarrow> bool" where
  "replies_read b \<longleftrightarrow> (\<forall>r x e. (r, (Some x, e)) \<in> set (answered b) \<longrightarrow> (\<exists>q \<in> set (rdrs b). (r, x) \<in> set (got q)))"

definition delay_inv :: "backend \<Rightarrow> bool" where
  "delay_inv b \<longleftrightarrow> delay_ok (bdelay b) \<and> 0 \<le> dValue (bdelay b) \<and> dValue (bdelay b) \<le> dMax (bdelay b)"

lemma replies_read_mono:
  assumes "replies_read b" "answered b' = answered b \<or> (\<exists>r e. answered b' = answered b @ [(r, (None, e))])"
    "\<And>q. q \<in> set (rdrs b) \<Longrightarrow> \<exists>q' \<in> set (rdrs b'). set (got q) \<subseteq> set (got q')"
  shows "replies_read b'"
  unfolding replies_read_def
proof (intro allI impI)
  fix r x e assume "(r, (Some x, e)) \<in> set (answered b')"
  then have "(r, (Some x, e)) \<in> set (answered b)" using assms(2) by auto
  then obtain q where "q \<in> set (rdrs b)" "(r, x) \<in> set (got q)" using assms(1) unfolding replies_read_def by blast
  then show "\<exists>q \<in> set (rdrs b'). (r, x) \<in> set (got q)" using assms(3) by blast
qed

lemma got_kept_update:
  assumes "set (got (rs ! j)) \<subseteq> set (got q')" "q \<in> set rs"
  shows "\<exists>p \<in> set (rs[j := q']). set (got q) \<subseteq> set (got p)"
proof -
  obtain i where i: "i < length rs" "q = rs ! i" using assms(2) by (auto simp: in_set_conv_nth)
  have "rs[j := q'] ! i \<in> set (rs[j := q'])" using i(1) by (metis length_list_update nth_mem)
  moreover have "set (got q) \<subseteq> set (got (rs[j := q'] ! i))" using i assms(1) by (cases "i = j") simp_all
  ultimately show ?thesis by blast
qed

lemma got_kept_last:
  assumes "\<And>q. got (f q) = got q" "q \<in> set rs"
  shows "\<exists>p \<in> set (upd_last f rs). set (got q) \<subseteq> set (got p)"
  using got_kept_update [OF _ assms(2), of "length rs - 1" "f (rs ! (length rs - 1))"] assms(1)
  by (simp add: upd_last_update)

lemma write_one_answers:
  "\<exists>p. (p = [] \<or> (\<exists>r e. p = [(r, (None, e))])) \<and> answered (write_one cap reqs brk etxt out r b) = answered b @ p"
  by (auto simp: write_one_def split: wire_out.split)

lemma write_one_got: "q \<in> set (rdrs b) \<Longrightarrow> \<exists>p \<in> set (rdrs (write_one cap reqs brk etxt out r b)). set (got q) \<subseteq> set (got p)"
proof (cases out)
  case (Written late)
  assume "q \<in> set (rdrs b)"
  with Written show ?thesis
    by (cases "IsReadOnly (rOpFlag (reqs r)) \<and> brk r") (auto simp: write_one_def Let_def intro!: got_kept_last)
qed (auto simp: write_one_def writer_exit_def intro: got_kept_last)

lemma bstep_replies_read: "bstep cap reqs brk etxt b b' \<Longrightarrow> replies_read b \<Longrightarrow> replies_read b'"
proof (induction rule: bstep.induct)
  case (push r b b')
  then have "rdrs b' = rdrs b" "answered b' = answered b" by (auto simp: PushBack_def split: if_splits)
  then show ?case using push(3) by (simp add: replies_read_def)
next
  case (write_req b r rest out)
  show ?case
    by (rule replies_read_mono [OF write_req(3)])
      (use write_one_answers [of cap reqs brk etxt out r "b\<lparr>input := rest\<rparr>"]
        write_one_got [of _ "b\<lparr>input := rest\<rparr>"] in auto)
next
  case (input_end b)
  then show ?case
    by (intro replies_read_mono [OF input_end(4)]) (auto simp: writer_exit_def intro: got_kept_last)
next
  case (send_req b r)
  show ?case by (rule replies_read_mono [OF send_req(4)]) (auto simp: send_task_def intro: got_kept_last)
next
  case (drain_err b b')
  then show ?case using delayBeforeRetry_fields [OF drain_err(2)] by (simp add: replies_read_def)
next
  case (read_take j b)
  show ?case
    by (rule replies_read_mono [OF read_take(5)]) (auto simp: reader_take_def split: list.split intro!: got_kept_update)
next
  case (read_ok j b r resp)
  let ?q = "(rdrs b ! j)\<lparr>rcur := None, got := got (rdrs b ! j) @ [(r, resp)]\<rparr>"
  have "(r, resp) \<in> set (got ?q)" "?q \<in> set ((rdrs b)[j := ?q])" using read_ok(1) by (simp_all add: set_update_memI)
  moreover have "\<exists>p \<in> set ((rdrs b)[j := ?q]). set (got q) \<subseteq> set (got p)" if "q \<in> set (rdrs b)" for q
    using that by (intro got_kept_update) auto
  ultimately show ?case using read_ok(4) unfolding replies_read_def reader_got_def
    by (fastforce simp del: set_update_memI)
next
  case (read_err j b r e)
  show ?case by (rule replies_read_mono [OF read_err(4)]) (auto simp: reader_failed_def intro!: got_kept_update)
next
  case (read_end j b)
  show ?case by (rule replies_read_mono [OF read_end(6)]) (auto intro!: got_kept_update)
next
  case (read_drain j b r ts)
  show ?case by (rule replies_read_mono [OF read_drain(4)]) (auto intro!: got_kept_update)
qed (auto simp: replies_read_def dialled_def dial_failed_def)

lemma delay_retry:
  assumes "delay_inv b"
  shows "\<exists>b'. delayBeforeRetry b = Some b' \<and> delay_inv b'"
proof -
  have d: "delay_ok (bdelay b)" "0 \<le> dValue (bdelay b)" "dValue (bdelay b) \<le> dMax (bdelay b)"
    using assms by (simp_all add: delay_inv_def)
  then show ?thesis using NextValue_ok [OF d] assms
    by (auto simp: delayBeforeRetry_def Let_def AfterDelay_def delay_inv_def delay_ok_def)
qed

lemma bdelay_simps [simp]:
  "bdelay (writer_exit e b) = bdelay b" "bdelay (write_one cap reqs brk etxt out r b) = bdelay b" "bdelay (send_task r b) = bdelay b"
  "bdelay (reader_got j r x b) = bdelay b" "bdelay (reader_failed etxt j r er b) = bdelay b" "bdelay (dial_failed b) = bdelay b"
  by (simp_all add: writer_exit_def write_one_def send_task_def reader_got_def reader_failed_def dial_failed_def split: wire_out.split)

lemma bstep_delay: "bstep cap reqs brk etxt b b' \<Longrightarrow> delay_inv b \<Longrightarrow> delay_inv b'"
proof (induction rule: bstep.induct)
  case (drain_err b b')
  then show ?case using delay_retry by fastforce
next
  case (dial_ok b)
  then show ?case by (auto simp: delay_inv_def dialled_def ResetDelay_def delay_ok_def)
next
  case (push r b b')
  then show ?case by (auto simp: delay_inv_def PushBack_def split: if_splits)
qed (simp_all add: delay_inv_def)

definition backend_inv :: "backend \<Rightarrow> bool" where
  "backend_inv b \<longleftrightarrow> shape b \<and> accounted b \<and> lined_up b \<and> replies_read b \<and> delay_inv b"

interpretation bk: trans_sys "\<lambda>b. b = NewBackendConn" "bstep cap reqs brk etxt" backend_inv for cap reqs brk etxt
proof
  show "backend_inv s" if "s = NewBackendConn" for s
    using that shape_start
    by (simp add: backend_inv_def accounted_def outstanding_def lined_up_def replies_read_def delay_inv_def delay_ok_def NewBackendConn_def)
  show "backend_inv s'" if "bstep cap reqs brk etxt s s'" "backend_inv s" for s s'
  proof -
    have i: "shape s" "accounted s" "lined_up s" "replies_read s" "delay_inv s" using that(2) by (simp_all add: backend_inv_def)
    show ?thesis unfolding backend_inv_def
      using bstep_shape [OF that(1) i(1)] bstep_accounted [OF that(1) i(1,2)] bstep_lined_up [OF that(1) i(1,3)]
        bstep_replies_read [OF that(1) i(4)] bstep_delay [OF that(1) i(5)] by simp
  qed
qed

subsection \<open>Progress\<close>

text \<open>A step of the goroutines, not of a caller: nothing is pushed or closed, and something happens.\<close>

definition internal :: "backend \<Rightarrow> backend \<Rightarrow> bool" where
  "internal b b' \<longleftrightarrow> accepted b' = accepted b \<and> inclosed b' = inclosed b \<and> bclosed b' = bclosed b
     \<and> (wph b' \<noteq> wph b \<or> rdrs b' \<noteq> rdrs b \<or> answered b' \<noteq> answered b)"

text \<open>
  What is left to do, as a number that the goroutines can always lower: each request weighs less
  the nearer it is to its answer, and the writer's phases are ranked by how soon they serve the queue.
\<close>

definition burden :: "rdr \<Rightarrow> nat" where
  "burden q = (case rcur q of None \<Rightarrow> 0 | Some _ \<Rightarrow> 1) + 2 * length (tasks q)"

fun wrank :: "wphase \<Rightarrow> nat" where
  "wrank (WDrain i e) = (if i = 0 then 5 else 1)"
| "wrank WStart = 3"
| "wrank WDial = 2"
| "wrank WDelayCheck = 2"
| "wrank WDelaySelect = 1"
| "wrank w = 0"

definition chore :: "backend \<Rightarrow> nat" where
  "chore b = 10 * (4 * length (input b) + 3 * length (hold (wph b)) + sum_list (map burden (rdrs b))) + wrank (wph b)"

lemma wrank_bound: "wrank w < 10"
  by (cases w) simp_all

lemma burden_simps [simp]:
  "burden (q\<lparr>tclosed := c\<rparr>) = burden q" "burden (q\<lparr>tasks := tasks q @ [r]\<rparr>) = 2 + burden q"
  by (simp_all add: burden_def)

lemma burden_last: "(\<And>q. burden (f q) = burden q) \<Longrightarrow> sum_list (map burden (upd_last f rs)) = sum_list (map burden rs)"
  by (cases rs rule: rev_cases) simp_all

lemma chore_reader:
  assumes "j < length (rdrs b)" "burden q < burden (rdrs b ! j)" "rdrs b' = (rdrs b)[j := q]" "input b' = input b" "wph b' = wph b"
  shows "chore b' < chore b"
proof -
  have "sum_list (map burden ((rdrs b)[j := q])) + burden (rdrs b ! j) = sum_list (map burden (rdrs b)) + burden q"
    using assms(1) elem_le_sum_list [of j "map burden (rdrs b)"] by (simp add: map_update sum_list_update)
  then show ?thesis using assms by (simp add: chore_def)
qed

lemma chore_queue:
  assumes "length (input b') < length (input b)" "length (hold (wph b')) = length (hold (wph b))"
    "sum_list (map burden (rdrs b')) = sum_list (map burden (rdrs b))"
  shows "chore b' < chore b"
  using assms wrank_bound [of "wph b'"] by (simp add: chore_def)

lemma reader_can_step:
  assumes "j < length (rdrs b)" "pending (rdrs b ! j) \<noteq> []" "shape b"
  shows "\<exists>b'. bstep cap reqs brk etxt b b' \<and> internal b b' \<and> chore b' < chore b"
proof -
  let ?q = "rdrs b ! j"
  note sh = shape_at [OF assms(3,1)]
  show ?thesis
  proof (cases "rcur ?q")
    case (Some r)
    let ?b = "reader_failed etxt j r (ErrVar EOF) b"
    have "rphase ?q = RRun" using sh Some by (cases "rphase ?q") auto
    then have "bstep cap reqs brk etxt b ?b" using assms(1) Some by (intro read_err)
    moreover have "internal b ?b" by (simp add: reader_failed_def internal_def)
    moreover have "chore ?b < chore b"
      by (rule chore_reader [OF assms(1), of "?q\<lparr>rcur := None, rphase := RDrain\<rparr>"]) (simp_all add: burden_def Some reader_failed_def)
    ultimately show ?thesis by blast
  next
    case None
    then obtain r ts where ts: "tasks ?q = r # ts" using assms(2) by (cases "tasks ?q") (auto simp: pending_def)
    have ph: "rphase ?q \<noteq> RDone" using sh ts by auto
    show ?thesis
    proof (cases "rphase ?q")
      case RRun
      let ?b = "b\<lparr>rdrs := (rdrs b)[j := reader_take ?q]\<rparr>"
      have "bstep cap reqs brk etxt b ?b" using RRun assms(1) None ts by (intro read_take) auto
      moreover have "rcur ((rdrs b)[j := reader_take ?q] ! j) \<noteq> rcur ?q" using assms(1) ts None by (simp add: reader_take_def)
      then have "internal b ?b" by (auto simp: internal_def)
      moreover have "chore ?b < chore b"
        by (rule chore_reader [OF assms(1), of "reader_take ?q"]) (simp_all add: burden_def None ts reader_take_def)
      ultimately show ?thesis by blast
    next
      case RDrain
      let ?b = "reset_answer r (b\<lparr>rdrs := (rdrs b)[j := ?q\<lparr>tasks := ts\<rparr>]\<rparr>)"
      have "bstep cap reqs brk etxt b ?b" using assms(1) RDrain ts by (intro read_drain)
      moreover have "internal b ?b" by (simp add: internal_def)
      moreover have "chore ?b < chore b"
        by (rule chore_reader [OF assms(1), of "?q\<lparr>tasks := ts\<rparr>"]) (simp_all add: burden_def None ts)
      ultimately show ?thesis by blast
    qed (use ph in simp)
  qed
qed

text \<open>The writer's step brings the work down too, unless it has none or the connection is closed.\<close>

lemma writer_can_step:
  assumes "backend_inv b" "wph b \<noteq> WExit" "wph b = WLoop \<longrightarrow> input b \<noteq> []"
  shows "\<exists>b'. bstep cap reqs brk etxt b b' \<and> internal b b'
    \<and> (bclosed b \<or> input b = [] \<and> hold (wph b) = [] \<or> chore b' < chore b)"
proof -
  let ?less = "\<lambda>b'. bclosed b \<or> input b = [] \<and> hold (wph b) = [] \<or> chore b' < chore b"
  have sh: "shape b" and di: "delay_inv b" using assms(1) by (simp_all add: backend_inv_def)
  have change: ?thesis if "bstep cap reqs brk etxt b b'" "internal b b'" "?less b'" for b' using that by blast
  show ?thesis
  proof (cases "wph b")
    case WStart
    then show ?thesis using change [OF run_exit] change [OF run_round]
      by (cases "bclosed b") (auto simp: internal_def chore_def)
  next
    case WDial
    then show ?thesis using change [OF dial_err] by (auto simp: dial_failed_def internal_def chore_def)
  next
    case WLoop
    then obtain r rest where i: "input b = r # rest" using assms(3) by (cases "input b") auto
    let ?b = "write_one cap reqs brk etxt (EncodeFails (ErrVar EOF)) r (b\<lparr>input := rest\<rparr>)"
    have "answered ?b \<noteq> answered b" by (simp add: write_one_def writer_exit_def)
    then have "internal b ?b" by (auto simp: internal_def write_one_def writer_exit_def)
    moreover have "chore ?b < chore b"
      by (rule chore_queue) (simp_all add: i WLoop write_one_def writer_exit_def burden_last)
    ultimately show ?thesis using change [OF write_req [OF WLoop i]] by blast
  next
    case (WHold r)
    then obtain olds q where q: "rdrs b = olds @ [q]" "\<not> tclosed q" "rphase q \<noteq> RDone" using shape_writing [OF sh] by auto
    show ?thesis
    proof (cases "has_room cap q")
      case True
      have "chore (send_task r b) < chore b" using q WHold by (simp add: send_task_def chore_def)
      moreover have "internal b (send_task r b)" using q WHold by (simp add: send_task_def internal_def)
      ultimately show ?thesis using change [OF send_req [OF WHold]] q True by simp
    next
      case False
      then have "pending (rdrs b ! length olds) \<noteq> []" using q by (auto simp: has_room_def pending_def split: option.split)
      then show ?thesis using reader_can_step [of "length olds" b] q sh by fastforce
    qed
  next
    case (WDrain i e)
    show ?thesis
    proof (cases i)
      case 0
      obtain b' where b': "delayBeforeRetry b = Some b'" using delay_retry [OF di] by blast
      have "internal b b'" "chore b' < chore b"
        using delayBeforeRetry_fields [OF b'] WDrain 0 by (auto simp: internal_def chore_def)
      then show ?thesis
        using change [OF drain_ok] change [OF drain_err [OF _ b']] WDrain 0 by (cases e) (auto simp: internal_def chore_def)
    next
      case (Suc k)
      then obtain r rest where i: "input b = r # rest" using shape_drain [OF sh WDrain] by (cases "input b") auto
      let ?b = "reset_answer r (b\<lparr>input := rest, wph := WDrain k e\<rparr>)"
      have "chore ?b < chore b" by (rule chore_queue) (simp_all add: i WDrain)
      then show ?thesis using change [OF drain_one [OF WDrain [unfolded Suc] i]] WDrain Suc by (simp add: internal_def)
    qed
  next
    case WDelayCheck
    then show ?thesis using change [OF delay_closed] change [OF delay_select]
      by (cases "bclosed b") (auto simp: internal_def chore_def)
  next
    case WDelaySelect
    show ?thesis
    proof (cases "input b")
      case Nil
      then show ?thesis using change [OF delay_timeout [OF WDelaySelect]] WDelaySelect by (auto simp: internal_def)
    next
      case (Cons r rest)
      let ?b = "reset_answer r (b\<lparr>input := rest, wph := WDelayCheck\<rparr>)"
      have "chore ?b < chore b" by (rule chore_queue) (simp_all add: Cons WDelaySelect)
      then show ?thesis using change [OF delay_one [OF WDelaySelect Cons]] WDelaySelect by (simp add: internal_def)
    qed
  qed (use assms(2) in simp)
qed

text \<open>While something is outstanding and the connection is open, the work can be brought down.\<close>

lemma work_can_shrink:
  assumes "backend_inv b" "wph b \<noteq> WExit" "\<not> bclosed b" "outstanding b \<noteq> []"
  shows "\<exists>b'. bstep cap reqs brk etxt b b' \<and> internal b b' \<and> chore b' < chore b"
proof (cases "input b = [] \<and> hold (wph b) = []")
  case False
  then have "wph b = WLoop \<longrightarrow> input b \<noteq> []" by auto
  then show ?thesis using writer_can_step [OF assms(1,2)] False assms(3) by blast
next
  case True
  then obtain q where "q \<in> set (rdrs b)" "pending q \<noteq> []" using assms(4) by (auto simp: outstanding_def)
  then obtain j where "j < length (rdrs b)" "pending (rdrs b ! j) \<noteq> []" by (auto simp: in_set_conv_nth)
  then show ?thesis using reader_can_step assms(1) by (simp add: backend_inv_def)
qed

text \<open>The writer leaves its loop of rounds only when the connection is closed.\<close>

lemma exit_closed: "bstep cap reqs brk etxt b b' \<Longrightarrow> wph b = WExit \<longrightarrow> bclosed b \<Longrightarrow> wph b' = WExit \<longrightarrow> bclosed b'"
proof (induction rule: bstep.induct)
  case (push r b b')
  then show ?case by (auto simp: PushBack_def split: if_splits)
next
  case (write_req b r rest out)
  then show ?case by (auto simp: write_one_def writer_exit_def split: wire_out.split)
next
  case (drain_err b b')
  then show ?case using delayBeforeRetry_fields [OF drain_err(2)] by auto
qed (auto simp: dialled_def dial_failed_def writer_exit_def send_task_def reader_got_def reader_failed_def)

lemma exit_only_closed: "(bstep cap reqs brk etxt)\<^sup>*\<^sup>* NewBackendConn b \<Longrightarrow> wph b = WExit \<longrightarrow> bclosed b"
  by (induction rule: rtranclp_induct) (use exit_closed in \<open>auto simp: NewBackendConn_def\<close>)

subsection \<open>Flushing\<close>

text \<open>While no request is skipped as broken, the writer never waits with unflushed requests.\<close>

definition flushed_up :: "backend \<Rightarrow> bool" where
  "flushed_up b \<longleftrightarrow> (writing (wph b) \<longrightarrow> input b = [] \<longrightarrow> rdrs b \<noteq> [] \<longrightarrow> unflushed (last (rdrs b)) = [])"

lemma last_update: "j < length xs \<Longrightarrow> last (xs[j := y]) = (if Suc j = length xs then y else last xs)"
  by (cases xs rule: rev_cases) (auto simp: list_update_append split: nat.split)

lemma flushed_reader:
  assumes "flushed_up b" "j < length (rdrs b)" "rdrs b' = (rdrs b)[j := q']" "unflushed q' = unflushed (rdrs b ! j)"
    "wph b' = wph b" "input b' = input b"
  shows "flushed_up b'"
proof -
  have "rdrs b \<noteq> []" using assms(2) by auto
  then have "unflushed (last ((rdrs b)[j := q'])) = unflushed (last (rdrs b))"
    using assms(2,4) by (auto simp: last_conv_nth nth_list_update)
  then show ?thesis using assms by (simp add: flushed_up_def)
qed

lemma bstep_flushed:
  assumes "\<And>r. \<not> (IsReadOnly (rOpFlag (reqs r)) \<and> brk r)"
  shows "bstep cap reqs brk etxt b b' \<Longrightarrow> flushed_up b \<Longrightarrow> flushed_up b'"
proof (induction rule: bstep.induct)
  case (push r b b')
  then show ?case by (auto simp: PushBack_def flushed_up_def split: if_splits)
next
  case (dial_ok b)
  then show ?case by (simp add: flushed_up_def dialled_def new_rdr_def)
next
  case (write_req b r rest out)
  then show ?case using assms [of r]
    by (cases "rdrs b" rule: rev_cases)
      (auto simp: flushed_up_def write_one_def writer_exit_def Let_def split: wire_out.split)
next
  case (send_req b r)
  then show ?case by (cases "rdrs b" rule: rev_cases) (auto simp: flushed_up_def send_task_def)
next
  case (drain_err b b')
  then show ?case using delayBeforeRetry_fields [OF drain_err(2)] by (auto simp: flushed_up_def)
next
  case (read_take j b)
  show ?case
    by (rule flushed_reader [OF read_take(5,1), where q' = "reader_take (rdrs b ! j)"])
      (auto simp: reader_take_def split: list.split)
next
  case (read_ok j b r resp)
  show ?case
    by (rule flushed_reader [OF read_ok(4,1), where q' = "(rdrs b ! j)\<lparr>rcur := None, got := got (rdrs b ! j) @ [(r, resp)]\<rparr>"])
      (auto simp: reader_got_def)
next
  case (read_err j b r e)
  show ?case
    by (rule flushed_reader [OF read_err(4,1), where q' = "(rdrs b ! j)\<lparr>rcur := None, rphase := RDrain\<rparr>"])
      (auto simp: reader_failed_def)
next
  case (read_end j b)
  show ?case by (rule flushed_reader [OF read_end(6,1), where q' = "(rdrs b ! j)\<lparr>rphase := RDone\<rparr>"]) auto
next
  case (read_drain j b r ts)
  show ?case by (rule flushed_reader [OF read_drain(4,1), where q' = "(rdrs b ! j)\<lparr>tasks := ts\<rparr>"]) auto
qed (auto simp: flushed_up_def dial_failed_def writer_exit_def)

subsection \<open>Properties\<close>

text \<open>
  C6. Every request is answered at most once and none is lost on the way. Whatever the network,
  the clock and the scheduler do, no accepted request gets two answers, and one without an
  answer is in exactly one place: queued, held by the writer, or with one reader.
\<close>

theorem answered_once:
  assumes "(bstep cap reqs brk etxt)\<^sup>*\<^sup>* NewBackendConn b"
  shows "distinct (map fst (answered b)) \<and> distinct (outstanding b)
    \<and> set (map fst (answered b)) \<union> set (outstanding b) = set (accepted b)
    \<and> set (map fst (answered b)) \<inter> set (outstanding b) = {}"
proof -
  have "accounted b" using bk.reach_inv [OF refl assms] by (simp add: backend_inv_def)
  then have m: "mset (accepted b) = mset (outstanding b @ map fst (answered b))" and d: "distinct (accepted b)"
    by (simp_all add: accounted_def)
  have "distinct (outstanding b @ map fst (answered b))" using mset_eq_imp_distinct_iff [OF m] d by blast
  moreover have "set (accepted b) = set (outstanding b @ map fst (answered b))" using mset_eq_setD [OF m] .
  ultimately show ?thesis by auto
qed

lemma short_run:
  assumes "PushBack 0 NewBackendConn = Some b"
  shows "(bstep cap reqs brk etxt)\<^sup>*\<^sup>* NewBackendConn (dial_failed (b\<lparr>wph := WDial\<rparr>))"
proof -
  have s0: "bstep cap reqs brk etxt NewBackendConn b" by (rule push [OF _ assms]) (simp add: NewBackendConn_def)
  have w: "wph b = WStart" "\<not> bclosed b" using assms by (auto simp: PushBack_def NewBackendConn_def split: if_splits)
  have s1: "bstep cap reqs brk etxt b (b\<lparr>wph := WDial\<rparr>)" using w by (rule run_round)
  have s2: "bstep cap reqs brk etxt (b\<lparr>wph := WDial\<rparr>) (dial_failed (b\<lparr>wph := WDial\<rparr>))" by (rule dial_err) simp
  show ?thesis using s0 s1 s2 by (meson converse_rtranclp_into_rtranclp rtranclp.rtrancl_refl)
qed

theorem answered_once_witness:
  "\<exists>b. (bstep 4 (\<lambda>_. zero_request) (\<lambda>_. False) (\<lambda>_. [])) \<^sup>*\<^sup>* NewBackendConn b \<and> accepted b = [0] \<and> distinct (map fst (answered b))"
proof -
  obtain b where b: "PushBack 0 NewBackendConn = Some b" "accepted b = [0]"
    by (auto simp: PushBack_def NewBackendConn_def input_cap_def)
  have r: "(bstep 4 (\<lambda>_. zero_request) (\<lambda>_. False) (\<lambda>_. [])) \<^sup>*\<^sup>* NewBackendConn (dial_failed (b\<lparr>wph := WDial\<rparr>))"
    using short_run [OF b(1)] by blast
  show ?thesis using r answered_once [OF r] b(2) by (intro exI [of _ "dial_failed (b\<lparr>wph := WDial\<rparr>)"]) (simp add: dial_failed_def)
qed

text \<open>
  C18. Replies are not mixed up. On every connection the \<open>k\<close>-th reply that was read is given to
  the \<open>k\<close>-th request that was sent on it, and a request that was answered with a reply got one
  of those: pipelining, retries and reconnects never hand a reply to another client's request.
\<close>

theorem replies_matched:
  assumes "(bstep cap reqs brk etxt)\<^sup>*\<^sup>* NewBackendConn b"
  shows "(\<forall>q \<in> set (rdrs b). \<forall>k < length (got q). k < length (wsent q) \<and> fst (got q ! k) = wsent q ! k)
    \<and> (\<forall>r x e. (r, (Some x, e)) \<in> set (answered b) \<longrightarrow>
         (\<exists>q \<in> set (rdrs b). \<exists>k < length (got q). got q ! k = (r, x) \<and> wsent q ! k = r))"
proof -
  have inv: "lined_up b" "replies_read b" using bk.reach_inv [OF refl assms] by (simp_all add: backend_inv_def)
  have line: "k < length (wsent q) \<and> fst (got q ! k) = wsent q ! k" if "q \<in> set (rdrs b)" "k < length (got q)" for q k
  proof -
    obtain i where i: "i < length (rdrs b)" "q = rdrs b ! i" using \<open>q \<in> set (rdrs b)\<close> by (auto simp: in_set_conv_nth)
    then have "in_line (Suc i = length (rdrs b)) (wph b) q" using inv(1) unfolding lined_up_def by blast
    then obtain rest where "wsent q = map fst (got q) @ rest" using in_line_prefix by blast
    then show ?thesis using that(2) by (simp add: nth_append)
  qed
  moreover have "\<exists>q \<in> set (rdrs b). \<exists>k < length (got q). got q ! k = (r, x) \<and> wsent q ! k = r"
    if a: "(r, (Some x, e)) \<in> set (answered b)" for r x e
  proof -
    obtain q where q: "q \<in> set (rdrs b)" "(r, x) \<in> set (got q)" using inv(2) a unfolding replies_read_def by blast
    then obtain k where "k < length (got q)" "got q ! k = (r, x)" by (auto simp: in_set_conv_nth)
    then show ?thesis using q(1) line [OF q(1), of k] by auto
  qed
  ultimately show ?thesis by blast
qed

theorem replies_matched_witness:
  "\<exists>b. (bstep 4 (\<lambda>_. zero_request) (\<lambda>_. False) (\<lambda>_. []))\<^sup>*\<^sup>* NewBackendConn b \<and> accepted b = [0] \<and>
     (\<forall>r x e. (r, (Some x, e)) \<in> set (answered b) \<longrightarrow>
         (\<exists>q \<in> set (rdrs b). \<exists>k < length (got q). got q ! k = (r, x) \<and> wsent q ! k = r))"
proof -
  obtain b where b: "PushBack 0 NewBackendConn = Some b" "accepted b = [0]"
    by (auto simp: PushBack_def NewBackendConn_def input_cap_def)
  have r: "(bstep 4 (\<lambda>_. zero_request) (\<lambda>_. False) (\<lambda>_. []))\<^sup>*\<^sup>* NewBackendConn (dial_failed (b\<lparr>wph := WDial\<rparr>))"
    using short_run [OF b(1)] by blast
  show ?thesis
    using r replies_matched [OF r] b(2) by (intro exI [of _ "dial_failed (b\<lparr>wph := WDial\<rparr>)"]) (simp add: dial_failed_def)
qed

text \<open>
  No deadlock. As long as the writer has not left for good, whenever an accepted request is
  unanswered some goroutine can take a step, without waiting for another push or a close: full
  task channels, failed connections and drains never block each other.
\<close>

theorem backend_progress:
  assumes "(bstep cap reqs brk etxt)\<^sup>*\<^sup>* NewBackendConn b" "r \<in> set (accepted b)" "r \<notin> fst ` set (answered b)" "wph b \<noteq> WExit"
  shows "\<exists>b'. bstep cap reqs brk etxt b b' \<and> internal b b'"
proof -
  have inv: "backend_inv b" by (rule bk.reach_inv [OF refl assms(1)])
  then have "mset (accepted b) = mset (outstanding b @ map fst (answered b))" by (simp add: backend_inv_def accounted_def)
  from mset_eq_setD [OF this] have out: "r \<in> set (outstanding b)" using assms(2,3) by auto
  show ?thesis
  proof (cases "wph b = WLoop \<and> input b = []")
    case False
    then show ?thesis using writer_can_step [OF inv assms(4)] by blast
  next
    case True
    then obtain q where q: "q \<in> set (rdrs b)" "r \<in> set (pending q)" using out by (auto simp: outstanding_def)
    then have "pending q \<noteq> []" by auto
    obtain j where "j < length (rdrs b)" "rdrs b ! j = q" using q(1) by (auto simp: in_set_conv_nth)
    then show ?thesis using reader_can_step [of j b cap reqs brk etxt] \<open>pending q \<noteq> []\<close> inv unfolding backend_inv_def by blast
  qed
qed

theorem backend_progress_witness:
  "\<exists>b b'. accepted b = [0] \<and> bstep 4 (\<lambda>_. zero_request) (\<lambda>_. False) (\<lambda>_. []) b b' \<and> internal b b'"
proof -
  obtain b where b: "PushBack 0 NewBackendConn = Some b" "accepted b = [0]" "answered b = []"
    by (auto simp: PushBack_def NewBackendConn_def input_cap_def)
  let ?b = "dial_failed (b\<lparr>wph := WDial\<rparr>)"
  have r: "(bstep 4 (\<lambda>_. zero_request) (\<lambda>_. False) (\<lambda>_. []))\<^sup>*\<^sup>* NewBackendConn ?b"
    using short_run [OF b(1)] by blast
  have "\<exists>b'. bstep 4 (\<lambda>_. zero_request) (\<lambda>_. False) (\<lambda>_. []) ?b b' \<and> internal ?b b'"
    by (rule backend_progress [OF r, of 0]) (use b in \<open>simp_all add: dial_failed_def\<close>)
  then obtain b' where "bstep 4 (\<lambda>_. zero_request) (\<lambda>_. False) (\<lambda>_. []) ?b b'" "internal ?b b'" by blast
  moreover have "accepted ?b = [0]" using b(2) by (simp add: dial_failed_def)
  ultimately show ?thesis by blast
qed



text \<open>
  Nothing waits in the write buffer. While no read-only request of a closed session is
  skipped, a writer that waits for input has flushed every request it wrote.
\<close>

theorem writer_flushes:
  assumes "(bstep cap reqs brk etxt)\<^sup>*\<^sup>* NewBackendConn b" "\<forall>r. \<not> (IsReadOnly (rOpFlag (reqs r)) \<and> brk r)"
    "wph b = WLoop" "input b = []"
  shows "rdrs b \<noteq> [] \<and> unflushed (last (rdrs b)) = []"
proof -
  have "shape b" using bk.reach_inv [OF refl assms(1)] by (simp add: backend_inv_def)
  then have ne: "rdrs b \<noteq> []" using assms(3) by (simp add: shape_def)
  have "flushed_up b"
    using assms(1)
  proof (induction rule: rtranclp_induct)
    case base
    show ?case by (simp add: flushed_up_def NewBackendConn_def)
  next
    case (step b b')
    then show ?case using bstep_flushed assms(2) by blast
  qed
  then show ?thesis using assms(3,4) ne by (simp add: flushed_up_def)
qed

theorem writer_flushes_witness:
  "rdrs (dialled (NewBackendConn\<lparr>wph := WDial\<rparr>)) \<noteq> [] \<and> unflushed (last (rdrs (dialled (NewBackendConn\<lparr>wph := WDial\<rparr>)))) = []"
proof (rule writer_flushes [where cap = 4 and reqs = "\<lambda>_. zero_request" and brk = "\<lambda>_. False" and etxt = "\<lambda>_. []"])
  have "bstep 4 (\<lambda>_. zero_request) (\<lambda>_. False) (\<lambda>_. []) NewBackendConn (NewBackendConn\<lparr>wph := WDial\<rparr>)"
    by (rule run_round) (simp_all add: NewBackendConn_def)
  moreover have "bstep 4 (\<lambda>_. zero_request) (\<lambda>_. False) (\<lambda>_. []) (NewBackendConn\<lparr>wph := WDial\<rparr>) (dialled (NewBackendConn\<lparr>wph := WDial\<rparr>))"
    by (rule dial_ok) simp
  ultimately show "(bstep 4 (\<lambda>_. zero_request) (\<lambda>_. False) (\<lambda>_. []))\<^sup>*\<^sup>* NewBackendConn (dialled (NewBackendConn\<lparr>wph := WDial\<rparr>))"
    by (rule converse_rtranclp_into_rtranclp [OF _ r_into_rtranclp])
qed (simp_all add: dialled_def NewBackendConn_def)

text \<open>
  A written request can be stranded. When the last queued request is read-only and its
  session is gone, \<open>loopWriter\<close> skips it with \<open>continue\<close>, before the flush: the request written just
  before (within \<open>MaxInterval\<close> of the last write, so that it was not flushed at once) stays in the
  write buffer although the queue is empty, until somebody pushes another request.
\<close>

definition stranded :: backend where
  "stranded = NewBackendConn
     \<lparr>bstate := stateConnected, wph := WLoop, accepted := [0, 1], answered := [(1, (None, Some (ErrVar ErrRequestIsBroken)))],
      bdelay := \<lparr>dMin = 50, dMax = 5000, dValue = 0, dUnit = 1000000\<rparr>,
      rdrs := [new_rdr\<lparr>tasks := [0], wsent := [0], unflushed := [0]\<rparr>]\<rparr>"

theorem flush_skipped:
  "(bstep 20480 (\<lambda>_. zero_request) (\<lambda>r. r = 1) (\<lambda>_. []))\<^sup>*\<^sup>* NewBackendConn stranded
   \<and> wph stranded = WLoop \<and> input stranded = [] \<and> \<not> inclosed stranded \<and> unflushed (last (rdrs stranded)) = [0]
   \<and> 0 \<notin> fst ` set (answered stranded)"
proof -
  let ?R = "bstep 20480 (\<lambda>_. zero_request) (\<lambda>r. r = (1::nat)) (\<lambda>_. [])"
  let ?b0 = NewBackendConn
  let ?b1 = "?b0\<lparr>input := [0], accepted := [0]\<rparr>"
  let ?b2 = "?b1\<lparr>input := [0, 1], accepted := [0, 1]\<rparr>"
  let ?b3 = "?b2\<lparr>wph := WDial\<rparr>"
  let ?b4 = "dialled ?b3"
  let ?b5 = "write_one 20480 (\<lambda>_. zero_request) (\<lambda>r. r = 1) (\<lambda>_. []) (Written False) 0 (?b4\<lparr>input := [1]\<rparr>)"
  let ?b6 = "send_task 0 ?b5"
  let ?b7 = "write_one 20480 (\<lambda>_. zero_request) (\<lambda>r. r = 1) (\<lambda>_. []) (Written False) 1 (?b6\<lparr>input := []\<rparr>)"
  have s1: "?R ?b0 ?b1" by (rule push [of 0]) (simp_all add: NewBackendConn_def PushBack_def input_cap_def)
  have s2: "?R ?b1 ?b2" by (rule push [of 1]) (simp_all add: NewBackendConn_def PushBack_def input_cap_def)
  have s3: "?R ?b2 ?b3" by (rule run_round) (simp_all add: NewBackendConn_def)
  have s4: "?R ?b3 ?b4" by (rule dial_ok) simp
  have s5: "?R ?b4 ?b5" by (rule write_req) (simp_all add: dialled_def)
  have s6: "?R ?b5 ?b6"
    by (rule send_req) (simp_all add: write_one_def dialled_def NewBackendConn_def upd_last_def has_room_def Let_def new_rdr_def)
  have s7: "?R ?b6 ?b7"
    by (rule write_req) (simp_all add: send_task_def write_one_def dialled_def NewBackendConn_def)
  have e7: "?b7 = stranded"
    by (simp add: stranded_def write_one_def send_task_def dialled_def NewBackendConn_def upd_last_def Let_def new_rdr_def
        setResponse_def ResetDelay_def IsReadOnly_def zero_request_def)
  have "?R\<^sup>*\<^sup>* ?b0 ?b7" using s1 s2 s3 s4 s5 s6 s7 by (meson rtranclp.rtrancl_into_rtrancl rtranclp.rtrancl_refl)
  then show ?thesis unfolding e7 by (simp add: stranded_def NewBackendConn_def)
qed

text \<open>
  A request can be lost on \<open>Close\<close>. \<open>run\<close> returns as soon as it finds the connection closed,
  without draining the queue: a request accepted just before the close is then never answered,
  whatever happens later, so the session that waits for it waits for ever.
\<close>

definition abandoned :: backend where
  "abandoned = NewBackendConn\<lparr>input := [0], accepted := [0], inclosed := True, bclosed := True, wph := WExit\<rparr>"

lemma abandoned_stays: "bstep cap reqs brk etxt b b' \<Longrightarrow> b = abandoned \<Longrightarrow> b' = abandoned"
  by (erule bstep.cases) (auto simp: abandoned_def PushBack_def NewBackendConn_def)

theorem lost_on_close:
  "(bstep cap reqs brk etxt)\<^sup>*\<^sup>* NewBackendConn abandoned \<and> 0 \<in> set (accepted abandoned)
   \<and> (\<forall>b. (bstep cap reqs brk etxt)\<^sup>*\<^sup>* abandoned b \<longrightarrow> 0 \<notin> fst ` set (answered b))"
proof -
  let ?R = "bstep cap reqs brk etxt"
  let ?b1 = "NewBackendConn\<lparr>input := [0], accepted := [0]\<rparr>"
  let ?b2 = "?b1\<lparr>inclosed := True\<rparr>"
  let ?b3 = "?b2\<lparr>bclosed := True\<rparr>"
  have "?R NewBackendConn ?b1" by (rule push [of 0]) (simp_all add: NewBackendConn_def PushBack_def input_cap_def)
  moreover have "?R ?b1 ?b2" by (rule stop_input)
  moreover have "?R ?b2 ?b3" by (rule close_flag) simp
  moreover have "?R ?b3 (?b3\<lparr>wph := WExit\<rparr>)" by (rule run_exit) (simp_all add: NewBackendConn_def)
  moreover have "?b3\<lparr>wph := WExit\<rparr> = abandoned" by (simp add: abandoned_def)
  ultimately have "?R\<^sup>*\<^sup>* NewBackendConn abandoned" by (metis rtranclp.rtrancl_into_rtrancl rtranclp.rtrancl_refl)
  moreover have "0 \<notin> fst ` set (answered b)" if "?R\<^sup>*\<^sup>* abandoned b" for b
  proof -
    have "b = abandoned" using that by (induction rule: rtranclp_induct) (auto intro: abandoned_stays)
    then show ?thesis by (simp add: abandoned_def NewBackendConn_def)
  qed
  moreover have "accepted abandoned = [0]" by (simp add: abandoned_def NewBackendConn_def)
  ultimately show ?thesis by auto
qed

theorem lost_on_close_witness:
  "0 \<notin> fst ` set (answered abandoned)"
  using lost_on_close [of 20480 "\<lambda>_. zero_request" "\<lambda>_. False" "\<lambda>_. []"] by blast

end
