(* ===== verification/BackendSpec.thy ===== *)
theory BackendSpec
  imports Backend Zones
begin

section \<open>What a backend connection promises\<close>

text \<open>
  The specification of \<open>BackendConn\<close> that zones and the router rely on: a mailbox. It takes a
  request or refuses it, and later gives each request it took one outcome, in any order, never a
  second one. The goroutines of \<open>Backend\<close>, with their queue, connections, channels and drains,
  refine it, and the outcome is the one that \<open>deliver\<close> of \<open>Zones\<close> writes into the request.
\<close>

datatype mailEvent = Took nat | Refused nat | Answered nat outcome | Quiet

type_synonym mailbox = "nat set \<times> (nat \<rightharpoonup> outcome)"

inductive mail :: "mailEvent \<Rightarrow> mailbox \<Rightarrow> mailbox \<Rightarrow> bool" where
  took: "r \<notin> T \<Longrightarrow> mail (Took r) (T, A) (insert r T, A)"
| refused: "r \<notin> T \<Longrightarrow> mail (Refused r) (T, A) (T, A)"
| answers: "r \<in> T \<Longrightarrow> A r = None \<Longrightarrow> out \<noteq> Dropped \<Longrightarrow> mail (Answered r out) (T, A) (T, A(r \<mapsto> out))"
| quiet: "mail Quiet m m"

inductive_cases mail_answeredE: "mail (Answered r out) m m'"

text \<open>A mailbox is in order: only requests it took have outcomes, and none is \<open>Dropped\<close>.\<close>

definition mail_ok :: "mailbox \<Rightarrow> bool" where
  "mail_ok m \<longleftrightarrow> dom (snd m) \<subseteq> fst m \<and> Dropped \<notin> ran (snd m)"

text \<open>What the fields \<open>Resp\<close> and \<open>Err\<close> of an answered request say.\<close>

definition outcome_of :: "answer \<Rightarrow> outcome" where
  "outcome_of a = (case a of (Some x, _) \<Rightarrow> Replied x | (None, Some e) \<Rightarrow> Failed e | (None, None) \<Rightarrow> Dropped)"

definition lawful_answer :: "answer \<Rightarrow> bool" where
  "lawful_answer a \<longleftrightarrow> (\<exists>x. a = (Some x, None)) \<or> (\<exists>e. a = (None, Some e))"

lemma outcome_of_simps [simp]: "outcome_of (Some x, e) = Replied x" "outcome_of (None, Some e') = Failed e'"
  by (simp_all add: outcome_of_def)

lemma lawful_answers [simp]: "lawful_answer (Some x, None)" "lawful_answer (None, Some e)"
  by (simp_all add: lawful_answer_def)

lemma lawful_outcome: "lawful_answer a \<Longrightarrow> outcome_of a \<noteq> Dropped"
  by (auto simp: lawful_answer_def)

text \<open>\<open>deliver\<close> of the outcome is the assignment of the two fields by \<open>setResponse\<close>.\<close>

lemma deliver_outcome: "lawful_answer a \<Longrightarrow> deliver (outcome_of a) r = r\<lparr>rResp := fst a, rErr := snd a\<rparr>"
  by (auto simp: lawful_answer_def deliver_def)

definition mail_of :: "backend \<Rightarrow> mailbox" where
  "mail_of b = (set (accepted b), map_option outcome_of \<circ> map_of (answered b))"

subsection \<open>What a step of the goroutines tells its callers\<close>

text \<open>A step that only moves a request, one that takes a request, one that answers one.\<close>

definition moved :: "backend \<Rightarrow> backend \<Rightarrow> bool" where
  "moved b b' \<longleftrightarrow> accepted b' = accepted b \<and> answered b' = answered b"

definition gave :: "nat \<Rightarrow> answer \<Rightarrow> backend \<Rightarrow> backend \<Rightarrow> bool" where
  "gave r a b b' \<longleftrightarrow> accepted b' = accepted b \<and> answered b' = answered b @ [(r, a)] \<and> lawful_answer a"

definition accepts :: "nat \<Rightarrow> backend \<Rightarrow> backend \<Rightarrow> bool" where
  "accepts r b b' \<longleftrightarrow> r \<notin> set (accepted b) \<and> accepted b' = accepted b @ [r] \<and> answered b' = answered b"

lemma write_one_tells: "moved b (write_one cap reqs brk etxt out r b) \<or> (\<exists>a. gave r a b (write_one cap reqs brk etxt out r b))"
  by (auto simp: write_one_def moved_def gave_def setResponse_def split: wire_out.split)

lemma moved_input [simp]: "moved (b\<lparr>input := i\<rparr>) b' = moved b b'" "gave r a (b\<lparr>input := i\<rparr>) b' = gave r a b b'"
  by (simp_all add: moved_def gave_def)

lemma bstep_tells:
  assumes "bstep cap reqs brk etxt b b'"
  shows "moved b b' \<or> (\<exists>r. accepts r b b') \<or> (\<exists>r a. gave r a b b')"
  using assms
proof (cases rule: bstep.cases)
  case (push r)
  then show ?thesis by (auto simp: PushBack_def accepts_def moved_def split: if_splits)
next
  case (write_req r rest out)
  then show ?thesis using write_one_tells [of "b\<lparr>input := rest\<rparr>" cap reqs brk etxt out r] by auto
next
  case drain_err
  then show ?thesis using delayBeforeRetry_fields by (auto simp: moved_def)
next
  case (drain_one i err r rest)
  then have "gave r (None, Some (ErrVar ErrBackendConnReset)) b b'" by (simp add: gave_def setResponse_def)
  then show ?thesis by blast
next
  case (delay_one r rest)
  then have "gave r (None, Some (ErrVar ErrBackendConnReset)) b b'" by (simp add: gave_def setResponse_def)
  then show ?thesis by blast
next
  case (read_ok j r resp)
  then have "gave r (Some resp, None) b b'" by (simp add: gave_def setResponse_def reader_got_def)
  then show ?thesis by blast
next
  case (read_err j r e)
  then have "gave r (None, Some (conn_failure ''R2'' etxt e)) b b'" by (simp add: gave_def setResponse_def reader_failed_def)
  then show ?thesis by blast
next
  case (read_drain j r ts)
  then have "gave r (None, Some (ErrVar ErrBackendConnReset)) b b'" by (simp add: gave_def setResponse_def)
  then show ?thesis by blast
qed (simp_all add: moved_def dialled_def dial_failed_def writer_exit_def send_task_def)

subsection \<open>Close\<close>

text \<open>\<open>Close\<close>: the channel is closed once, then the flag is set; two steps of the goroutine that calls it.\<close>

definition CloseBackend :: "backend \<Rightarrow> backend" where
  "CloseBackend b = b\<lparr>inclosed := True, bclosed := True\<rparr>"

lemma CloseBackend_steps: "(bstep cap reqs brk etxt)\<^sup>*\<^sup>* b (CloseBackend b)"
proof -
  have "bstep cap reqs brk etxt b (b\<lparr>inclosed := True\<rparr>)" by (rule stop_input)
  moreover have "bstep cap reqs brk etxt (b\<lparr>inclosed := True\<rparr>) (CloseBackend b)"
    using close_flag [of "b\<lparr>inclosed := True\<rparr>" cap reqs brk etxt] by (simp add: CloseBackend_def)
  ultimately show ?thesis by (meson rtranclp.rtrancl_into_rtrancl rtranclp.rtrancl_refl)
qed

text \<open>A second close changes nothing, a push afterwards is a panic, and what was taken is still taken.\<close>

lemma CloseBackend_twice [simp]: "CloseBackend (CloseBackend b) = CloseBackend b"
  by (simp add: CloseBackend_def)

lemma CloseBackend_push: "PushBack r (CloseBackend b) = None"
  by (simp add: CloseBackend_def PushBack_def)

lemma CloseBackend_mail [simp]: "mail_of (CloseBackend b) = mail_of b"
  by (simp add: CloseBackend_def mail_of_def)

subsection \<open>The refinement\<close>

inductive tells :: "mailEvent \<Rightarrow> backend \<Rightarrow> backend \<Rightarrow> bool" where
  tell_took: "accepts r b b' \<Longrightarrow> tells (Took r) b b'"
| tell_answer: "gave r a b b' \<Longrightarrow> tells (Answered r (outcome_of a)) b b'"
| tell_quiet: "moved b b' \<Longrightarrow> tells Quiet b b'"
| tell_refused: "r \<notin> set (accepted b) \<Longrightarrow> PushBack r b = Some b' \<Longrightarrow> length (input b) \<ge> input_cap \<Longrightarrow> tells (Refused r) b b'"

lemma accounted_answer:
  assumes "accounted b'" "gave r a b b'"
  shows "r \<in> set (accepted b) \<and> r \<notin> fst ` set (answered b)"
proof -
  have m: "mset (accepted b) = mset (outstanding b' @ map fst (answered b) @ [r])" "distinct (accepted b)"
    using assms by (simp_all add: accounted_def gave_def)
  then have "distinct (outstanding b' @ map fst (answered b) @ [r])" using mset_eq_imp_distinct_iff by blast
  then show ?thesis using mset_eq_setD [OF m(1)] by auto
qed

lemma mail_of_answer:
  assumes "gave r a b b'" "r \<notin> fst ` set (answered b)"
  shows "mail_of b' = (set (accepted b), (map_option outcome_of \<circ> map_of (answered b))(r \<mapsto> outcome_of a))"
proof -
  have "map_of (answered b) r = None" using assms(2) by (simp add: map_of_eq_None_iff)
  then show ?thesis using assms(1) by (auto simp: mail_of_def gave_def map_add_def fun_eq_iff split: option.splits)
qed

lemma tells_refine:
  assumes "tells l b b'" "accounted b'"
  shows "mail l (mail_of b) (mail_of b')"
  using assms(1)
proof (cases rule: tells.cases)
  case (tell_took r)
  then show ?thesis by (auto simp: mail_of_def accepts_def intro: took)
next
  case (tell_answer r a)
  note new = accounted_answer [OF assms(2) tell_answer(2)]
  have "map_of (answered b) r = None" using new by (simp add: map_of_eq_None_iff)
  moreover have "outcome_of a \<noteq> Dropped" using tell_answer(2) lawful_outcome by (simp add: gave_def)
  ultimately show ?thesis
    using new tell_answer(1) mail_of_answer [OF tell_answer(2)] unfolding mail_of_def by (auto intro!: answers)
next
  case tell_quiet
  then show ?thesis by (auto simp: mail_of_def moved_def intro: quiet)
next
  case (tell_refused r)
  then have "mail_of b' = mail_of b" by (auto simp: PushBack_def mail_of_def split: if_splits)
  then show ?thesis using tell_refused(1,2) by (simp add: mail_of_def refused)
qed

interpretation mailbox: refinement "\<lambda>b. b = NewBackendConn" "bstep cap reqs brk etxt" backend_inv tells mail mail_of
  for cap reqs brk etxt
proof
  show "\<exists>l. tells l s s'" if "bstep cap reqs brk etxt s s'" for s s'
    using bstep_tells [OF that] by (meson tells.intros)
  show "mail l (mail_of s) (mail_of s')" if "bstep cap reqs brk etxt s s'" "tells l s s'" "backend_inv s" for s s' l
    using tells_refine [OF that(2)] bk.step_inv [OF that(1,3)] by (simp add: backend_inv_def)
qed

text \<open>An outcome that was given stays: the session that waits for it reads what was written once.\<close>

lemma mail_keeps: "mail l m m' \<Longrightarrow> fst m \<subseteq> fst m' \<and> snd m \<subseteq>\<^sub>m snd m' \<and> (mail_ok m \<longrightarrow> mail_ok m')"
  by (induction rule: mail.induct) (auto simp: mail_ok_def map_le_def ran_def split: if_splits)

lemma mail_run_keeps:
  "(\<lambda>a b. \<exists>l. mail l a b)\<^sup>*\<^sup>* m m' \<Longrightarrow> snd m \<subseteq>\<^sub>m snd m' \<and> (mail_ok m \<longrightarrow> mail_ok m')"
proof (induction rule: rtranclp_induct)
  case base
  show ?case by simp
next
  case (step m' m'')
  then show ?case using mail_keeps map_le_trans by blast
qed

lemma mail_of_new [simp]: "mail_of NewBackendConn = ({}, \<lambda>_. None)"
  by (simp add: mail_of_def NewBackendConn_def fun_eq_iff)

lemma answers_lawful: "(bstep cap reqs brk etxt)\<^sup>*\<^sup>* NewBackendConn b \<Longrightarrow> \<forall>(r, a) \<in> set (answered b). lawful_answer a"
proof (induction rule: rtranclp_induct)
  case base
  show ?case by (simp add: NewBackendConn_def)
next
  case (step b b')
  then show ?case using bstep_tells [OF step(2)] by (auto simp: moved_def accepts_def gave_def)
qed

lemma answer_is_mail:
  assumes "(bstep cap reqs brk etxt)\<^sup>*\<^sup>* NewBackendConn b" "(r, a) \<in> set (answered b)"
  shows "snd (mail_of b) r = Some (outcome_of a)"
proof -
  have "accounted b" using bk.reach_inv [OF refl assms(1)] by (simp add: backend_inv_def)
  then have "mset (accepted b) = mset (outstanding b @ map fst (answered b))" "distinct (accepted b)"
    by (simp_all add: accounted_def)
  then have "distinct (outstanding b @ map fst (answered b))" using mset_eq_imp_distinct_iff by blast
  then have "map_of (answered b) r = Some a" using assms(2) map_of_is_SomeI by simp
  then show ?thesis by (simp add: mail_of_def)
qed

text \<open>
  C7. A backend connection is a mailbox. Every step of its goroutines, in every state they reach,
  is a step of the specification: it takes a request, refuses it because the queue is full, gives a
  request that was taken and has no outcome its outcome, or tells nobody anything. So every run is a run
  of the specification from the empty mailbox, where nothing is answered that was not taken, and the outcome of a
  request is what zones deliver: it sets the fields \<open>Resp\<close> and \<open>Err\<close> to the answer, once and for all.
\<close>

theorem backend_refines:
  assumes "(bstep cap reqs brk etxt)\<^sup>*\<^sup>* NewBackendConn b" "bstep cap reqs brk etxt b b'"
  shows "(\<exists>l. tells l b b' \<and> mail l (mail_of b) (mail_of b'))
    \<and> (\<lambda>m m'. \<exists>l. mail l m m')\<^sup>*\<^sup>* ({}, \<lambda>_. None) (mail_of b') \<and> mail_ok (mail_of b') \<and> snd (mail_of b) \<subseteq>\<^sub>m snd (mail_of b')
    \<and> (\<forall>(r, a) \<in> set (answered b'). snd (mail_of b') r = Some (outcome_of a)
         \<and> (\<forall>q. deliver (outcome_of a) q = q\<lparr>rResp := fst a, rErr := snd a\<rparr>))"
proof -
  have run': "(bstep cap reqs brk etxt)\<^sup>*\<^sup>* NewBackendConn b'" using assms by (rule rtranclp.rtrancl_into_rtrancl)
  obtain l where l: "tells l b b'" using mailbox.step_label [OF assms(2)] by blast
  then have m: "mail l (mail_of b) (mail_of b')" using mailbox.step_refines [OF refl assms l] by simp
  have r: "(\<lambda>m m'. \<exists>l. mail l m m')\<^sup>*\<^sup>* ({}, \<lambda>_. None) (mail_of b')"
    using mailbox.run_refines [OF run' refl] by simp
  have "mail_ok ({}, \<lambda>_. None)" by (simp add: mail_ok_def)
  then have "mail_ok (mail_of b')" using mail_run_keeps [OF r] by blast
  moreover have "\<forall>(r, a) \<in> set (answered b'). snd (mail_of b') r = Some (outcome_of a)
         \<and> (\<forall>q. deliver (outcome_of a) q = q\<lparr>rResp := fst a, rErr := snd a\<rparr>)"
  proof (intro ballI, clarify, intro conjI allI)
    fix r x e q assume a: "(r, x, e) \<in> set (answered b')"
    show "snd (mail_of b') r = Some (outcome_of (x, e))" using answer_is_mail [OF run' a] .
    have "lawful_answer (x, e)" using answers_lawful [OF run'] a by blast
    then show "deliver (outcome_of (x, e)) q = q\<lparr>rResp := fst (x, e), rErr := snd (x, e)\<rparr>" by (rule deliver_outcome)
  qed
  moreover have "snd (mail_of b) \<subseteq>\<^sub>m snd (mail_of b')" using mail_keeps [OF m] by blast
  ultimately show ?thesis using l m r by blast
qed

theorem backend_refines_witness:
  "\<exists>b. PushBack 0 NewBackendConn = Some b \<and> mail (Took 0) (mail_of NewBackendConn) (mail_of b)
     \<and> (\<lambda>m m'. \<exists>l. mail l m m')\<^sup>*\<^sup>* ({}, \<lambda>_. None) (mail_of b)"
proof -
  obtain b where b: "PushBack 0 NewBackendConn = Some b" "accepted b = [0]" "answered b = []"
    by (auto simp: PushBack_def NewBackendConn_def input_cap_def)
  have "bstep 4 (\<lambda>_. zero_request) (\<lambda>_. False) (\<lambda>_. []) NewBackendConn b"
    by (rule push [OF _ b(1)]) (simp add: NewBackendConn_def)
  then have r: "(\<lambda>m m'. \<exists>l. mail l m m')\<^sup>*\<^sup>* ({}, \<lambda>_. None) (mail_of b)"
    using backend_refines [OF rtranclp.rtrancl_refl] by blast
  have "mail (Took 0) ({}, \<lambda>_. None) ({0}, \<lambda>_. None)" by (rule took) simp
  moreover have "mail_of b = ({0}, \<lambda>_. None)" using b(2,3) by (simp add: mail_of_def fun_eq_iff)
  ultimately have "mail (Took 0) (mail_of NewBackendConn) (mail_of b)" by simp
  then show ?thesis using r b(1) by blast
qed

end
