(* ===== verification/Forwarding.thy ===== *)
theory Forwarding
  imports Zones
begin

section \<open>Forward methods, and a zone that changes meanwhile\<close>

text \<open>
  Models \<open>pkg/proxy/forward.go\<close>, whose two methods nothing calls, and the two halves of
  \<open>Zone.Forward\<close> of \<open>pkg/proxy/zones.go\<close>: choosing a backend connection, and pushing on it. They run
  under different locks than \<open>ChangeConn\<close>, which can come between them.
\<close>

subsection \<open>Forward methods\<close>

datatype forwardMethod = ForwardSync | ForwardASync

definition GetId :: "forwardMethod \<Rightarrow> int" where
  "GetId d = (case d of ForwardSync \<Rightarrow> 0 | ForwardASync \<Rightarrow> 1)"

definition forwardSync_process :: "'w net \<Rightarrow> zone \<Rightarrow> request \<Rightarrow> nat option option" where
  "forwardSync_process n z r = BackendConn (rDatabase r) (nseed n r) True (nup n) (shared_of (npool n) (zbc z))"

definition forwardSync_Forward :: "'w net \<Rightarrow> zone \<Rightarrow> request \<Rightarrow> 'w \<Rightarrow> request option \<times> 'w" where
  "forwardSync_Forward n z r w =
     (case forwardSync_process n z r of
        Some (Some bc) \<Rightarrow>
          if bc \<in> bcClosed (npool n) then (None, w)
          else (case nsrv n bc r w of (out, w') \<Rightarrow> (Some (deliver out r), w'))
      | _ \<Rightarrow> (None, w))"

definition forwardASync_Forward :: "'w net \<Rightarrow> zone \<Rightarrow> request \<Rightarrow> 'w \<Rightarrow> request option \<times> 'w" where
  "forwardASync_Forward n z r w = (Some r, w)"

text \<open>The synchronous method is \<open>Forward\<close> of a zone; the asynchronous one drops the request.\<close>

lemma forwardSync_is_Forward: "forwardSync_Forward n z r w = Forward n z r w"
  by (simp add: forwardSync_Forward_def forwardSync_process_def Forward_def zprocess_def)

lemma ForwardAsync_is_Forward: "ForwardAsync n z r w = Forward n z r w"
  by (simp add: ForwardAsync_def Forward_def)

subsection \<open>The two halves\<close>

text \<open>\<open>PushBack\<close> on the chosen connection, in the pool as it is then; None is the panic of a closed channel.\<close>

definition ForwardPush :: "'w net \<Rightarrow> nat option option \<Rightarrow> request \<Rightarrow> 'w \<Rightarrow> request option \<times> 'w" where
  "ForwardPush n chosen r w =
     (case chosen of
        Some (Some bc) \<Rightarrow>
          if bc \<in> bcClosed (npool n) then (None, w)
          else (case nsrv n bc r w of (out, w') \<Rightarrow> (Some (deliver out r), w'))
      | _ \<Rightarrow> (None, w))"

lemma Forward_halves: "Forward n z r w = ForwardPush n (zprocess n z r) r w"
  by (simp add: Forward_def ForwardPush_def)

lemma last_release_closes:
  assumes "heap p a = Some s" "refcnt s = 1"
  shows "ReleaseConn (Some a) p = Some (p\<lparr>heap := (heap p)(a \<mapsto> s\<lparr>refcnt := 0\<rparr>),
    bcClosed := bcClosed p \<union> bcs s, ppool := (ppool p)(saddr s := None)\<rparr>)"
  using assms by (simp add: ReleaseConn_def Let_def bcs_def)

text \<open>
  A zone may not change between the halves. While a zone holds the last reference to its
  shared connection, forwarding to it works before the change; but if \<open>ChangeConn\<close> runs after the connection
  was chosen and before the request is pushed on it, the push is a send on a closed channel, a panic.
\<close>

theorem forward_races:
  assumes "pool_inv refs (npool n)" "heap (npool n) a = Some s" "refs a = 1" "zbc z = Some a"
    "zprocess n z r = Some (Some bc)" "bc \<in> bcs s"
  shows "(\<exists>r' w'. Forward n z r w = (Some r', w'))
    \<and> (\<exists>z' p'. ChangeConn conn z (npool n) = Some (z', p') \<and> zbc z' = conn
         \<and> ForwardPush (n\<lparr>npool := p'\<rparr>) (zprocess n z r) r w = (None, w))"
proof
  have "bcs s \<inter> bcClosed (npool n) = {}" using assms(1-3) unfolding pool_inv_def by (elim conjE) force
  then have "bc \<notin> bcClosed (npool n)" using assms(6) by blast
  then show "\<exists>r' w'. Forward n z r w = (Some r', w')"
    using assms(5) by (cases "nsrv n bc r w") (simp add: Forward_def)
  have "refcnt s = 1" using pool_count [OF assms(1,2)] assms(3) by simp
  note closes = last_release_closes [OF assms(2) this]
  show "\<exists>z' p'. ChangeConn conn z (npool n) = Some (z', p') \<and> zbc z' = conn
         \<and> ForwardPush (n\<lparr>npool := p'\<rparr>) (zprocess n z r) r w = (None, w)"
    using assms(4-6) closes by (simp add: ChangeConn_def ForwardPush_def)
qed

definition dropping_net :: "pool \<Rightarrow> unit net" where
  "dropping_net p = \<lparr>npool = p, nup = (\<lambda>_. True), nseed = (\<lambda>_. 0), nsrv = (\<lambda>_ _ w. (Dropped, w))\<rparr>"

theorem forward_races_witness:
  "\<exists>p z z' p'. ChangeConn None z p = Some (z', p')
     \<and> fst (ForwardPush (dropping_net p') (zprocess (dropping_net p) z zero_request) zero_request ()) = None"
proof -
  let ?p0 = "NewSharedBackendConnPool 1 1"
  obtain p where p: "PoolRetain ''h:1'' ?p0 = Some (0, p)"
    by (simp add: PoolRetain_def newSharedBackendConn_def NewSharedBackendConnPool_def Let_def)
  have "pool_step (\<lambda>_. 0, ?p0) ((\<lambda>_. 0)(0 := 0 + 1), p)" using step_retain [OF p, of "\<lambda>_. 0"] by simp
  then have i: "pool_inv ((\<lambda>_. 0)(0 := 0 + 1)) p" using pool_step_inv pool_inv_new by (metis fst_conv snd_conv)
  let ?n = "dropping_net p" and ?z = "NewZone 0 (Some 0) ''A'' False [] []"
  let ?s = "\<lparr>saddr = ''h:1'', sconns = [[0]], ssingle = Some [0], refcnt = 1\<rparr>"
  have h: "heap p 0 = Some ?s"
    using p by (auto simp: PoolRetain_def newSharedBackendConn_def NewSharedBackendConnPool_def Let_def conn_rows_def MaxInt_def)
  have c: "zprocess ?n ?z zero_request = Some (Some 0)"
    using h by (simp add: zprocess_def dropping_net_def NewZone_def shared_of_def BackendConn_def zero_request_def Let_def)
  have "npool ?n = p" "\<And>p'. ?n\<lparr>npool := p'\<rparr> = dropping_net p'" by (simp_all add: dropping_net_def)
  then show ?thesis
    using forward_races [of "(\<lambda>_. 0)(0 := 0 + 1)" ?n 0 ?s ?z zero_request 0 "()" None] i h c by (fastforce simp: NewZone_def bcs_def)
qed

end
