(* ===== verification/Sentinel.thy ===== *)
theory Sentinel
  imports Strconv
begin

section \<open>Asking the sentinels\<close>

text \<open>
  Models \<open>pkg/utils/redis/sentinel.go\<close>. Each sentinel is asked by a goroutine of its own; what
  the network gives back is a script: the answers in the order they arrive on the channel
  \<open>results\<close>, or the end of the context. Printing and error hooks are left out.
\<close>

record sentinelMaster =
  maddr :: string
  minfo :: "string \<rightharpoonup> string"
  epoch :: int

text \<open>A missing key of a Go map of strings reads as the empty string.\<close>

definition lookup :: "(string \<rightharpoonup> string) \<Rightarrow> string \<Rightarrow> string" where
  "lookup m k = (case m k of None \<Rightarrow> [] | Some v \<Rightarrow> v)"

definition JoinHostPort :: "string \<Rightarrow> string \<Rightarrow> string" where
  "JoinHostPort host port =
     (if CHR '':'' \<in> set host \<or> CHR ''%'' \<in> set host then ''['' @ host @ '']:'' @ port else host @ '':'' @ port)"

text \<open>\<open>mastersCommand\<close>: the reply of \<open>SENTINEL masters\<close>, converted map by map.\<close>

fun mastersCommand_loop :: "('v \<Rightarrow> goerror + (string \<rightharpoonup> string)) \<Rightarrow> 'v list \<Rightarrow> goerror + (string \<rightharpoonup> string) list" where
  "mastersCommand_loop StringMap [] = Inr []"
| "mastersCommand_loop StringMap (v # vs) =
     (case StringMap v of
        Inl e \<Rightarrow> Inl (Trace e)
      | Inr p \<Rightarrow> (case mastersCommand_loop StringMap vs of Inl e \<Rightarrow> Inl e | Inr ps \<Rightarrow> Inr (p # ps)))"

definition mastersCommand :: "('v \<Rightarrow> goerror + (string \<rightharpoonup> string)) \<Rightarrow> goerror + 'v list \<Rightarrow> goerror + (string \<rightharpoonup> string) list" where
  "mastersCommand StringMap reply = (case reply of Inl e \<Rightarrow> Inl (Trace e) | Inr vs \<Rightarrow> mastersCommand_loop StringMap vs)"

text \<open>The callback of \<open>mastersDispatch\<close>: masters without an epoch or an address are skipped.\<close>

primrec keep_masters :: "(string \<rightharpoonup> string) list \<Rightarrow> (string \<rightharpoonup> sentinelMaster) \<Rightarrow> (string \<rightharpoonup> sentinelMaster)" where
  "keep_masters [] ms = ms"
| "keep_masters (info # infos) ms =
     (case ParseInt (lookup info ''config-epoch'') of
        Inl _ \<Rightarrow> keep_masters infos ms
      | Inr ep \<Rightarrow>
          if lookup info ''ip'' = [] \<or> lookup info ''port'' = [] then keep_masters infos ms
          else keep_masters infos (ms(lookup info ''name'' \<mapsto>
                 \<lparr>maddr = JoinHostPort (lookup info ''ip'') (lookup info ''port''), minfo = info, epoch = ep\<rparr>)))"

text \<open>
  How \<open>dispatch\<close> on one sentinel ends: no client, the context's end, or the callback's result.
  \<open>mastersDispatch\<close> gives a nil map on any error, without an error when it was cancelled.
\<close>

datatype ctxerr = Canceled | DeadlineExceeded

datatype asked = NoClient goerror | CtxDone ctxerr | Asked "goerror + (string \<rightharpoonup> string) list"

definition mastersDispatch :: "(ctxerr \<Rightarrow> goerror) \<Rightarrow> asked \<Rightarrow> (string \<rightharpoonup> sentinelMaster) option \<times> goerror option" where
  "mastersDispatch ctx_error a =
     (case a of
        NoClient e \<Rightarrow> (None, Some e)
      | CtxDone Canceled \<Rightarrow> (None, None)
      | CtxDone DeadlineExceeded \<Rightarrow> (None, Some (Trace (ctx_error DeadlineExceeded)))
      | Asked (Inl e) \<Rightarrow> if Cause e = ctx_error Canceled then (None, None) else (None, Some e)
      | Asked (Inr infos) \<Rightarrow> (Some (keep_masters infos Map.empty), None))"

subsection \<open>Masters\<close>

text \<open>
  The collecting loop: \<open>alive\<close> answers are still due. A script that ends leaves it waiting
  (\<open>None\<close>). \<open>cerr\<close> is what the context says once all answers are in.
\<close>

datatype event = Result "(string \<rightharpoonup> sentinelMaster) option" | Done ctxerr

definition majority :: "nat \<Rightarrow> nat" where
  "majority n = 1 + n div 2"

definition lost_majority :: "nat \<Rightarrow> nat \<Rightarrow> goerror" where
  "lost_majority voted n = Errorf (''lost majority ('' @ Itoa (int voted) @ ''/'' @ Itoa (int n) @ '')'')"

definition addresses :: "(string \<rightharpoonup> sentinelMaster) \<Rightarrow> (string \<rightharpoonup> string)" where
  "addresses m = (\<lambda>k. map_option maddr (m k))"

fun masters_loop :: "(ctxerr \<Rightarrow> goerror) \<Rightarrow> ctxerr option \<Rightarrow> nat \<Rightarrow> nat \<Rightarrow> nat \<Rightarrow> (string \<rightharpoonup> string) \<Rightarrow> event list
    \<Rightarrow> (goerror + (string \<rightharpoonup> string)) option" where
  "masters_loop ctx_error cerr n 0 voted ms evs =
     (if cerr = Some Canceled then Some (Inl (Trace (ctx_error Canceled)))
      else if voted < majority n then Some (Inl (lost_majority voted n))
      else Some (Inr ms))"
| "masters_loop ctx_error cerr n (Suc alive) voted ms [] = None"
| "masters_loop ctx_error cerr n (Suc alive) voted ms (Done e # evs) =
     (if e \<noteq> DeadlineExceeded then Some (Inl (Trace (ctx_error e)))
      else if voted < majority n then Some (Inl (lost_majority voted n))
      else Some (Inr ms))"
| "masters_loop ctx_error cerr n (Suc alive) voted ms (Result None # evs) =
     masters_loop ctx_error cerr n alive voted ms evs"
| "masters_loop ctx_error cerr n (Suc alive) voted ms (Result (Some m) # evs) =
     masters_loop ctx_error cerr n alive (voted + 1) (ms ++ addresses m) evs"

definition Masters :: "(ctxerr \<Rightarrow> goerror) \<Rightarrow> ctxerr option \<Rightarrow> string list \<Rightarrow> event list \<Rightarrow> (goerror + (string \<rightharpoonup> string)) option" where
  "Masters ctx_error cerr sentinels evs = masters_loop ctx_error cerr (length sentinels) (length sentinels) 0 Map.empty evs"

subsection \<open>What is reported\<close>

text \<open>The answers that came in, and which address the last of them gives a name.\<close>

definition votes :: "event list \<Rightarrow> (string \<rightharpoonup> sentinelMaster) list" where
  "votes evs = concat (map (\<lambda>e. case e of Result (Some m) \<Rightarrow> [m] | _ \<Rightarrow> []) evs)"

definition last_word :: "(string \<rightharpoonup> sentinelMaster) list \<Rightarrow> string \<Rightarrow> string option" where
  "last_word vs k = (let ws = filter (\<lambda>m. m k \<noteq> None) vs in if ws = [] then None else map_option maddr (last ws k))"

lemma last_word_snoc: "last_word (vs @ [m]) = last_word vs ++ addresses m"
  by (auto simp: last_word_def addresses_def map_add_def fun_eq_iff Let_def split: option.split)

lemma votes_simps [simp]:
  "votes [] = []" "votes (Done e # evs) = votes evs" "votes (Result None # evs) = votes evs"
  "votes (Result (Some m) # evs) = m # votes evs"
  by (simp_all add: votes_def)

lemma masters_loop_spec:
  assumes "masters_loop ctx_error cerr n alive (length vs) (last_word vs) evs = Some (Inr ms)"
  shows "\<exists>used rest. evs = used @ rest \<and> length (votes used) \<le> alive \<and>
    majority n \<le> length vs + length (votes used) \<and> ms = last_word (vs @ votes used)"
  using assms
proof (induction evs arbitrary: alive vs)
  case Nil
  then show ?case by (cases alive) (auto split: if_splits)
next
  case (Cons e evs)
  show ?case
  proof (cases alive)
    case 0
    then show ?thesis using Cons.prems by (intro exI [of _ "[]"] exI [of _ "e # evs"]) (auto split: if_splits)
  next
    case (Suc k)
    show ?thesis
    proof (cases e)
      case (Done c)
      then show ?thesis using Cons.prems Suc by (intro exI [of _ "[e]"] exI [of _ evs]) (auto split: if_splits)
    next
      case (Result r)
      let ?vs = "vs @ (case r of None \<Rightarrow> [] | Some m \<Rightarrow> [m])"
      have "masters_loop ctx_error cerr n k (length ?vs) (last_word ?vs) evs = Some (Inr ms)"
        using Cons.prems Suc Result by (auto simp: last_word_snoc split: option.splits)
      then obtain used rest where u: "evs = used @ rest" "length (votes used) \<le> k"
        "majority n \<le> length ?vs + length (votes used)" "ms = last_word (?vs @ votes used)"
        using Cons.IH by blast
      then show ?thesis using Suc Result
        by (intro exI [of _ "e # used"] exI [of _ rest]) (auto split: option.splits)
    qed
  qed
qed

text \<open>As many answers as there are sentinels end the loop.\<close>

lemma masters_loop_answers:
  assumes "length rs = alive" "cerr \<noteq> Some Canceled" "majority n \<le> length vs + length (votes (map Result rs))"
  shows "masters_loop ctx_error cerr n alive (length vs) (last_word vs) (map Result rs) =
    Some (Inr (last_word (vs @ votes (map Result rs))))"
  using assms
proof (induction rs arbitrary: alive vs)
  case Nil
  then show ?case by simp
next
  case (Cons r rs)
  let ?vs = "vs @ (case r of None \<Rightarrow> [] | Some m \<Rightarrow> [m])"
  have "masters_loop ctx_error cerr n (length rs) (length ?vs) (last_word ?vs) (map Result rs) =
      Some (Inr (last_word (?vs @ votes (map Result rs))))"
    using Cons.prems by (intro Cons.IH) (auto split: option.splits)
  then show ?case using Cons.prems(1) by (auto simp: last_word_snoc split: option.splits)
qed

text \<open>
  C35. What \<open>Masters\<close> returns was said by a majority: of the sentinels asked, at most one answer
  each, more than half gave an answer, and the address of every name is the one in the last
  answer that has the name. If more than half answer and nothing is cancelled, it returns.
\<close>

theorem masters_by_majority:
  "(Masters ctx_error cerr sentinels evs = Some (Inr ms) \<longrightarrow>
     (\<exists>used rest. evs = used @ rest \<and> length (votes used) \<le> length sentinels \<and>
        length sentinels < 2 * length (votes used) \<and> ms = last_word (votes used)))
   \<and> (length rs = length sentinels \<and> cerr \<noteq> Some Canceled \<and> length sentinels < 2 * length (votes (map Result rs)) \<longrightarrow>
     Masters ctx_error cerr sentinels (map Result rs) = Some (Inr (last_word (votes (map Result rs)))))"
proof -
  have e: "last_word [] = Map.empty" by (simp add: last_word_def fun_eq_iff)
  have m: "majority n \<le> k \<longleftrightarrow> n < 2 * k" for n k by (auto simp: majority_def)
  show ?thesis
    using masters_loop_spec [of ctx_error cerr "length sentinels" "length sentinels" "[]" evs ms]
      masters_loop_answers [of rs "length sentinels" cerr "length sentinels" "[]" ctx_error]
    unfolding Masters_def e m by simp
qed

text \<open>A sentinel's answer that the master \<open>mymaster\<close> is at a port, as of an epoch.\<close>

definition says :: "string \<Rightarrow> int \<Rightarrow> string \<rightharpoonup> sentinelMaster" where
  "says port ep = keep_masters
     [[''name'' \<mapsto> ''mymaster'', ''ip'' \<mapsto> ''10.0.0.1'', ''port'' \<mapsto> port, ''config-epoch'' \<mapsto> FormatInt ep]] Map.empty"

theorem masters_by_majority_witness:
  "Masters (\<lambda>_. ErrNew []) None [''s1'', ''s2'', ''s3''] (map Result [Some (says ''1'' 7), None, Some (says ''2'' 6)]) =
   Some (Inr (last_word [says ''1'' 7, says ''2'' 6]))"
  using masters_by_majority [THEN conjunct2, THEN mp,
    of "[Some (says ''1'' 7), None, Some (says ''2'' 6)]" "[''s1'', ''s2'', ''s3'']" None "\<lambda>_. ErrNew []"]
  by simp

text \<open>
  The configuration epoch is read and not used: of two sentinels that answer, the one that
  answers last decides, and a stale address, of an older epoch, replaces the newer one.
\<close>

theorem stale_master_wins:
  "Masters (\<lambda>_. ErrNew []) None [''s1'', ''s2''] [Result (Some (says ''1'' 7)), Result (Some (says ''2'' 6))] =
     Some (Inr [''mymaster'' \<mapsto> ''10.0.0.1:2''])
   \<and> map_option epoch (says ''1'' 7 ''mymaster'') = Some 7 \<and> map_option epoch (says ''2'' 6 ''mymaster'') = Some 6"
proof -
  have s: "says port ep = [''mymaster'' \<mapsto> \<lparr>maddr = ''10.0.0.1:'' @ port,
      minfo = [''name'' \<mapsto> ''mymaster'', ''ip'' \<mapsto> ''10.0.0.1'', ''port'' \<mapsto> port, ''config-epoch'' \<mapsto> FormatInt ep], epoch = ep\<rparr>]"
    if "port \<noteq> []" "int64 ep" for port ep
    using that by (simp add: says_def lookup_def JoinHostPort_def ParseInt_FormatInt)
  have a: "addresses [''mymaster'' \<mapsto> m] = [''mymaster'' \<mapsto> maddr m]" for m
    by (simp add: addresses_def fun_eq_iff)
  show ?thesis by (simp add: Masters_def majority_def s a int64_def)
qed

end
