(* ===== verification/Info.thy ===== *)
theory Info
  imports Strconv
begin

section \<open>Reading the text of INFO\<close>

text \<open>
  Models the loop over the reply of \<open>INFO\<close> that stands in \<open>pkg/proxy/pool.go\<close> (the callback of
  \<open>BackendConn.KeepAlive\<close>) and in \<open>pkg/utils/redis/client.go\<close> (\<open>Client.Info\<close>, and the variant of
  \<open>Client.InfoKeySpace\<close>), with \<open>strings.Split\<close>, \<open>strings.SplitN\<close> and \<open>strings.TrimSpace\<close>. Trimming
  works on the UTF-8 encodings of the runes that \<open>unicode.IsSpace\<close> accepts.
\<close>

subsection \<open>strings.TrimSpace\<close>

definition space_runes :: "bytes list" where
  "space_runes =
     [[CHR 0x09], [CHR 0x0A], [CHR 0x0B], [CHR 0x0C], [CHR 0x0D], [CHR 0x20],
      [CHR 0xC2, CHR 0x85], [CHR 0xC2, CHR 0xA0], [CHR 0xE1, CHR 0x9A, CHR 0x80]] @
     map (\<lambda>c. [CHR 0xE2, CHR 0x80, c])
       [CHR 0x80, CHR 0x81, CHR 0x82, CHR 0x83, CHR 0x84, CHR 0x85, CHR 0x86, CHR 0x87, CHR 0x88,
        CHR 0x89, CHR 0x8A, CHR 0xA8, CHR 0xA9, CHR 0xAF] @
     [[CHR 0xE2, CHR 0x81, CHR 0x9F], [CHR 0xE3, CHR 0x80, CHR 0x80]]"

text \<open>Stripping prefixes that are in a list, as long as there is one.\<close>

function strip :: "'a list list \<Rightarrow> 'a list \<Rightarrow> 'a list" where
  "strip ps s =
     (case find (\<lambda>p. p \<noteq> [] \<and> has_prefix s p) ps of
        None \<Rightarrow> s
      | Some p \<Rightarrow> strip ps (drop (length p) s))"
  by auto

termination
proof (relation "measure (\<lambda>(ps, s). length s)")
  fix ps :: "'a list list" and s p
  assume "find (\<lambda>p. p \<noteq> [] \<and> has_prefix s p) ps = Some p"
  then have "p \<noteq> []" and "take (length p) s = p"
    by (auto simp: find_Some_iff has_prefix_def)
  then show "((ps, drop (length p) s), ps, s) \<in> measure (\<lambda>(ps, s). length s)"
    by (cases s) auto
qed simp

declare strip.simps [simp del]

definition TrimSpace :: "string \<Rightarrow> string" where
  "TrimSpace s = rev (strip (map rev space_runes) (rev (strip space_runes s)))"

lemma strip_fixed: "(\<forall>p \<in> set ps. p \<noteq> [] \<longrightarrow> \<not> has_prefix s p) \<Longrightarrow> strip ps s = s"
proof -
  assume "\<forall>p \<in> set ps. p \<noteq> [] \<longrightarrow> \<not> has_prefix s p"
  then have "find (\<lambda>p. p \<noteq> [] \<and> has_prefix s p) ps = None" by (auto simp: find_None_iff)
  then show ?thesis by (subst strip.simps) simp
qed

lemma strip_ends: "p \<in> set ps \<Longrightarrow> p \<noteq> [] \<Longrightarrow> \<not> has_prefix (strip ps s) p"
proof (induction ps s rule: strip.induct)
  case (1 ps s)
  show ?case
  proof (cases "find (\<lambda>p. p \<noteq> [] \<and> has_prefix s p) ps")
    case None
    with 1(2,3) have "\<not> has_prefix s p" by (auto simp: find_None_iff)
    with None show ?thesis by (subst strip.simps) simp
  next
    case (Some q)
    have "strip ps s = strip ps (drop (length q) s)" using Some by (subst strip.simps) simp
    with 1(1) [OF Some 1(2,3)] show ?thesis by simp
  qed
qed

lemma strip_Cons_unique:
  assumes "[c] \<in> set ps" and "\<And>p. p \<in> set ps \<Longrightarrow> p \<noteq> [] \<Longrightarrow> hd p = c \<Longrightarrow> p = [c]"
  shows "strip ps (c # s) = strip ps s"
proof -
  let ?P = "\<lambda>p. p \<noteq> [] \<and> has_prefix (c # s) p"
  have "?P [c]" by (simp add: has_prefix_def)
  with assms(1) have "find ?P ps \<noteq> None" unfolding find_None_iff by blast
  then obtain q where q: "find ?P ps = Some q" by auto
  then have "q \<in> set ps" "q \<noteq> []" "has_prefix (c # s) q" by (auto simp: find_Some_iff)
  moreover have "hd q = c" using calculation(2,3) by (cases q) (auto simp: has_prefix_def)
  ultimately have "q = [c]" using assms(2) by blast
  with q show ?thesis by (subst strip.simps) simp
qed

text \<open>A string is trimmed when it neither begins nor ends with a space.\<close>

definition trimmed :: "string \<Rightarrow> bool" where
  "trimmed s \<longleftrightarrow> (\<forall>p \<in> set space_runes. \<not> has_prefix s p \<and> \<not> has_prefix (rev s) (rev p))"

lemma space_runes_not_Nil: "[] \<notin> set space_runes"
  by (simp add: space_runes_def)

lemma trimmed_TrimSpace_id: "trimmed s \<Longrightarrow> TrimSpace s = s"
  by (simp add: TrimSpace_def trimmed_def strip_fixed)

lemma trimmed_Nil [simp]: "trimmed []"
  using space_runes_not_Nil by (auto simp: trimmed_def has_prefix_def)

lemma TrimSpace_Nil [simp]: "TrimSpace [] = []"
  by (simp add: trimmed_TrimSpace_id)

lemma CR_rune: "p \<in> set space_runes \<Longrightarrow> CR \<in> set p \<Longrightarrow> p = [CR]"
  by (auto simp: space_runes_def)

lemma trimmed_snoc_CR:
  assumes "trimmed s"
  shows "TrimSpace (s @ [CR]) = s"
proof (cases "s = []")
  case True
  have "strip space_runes [CR] = strip space_runes []"
    by (rule strip_Cons_unique) (auto simp: space_runes_def)
  then show ?thesis using True strip_fixed [of space_runes "[]"]
    by (simp add: TrimSpace_def has_prefix_def strip_fixed)
next
  case False
  have "strip space_runes (s @ [CR]) = s @ [CR]"
  proof (rule strip_fixed, intro ballI impI notI)
    fix p assume p: "p \<in> set space_runes" "p \<noteq> []" "has_prefix (s @ [CR]) p"
    have "\<not> has_prefix s p" using assms p(1) by (simp add: trimmed_def)
    with p(3) have "length s < length p"
      by (cases "length p \<le> length s") (simp_all add: has_prefix_def)
    with p(3) have "p = s @ [CR]" by (simp add: has_prefix_def)
    with CR_rune [OF p(1)] False show False by auto
  qed
  moreover have "strip (map rev space_runes) (CR # rev s) = strip (map rev space_runes) (rev s)"
  proof (rule strip_Cons_unique)
    fix p assume "p \<in> set (map rev space_runes)" "p \<noteq> []" "hd p = CR"
    then obtain q where q: "q \<in> set space_runes" "p = rev q" by auto
    with \<open>p \<noteq> []\<close> \<open>hd p = CR\<close> have "CR \<in> set q" by (metis hd_in_set set_rev)
    with q CR_rune show "p = [CR]" by force
  qed (simp add: space_runes_def)
  moreover have "strip (map rev space_runes) (rev s) = rev s"
    using assms by (intro strip_fixed) (auto simp: trimmed_def)
  ultimately show ?thesis by (simp add: TrimSpace_def)
qed

subsection \<open>The lines\<close>

text \<open>\<open>strings.SplitN(line, ":", 2)\<close> with \<open>len(kv) == 2\<close>, and both parts trimmed.\<close>

definition info_field :: "string \<Rightarrow> (string \<times> string) option" where
  "info_field line =
     (case index_byte (CHR '':'') line of
        None \<Rightarrow> None
      | Some i \<Rightarrow>
          (let key = TrimSpace (take i line) in
           if key = [] then None else Some (key, TrimSpace (drop (Suc i) line))))"

primrec info_lines :: "string list \<Rightarrow> (string \<rightharpoonup> string) \<Rightarrow> (string \<rightharpoonup> string)" where
  "info_lines [] info = info"
| "info_lines (line # ls) info =
     (case info_field line of
        None \<Rightarrow> info_lines ls info
      | Some (key, v) \<Rightarrow> info_lines ls (info(key \<mapsto> v)))"

definition parse_info :: "string \<Rightarrow> (string \<rightharpoonup> string)" where
  "parse_info text = info_lines (split_on LF text) Map.empty"

text \<open>
  The variant for \<open>INFO keyspace\<close>: only keys that begin with \<open>db\<close> count, and what follows must
  be a number.
\<close>

primrec keyspace_lines :: "string list \<Rightarrow> (int \<rightharpoonup> string) \<Rightarrow> goerror + (int \<rightharpoonup> string)" where
  "keyspace_lines [] info = Inr info"
| "keyspace_lines (line # ls) info =
     (case info_field line of
        None \<Rightarrow> keyspace_lines ls info
      | Some (key, v) \<Rightarrow>
          if has_prefix key ''db'' then
            (case ParseInt (drop 2 key) of
               Inl e \<Rightarrow> Inl (Trace (NumError (drop 2 key) e))
             | Inr n \<Rightarrow> keyspace_lines ls (info(n \<mapsto> v)))
          else keyspace_lines ls info)"

definition parse_keyspace :: "string \<Rightarrow> goerror + (int \<rightharpoonup> string)" where
  "parse_keyspace text = keyspace_lines (split_on LF text) Map.empty"

subsection \<open>What a server prints\<close>

text \<open>The reply of a server: headings, empty lines and fields, each ended by CR LF.\<close>

datatype info_item = Heading string | Field string string

fun item_text :: "info_item \<Rightarrow> string" where
  "item_text (Heading h) = h"
| "item_text (Field k v) = k @ '':'' @ v"

definition info_text :: "info_item list \<Rightarrow> string" where
  "info_text is = concat (map (\<lambda>i. item_text i @ CRLF) is)"

fun item_ok :: "info_item \<Rightarrow> bool" where
  "item_ok (Heading h) \<longleftrightarrow> CHR '':'' \<notin> set h \<and> LF \<notin> set h"
| "item_ok (Field k v) \<longleftrightarrow>
     k \<noteq> [] \<and> trimmed k \<and> trimmed v \<and> CHR '':'' \<notin> set k \<and> LF \<notin> set k \<and> LF \<notin> set v"

fun item_field :: "info_item \<Rightarrow> (string \<times> string) list" where
  "item_field (Heading h) = []"
| "item_field (Field k v) = [(k, v)]"

definition info_fields :: "info_item list \<Rightarrow> (string \<times> string) list" where
  "info_fields is = concat (map item_field is)"

lemma info_field_item [go_eval]:
  assumes "item_ok i"
  shows "info_field (item_text i @ [CR]) =
           (case i of Heading _ \<Rightarrow> None | Field k v \<Rightarrow> Some (k, v))"
proof (cases i)
  case (Heading h)
  then show ?thesis using assms by (simp add: info_field_def index_byte_append)
next
  case (Field k v)
  then show ?thesis using assms
    by (simp add: info_field_def index_byte_append trimmed_TrimSpace_id trimmed_snoc_CR)
qed

lemma info_lines_append: "info_lines (xs @ ys) m = info_lines ys (info_lines xs m)"
  by (induction xs arbitrary: m) (auto split: option.splits)

lemma split_info_text:
  "(\<forall>i \<in> set is. LF \<notin> set (item_text i)) \<Longrightarrow>
     split_on LF (info_text is) = map (\<lambda>i. item_text i @ [CR]) is @ [[]]"
proof (induction "is")
  case Nil
  then show ?case by (simp add: info_text_def)
next
  case (Cons i "is")
  have eq: "info_text (i # is) = (item_text i @ [CR]) @ LF # info_text is"
    by (simp add: info_text_def)
  have "LF \<notin> set (item_text i @ [CR])" using Cons.prems by simp
  then have "split_on LF (info_text (i # is)) = (item_text i @ [CR]) # split_on LF (info_text is)"
    unfolding eq by (rule split_on_at)
  then show ?case using Cons by simp
qed

lemma item_ok_no_LF: "item_ok i \<Longrightarrow> LF \<notin> set (item_text i)"
  by (cases i) auto

lemma info_field_Nil [simp]: "info_field [] = None"
  by (simp add: info_field_def)

lemma map_add_last: "m ++ map_of (xs @ [(k, v)]) = m(k \<mapsto> v) ++ map_of xs"
  by (simp add: fun_eq_iff map_add_def split: option.split)

lemma info_lines_items:
  "(\<forall>i \<in> set is. item_ok i) \<Longrightarrow>
     info_lines (map (\<lambda>i. item_text i @ [CR]) is) m = m ++ map_of (rev (info_fields is))"
proof (induction "is" arbitrary: m)
  case Nil
  then show ?case by (simp add: info_fields_def)
next
  case (Cons i "is")
  have "item_ok i" using Cons.prems by simp
  from info_field_item [OF this] Cons show ?case
    by (cases i) (simp_all add: info_fields_def map_add_last del: map_of_append)
qed

text \<open>
  Whatever fields a server reports, under headings and with values that contain colons, the
  parsed map gives for each key the value the server printed last, and nothing else.
\<close>

theorem info_roundtrip:
  assumes "\<forall>i \<in> set is. item_ok i"
  shows "parse_info (info_text is) = map_of (rev (info_fields is))"
  using assms
  by (simp add: parse_info_def split_info_text item_ok_no_LF info_lines_append info_lines_items)

theorem info_roundtrip_witness:
  "parse_info (info_text [Heading ''# Replication'', Field ''role'' ''slave'', Heading [],
       Field ''master_link_status'' ''up'', Field ''addr'' ''h:1'', Field ''role'' ''master'']) =
     map_of [(''role'', ''master''), (''addr'', ''h:1''), (''master_link_status'', ''up''), (''role'', ''slave'')]"
proof -
  have "\<forall>i \<in> set [Heading ''# Replication'', Field ''role'' ''slave'', Heading [],
       Field ''master_link_status'' ''up'', Field ''addr'' ''h:1'', Field ''role'' ''master'']. item_ok i"
    by code_simp
  from info_roundtrip [OF this] show ?thesis by (simp add: info_fields_def)
qed

end
