(* ===== verification/Client.thy ===== *)
theory Client
  imports Info Sentinel
begin

section \<open>Clients of a redis server\<close>

text \<open>
  Models the type \<open>Client\<close> of \<open>pkg/utils/redis/client.go\<close> and its commands. The package
  \<open>redigo\<close> is a parameter: a record of its functions over a world \<open>'w\<close>, in which a
  connection is a number and a reply a value \<open>'v\<close>. \<open>net.SplitHostPort\<close> is modelled.
\<close>

subsection \<open>net.SplitHostPort\<close>

definition last_index :: "byte \<Rightarrow> string \<Rightarrow> nat option" where
  "last_index c s = map_option (\<lambda>i. length s - 1 - i) (index_byte c (rev s))"

definition addr_error :: "string \<Rightarrow> string \<Rightarrow> goerror" where
  "addr_error addr why = ErrNew (''address '' @ addr @ '': '' @ why)"

definition has_byte :: "byte \<Rightarrow> string \<Rightarrow> bool" where
  "has_byte c s \<longleftrightarrow> index_byte c s \<noteq> None"

text \<open>The host with the offsets \<open>j\<close> and \<open>k\<close> after which no bracket may follow, or the complaint.\<close>

definition split_host :: "string \<Rightarrow> nat \<Rightarrow> string + (string \<times> nat \<times> nat)" where
  "split_host s i =
     (if s ! 0 = CHR ''['' then
        (case index_byte (CHR '']'') s of
           None \<Rightarrow> Inl ''missing ']' in address''
         | Some e \<Rightarrow>
             if e + 1 = length s then Inl ''missing port in address''
             else if e + 1 = i then Inr (take (e - 1) (drop 1 s), 1, e + 1)
             else if s ! (e + 1) = CHR '':'' then Inl ''too many colons in address''
             else Inl ''missing port in address'')
      else if has_byte (CHR '':'') (take i s) then Inl ''too many colons in address''
      else if has_byte (CHR ''%'') (take i s) then Inl ''missing brackets in address''
      else Inr (take i s, 0, 0))"

definition SplitHostPort :: "string \<Rightarrow> goerror + (string \<times> string)" where
  "SplitHostPort s =
     (case last_index (CHR '':'') s of
        None \<Rightarrow> Inl (addr_error s ''missing port in address'')
      | Some i \<Rightarrow>
          (case split_host s i of
             Inl why \<Rightarrow> Inl (addr_error s why)
           | Inr (host, j, k) \<Rightarrow>
               if has_byte (CHR ''['') (drop j s) then Inl (addr_error s ''unexpected '[' in address'')
               else if has_byte (CHR '']'') (drop k s) then Inl (addr_error s ''unexpected ']' in address'')
               else Inr (host, drop (i + 1) s)))"

lemma has_byte_iff [simp]: "has_byte c s \<longleftrightarrow> c \<in> set s"
  by (simp add: has_byte_def index_byte_None)

lemma last_index_at: "c \<notin> set t \<Longrightarrow> last_index c (s @ c # t) = Some (length s)"
  by (simp add: last_index_def index_byte_append)

text \<open>An address that was joined is taken apart again.\<close>

definition host_ok :: "string \<Rightarrow> bool" where
  "host_ok h \<longleftrightarrow> CHR ''['' \<notin> set h \<and> CHR '']'' \<notin> set h"

definition port_ok :: "string \<Rightarrow> bool" where
  "port_ok p \<longleftrightarrow> CHR '':'' \<notin> set p \<and> CHR ''['' \<notin> set p \<and> CHR '']'' \<notin> set p"

lemma SplitHostPort_plain:
  assumes "host_ok h" "port_ok p" "CHR '':'' \<notin> set h" "CHR ''%'' \<notin> set h"
  shows "SplitHostPort (h @ '':'' @ p) = Inr (h, p)"
proof -
  have "(h @ '':'' @ p) ! 0 \<noteq> CHR ''[''" using assms(1) by (cases h) (auto simp: host_ok_def)
  then show ?thesis using assms last_index_at [of "CHR '':''" p h]
    by (simp add: SplitHostPort_def split_host_def host_ok_def port_ok_def)
qed

lemma SplitHostPort_brackets:
  assumes "host_ok h" "port_ok p"
  shows "SplitHostPort (''['' @ h @ '']:'' @ p) = Inr (h, p)"
proof -
  let ?s = "''['' @ h @ '']:'' @ p"
  have i: "last_index (CHR '':'') ?s = Some (length h + 2)"
    using last_index_at [of "CHR '':''" p "''['' @ h @ '']''"] assms(2) by (simp add: port_ok_def)
  have e: "index_byte (CHR '']'') ?s = Some (length h + 1)"
    using index_byte_at [of "CHR '']''" "''['' @ h" "'':'' @ p"] assms(1) by (simp add: host_ok_def)
  have "split_host ?s (length h + 2) = Inr (h, 1, length h + 2)"
    using e by (simp add: split_host_def)
  then show ?thesis using i assms by (simp add: SplitHostPort_def host_ok_def port_ok_def)
qed

text \<open>
  Addresses survive: for every host without brackets, an IPv6 address with its colons included,
  and every port without colons and brackets, taking apart what was joined gives them back.
\<close>

theorem host_port_roundtrip:
  assumes "host_ok h" "port_ok p"
  shows "SplitHostPort (JoinHostPort h p) = Inr (h, p)"
  using SplitHostPort_plain [OF assms] SplitHostPort_brackets [OF assms] by (simp add: JoinHostPort_def)

theorem host_port_roundtrip_witness:
  "SplitHostPort (JoinHostPort ''fe80::1'' ''6379'') = Inr (''fe80::1'', ''6379'')"
  by (rule host_port_roundtrip) (simp_all add: host_ok_def port_ok_def)

subsection \<open>The client\<close>

text \<open>The arguments of a command, and what the code uses of \<open>redigo\<close>.\<close>

datatype arg = SArg string | IArg int

record ('v, 'w) redigo =
  rdial :: "string \<Rightarrow> string \<Rightarrow> int \<Rightarrow> int \<Rightarrow> 'w \<Rightarrow> (goerror + nat) \<times> 'w"
  rdo :: "nat \<Rightarrow> string \<Rightarrow> arg list \<Rightarrow> 'w \<Rightarrow> (goerror + 'v) \<times> 'w"
  rsend :: "nat \<Rightarrow> string \<Rightarrow> arg list \<Rightarrow> 'w \<Rightarrow> goerror option \<times> 'w"
  rflush :: "nat \<Rightarrow> 'w \<Rightarrow> goerror option \<times> 'w"
  rreceive :: "nat \<Rightarrow> 'w \<Rightarrow> (goerror + 'v) \<times> 'w"
  rclose :: "nat \<Rightarrow> 'w \<Rightarrow> 'w"
  rconnerr :: "nat \<Rightarrow> 'w \<Rightarrow> goerror option"
  rnow :: "'w \<Rightarrow> int"
  asError :: "'v \<Rightarrow> goerror option"
  toString :: "'v \<Rightarrow> goerror + string"
  toValues :: "'v \<Rightarrow> goerror + 'v list"
  toInt :: "'v \<Rightarrow> goerror + int"
  toInts :: "'v \<Rightarrow> goerror + int list"
  intsOf :: "'v list \<Rightarrow> goerror + int list"
  fmtValue :: "'v \<Rightarrow> string"

record client =
  cconn :: nat
  cAddr :: string
  cAuth :: string
  cDatabase :: int
  LastUse :: int
  cTimeout :: int
  pSend :: "64 word"
  pRecv :: "64 word"

definition NewClient :: "('v, 'w) redigo \<Rightarrow> string \<Rightarrow> string \<Rightarrow> int \<Rightarrow> 'w \<Rightarrow> (goerror + client) \<times> 'w" where
  "NewClient L addr auth timeout w =
     (case rdial L addr auth (MinDuration 1000000000 timeout) timeout w of
        (Inl e, w1) \<Rightarrow> (Inl (Trace e), w1)
      | (Inr n, w1) \<Rightarrow>
          (Inr \<lparr>cconn = n, cAddr = addr, cAuth = auth, cDatabase = 0, LastUse = rnow L w1, cTimeout = timeout,
                pSend = 0, pRecv = 0\<rparr>, w1))"

definition NewClientNoAuth :: "('v, 'w) redigo \<Rightarrow> string \<Rightarrow> int \<Rightarrow> 'w \<Rightarrow> (goerror + client) \<times> 'w" where
  "NewClientNoAuth L addr timeout w = NewClient L addr [] timeout w"

definition CloseClient :: "('v, 'w) redigo \<Rightarrow> client \<Rightarrow> 'w \<Rightarrow> 'w" where
  "CloseClient L c w = rclose L (cconn c) w"

definition isRecyclable :: "('v, 'w) redigo \<Rightarrow> 'w \<Rightarrow> client \<Rightarrow> bool" where
  "isRecyclable L w c \<longleftrightarrow>
     (if rconnerr L (cconn c) w \<noteq> None then False
      else if pSend c \<noteq> pRecv c then False
      else \<not> (cTimeout c \<noteq> 0 \<and> cTimeout c \<le> rnow L w - LastUse c))"

subsection \<open>Commands\<close>

text \<open>A command changes the client and the world and gives an error or a result.\<close>

type_synonym ('a, 'w) cmd = "client \<Rightarrow> 'w \<Rightarrow> (goerror + 'a) \<times> client \<times> 'w"

definition give :: "goerror + 'a \<Rightarrow> ('a, 'w) cmd" where
  "give r c w = (r, c, w)"

text \<open>One command after another; an error of the first is traced and ends the whole.\<close>

definition and_then :: "('a, 'w) cmd \<Rightarrow> ('a \<Rightarrow> ('b, 'w) cmd) \<Rightarrow> ('b, 'w) cmd" where
  "and_then m f c w =
     (case m c w of
        (Inl e, c1, w1) \<Rightarrow> (Inl (Trace e), c1, w1)
      | (Inr a, c1, w1) \<Rightarrow> f a c1 w1)"

text \<open>The tail of \<open>Do\<close> and \<open>Receive\<close>: the time of use, and an error that is the server's reply.\<close>

definition answer_reply :: "('v, 'w) redigo \<Rightarrow> 'v \<Rightarrow> ('v, 'w) cmd" where
  "answer_reply L r c w =
     (case asError L r of
        Some e \<Rightarrow> (Inl (Trace e), c\<lparr>LastUse := rnow L w\<rparr>, w)
      | None \<Rightarrow> (Inr r, c\<lparr>LastUse := rnow L w\<rparr>, w))"

definition ClientDo :: "('v, 'w) redigo \<Rightarrow> string \<Rightarrow> arg list \<Rightarrow> ('v, 'w) cmd" where
  "ClientDo L cmd args c w =
     (case rdo L (cconn c) cmd args w of
        (Inl e, w1) \<Rightarrow> (Inl (Trace e), c, CloseClient L c w1)
      | (Inr r, w1) \<Rightarrow> answer_reply L r c w1)"

definition ClientSend :: "('v, 'w) redigo \<Rightarrow> string \<Rightarrow> arg list \<Rightarrow> (unit, 'w) cmd" where
  "ClientSend L cmd args c w =
     (case rsend L (cconn c) cmd args w of
        (Some e, w1) \<Rightarrow> (Inl (Trace e), c, CloseClient L c w1)
      | (None, w1) \<Rightarrow> (Inr (), c\<lparr>pSend := pSend c + 1\<rparr>, w1))"

definition ClientFlush :: "('v, 'w) redigo \<Rightarrow> (unit, 'w) cmd" where
  "ClientFlush L c w =
     (case rflush L (cconn c) w of
        (Some e, w1) \<Rightarrow> (Inl (Trace e), c, CloseClient L c w1)
      | (None, w1) \<Rightarrow> (Inr (), c, w1))"

definition ClientReceive :: "('v, 'w) redigo \<Rightarrow> ('v, 'w) cmd" where
  "ClientReceive L c w =
     (case rreceive L (cconn c) w of
        (Inl e, w1) \<Rightarrow> (Inl (Trace e), c, CloseClient L c w1)
      | (Inr r, w1) \<Rightarrow> answer_reply L r (c\<lparr>pRecv := pRecv c + 1\<rparr>) w1)"

text \<open>An error of these two closes the client, which \<open>Do\<close> may have done already.\<close>

definition ClientSelect :: "('v, 'w) redigo \<Rightarrow> int \<Rightarrow> (unit, 'w) cmd" where
  "ClientSelect L db c w =
     (if cDatabase c = db then (Inr (), c, w)
      else
        (case ClientDo L ''SELECT'' [IArg db] c w of
           (Inl e, c1, w1) \<Rightarrow> (Inl (Trace e), c1, CloseClient L c1 w1)
         | (Inr _, c1, w1) \<Rightarrow> (Inr (), c1\<lparr>cDatabase := db\<rparr>, w1)))"

definition ClientShutdown :: "('v, 'w) redigo \<Rightarrow> (unit, 'w) cmd" where
  "ClientShutdown L c w =
     (case ClientDo L ''SHUTDOWN'' [] c w of
        (Inl e, c1, w1) \<Rightarrow> (Inl (Trace e), c1, CloseClient L c1 w1)
      | (Inr _, c1, w1) \<Rightarrow> (Inr (), c1, w1))"

definition ClientInfo :: "('v, 'w) redigo \<Rightarrow> (string \<rightharpoonup> string, 'w) cmd" where
  "ClientInfo L =
     and_then (and_then (ClientDo L ''INFO'' []) (\<lambda>r. give (toString L r))) (\<lambda>text. give (Inr (parse_info text)))"

definition InfoKeySpace :: "('v, 'w) redigo \<Rightarrow> (int \<rightharpoonup> string, 'w) cmd" where
  "InfoKeySpace L =
     and_then (and_then (ClientDo L ''INFO'' [SArg ''keyspace'']) (\<lambda>r. give (toString L r))) (\<lambda>text. give (parse_keyspace text))"

definition invalid_response :: "('v, 'w) redigo \<Rightarrow> 'v \<Rightarrow> goerror" where
  "invalid_response L r = Errorf (''invalid response = '' @ fmtValue L r)"

definition with_master :: "(string \<rightharpoonup> string) \<Rightarrow> (string \<rightharpoonup> string)" where
  "with_master info =
     (let host = lookup info ''master_host''; port = lookup info ''master_port'' in
      if host \<noteq> [] \<or> port \<noteq> [] then info(''master_addr'' \<mapsto> JoinHostPort host port) else info)"

definition maxmemory_of :: "('v, 'w) redigo \<Rightarrow> 'v \<Rightarrow> goerror + int" where
  "maxmemory_of L r =
     (case toValues L r of
        Inl e \<Rightarrow> Inl (invalid_response L r)
      | Inr p \<Rightarrow>
          if length p \<noteq> 2 then Inl (invalid_response L r)
          else (case toInt L (p ! 1) of Inl e \<Rightarrow> Inl (invalid_response L r) | Inr v \<Rightarrow> Inr v))"

definition InfoFull :: "('v, 'w) redigo \<Rightarrow> (string \<rightharpoonup> string, 'w) cmd" where
  "InfoFull L =
     and_then (ClientInfo L) (\<lambda>info.
       and_then (ClientDo L ''CONFIG'' [SArg ''GET'', SArg ''maxmemory'']) (\<lambda>r.
         give (case maxmemory_of L r of
                 Inl e \<Rightarrow> Inl e
               | Inr v \<Rightarrow> Inr ((with_master info)(''maxmemory'' \<mapsto> Itoa v)))))"

text \<open>The errors of the five \<open>Send\<close> are dropped, that of \<open>EXEC\<close> is not.\<close>

primrec send_all :: "('v, 'w) redigo \<Rightarrow> (string \<times> arg list) list \<Rightarrow> client \<Rightarrow> 'w \<Rightarrow> client \<times> 'w" where
  "send_all L [] c w = (c, w)"
| "send_all L (m # ms) c w = (case ClientSend L (fst m) (snd m) c w of (_, c1, w1) \<Rightarrow> send_all L ms c1 w1)"

definition master_commands :: "string \<Rightarrow> string \<Rightarrow> string \<Rightarrow> (string \<times> arg list) list" where
  "master_commands auth host port =
     [(''MULTI'', []), (''CONFIG'', [SArg ''SET'', SArg ''masterauth'', SArg auth]),
      (''SLAVEOF'', [SArg host, SArg port]), (''CONFIG'', [SArg ''REWRITE'']),
      (''CLIENT'', [SArg ''KILL'', SArg ''TYPE'', SArg ''normal''])]"

fun first_error :: "('v, 'w) redigo \<Rightarrow> 'v list \<Rightarrow> goerror option" where
  "first_error L [] = None"
| "first_error L (v # vs) = (case asError L v of Some e \<Rightarrow> Some e | None \<Rightarrow> first_error L vs)"

definition SetMaster :: "('v, 'w) redigo \<Rightarrow> string \<Rightarrow> (unit, 'w) cmd" where
  "SetMaster L master c w =
     (case SplitHostPort master of
        Inl e \<Rightarrow> (Inl (Trace e), c, w)
      | Inr (host, port) \<Rightarrow>
          (case send_all L (master_commands (cAuth c) host port) c w of
             (c1, w1) \<Rightarrow>
               and_then (and_then (ClientDo L ''EXEC'' []) (\<lambda>r. give (toValues L r))) (\<lambda>values.
                 give (case first_error L values of Some e \<Rightarrow> Inl (Trace e) | None \<Rightarrow> Inr ())) c1 w1))"

text \<open>The two migration commands differ in name and arguments.\<close>

definition migrated :: "('v, 'w) redigo \<Rightarrow> 'v \<Rightarrow> goerror + int" where
  "migrated L reply =
     (case (case toValues L reply of Inl e \<Rightarrow> Inl e | Inr vs \<Rightarrow> intsOf L vs) of
        Inl e \<Rightarrow> Inl (invalid_response L reply)
      | Inr p \<Rightarrow> if length p \<noteq> 2 then Inl (invalid_response L reply) else Inr (p ! 1))"

definition MigrateSlot :: "('v, 'w) redigo \<Rightarrow> int \<Rightarrow> string \<Rightarrow> (int, 'w) cmd" where
  "MigrateSlot L slot target c w =
     (case SplitHostPort target of
        Inl e \<Rightarrow> (Inl (Trace e), c, w)
      | Inr (host, port) \<Rightarrow>
          and_then (ClientDo L ''SLOTSMGRTTAGSLOT''
              [SArg host, SArg port, IArg (go_div (cTimeout c) 1000000), IArg slot])
            (\<lambda>reply. give (migrated L reply)) c w)"

record MigrateSlotAsyncOption =
  MaxBulks :: int
  MaxBytes :: int
  NumKeys :: int
  AsyncTimeout :: int

definition MigrateSlotAsync :: "('v, 'w) redigo \<Rightarrow> int \<Rightarrow> string \<Rightarrow> MigrateSlotAsyncOption \<Rightarrow> (int, 'w) cmd" where
  "MigrateSlotAsync L slot target opt c w =
     (case SplitHostPort target of
        Inl e \<Rightarrow> (Inl (Trace e), c, w)
      | Inr (host, port) \<Rightarrow>
          and_then (ClientDo L ''SLOTSMGRTTAGSLOT-ASYNC''
              [SArg host, SArg port, IArg (go_div (AsyncTimeout opt) 1000000), IArg (MaxBulks opt),
               IArg (MaxBytes opt), IArg slot, IArg (NumKeys opt)])
            (\<lambda>reply. give (migrated L reply)) c w)"

text \<open>\<open>SLOTSINFO\<close>: pairs of a slot and its size.\<close>

fun slots_loop :: "('v, 'w) redigo \<Rightarrow> nat \<Rightarrow> 'v list \<Rightarrow> (int \<rightharpoonup> int) \<Rightarrow> goerror + (int \<rightharpoonup> int)" where
  "slots_loop L i [] slots = Inr slots"
| "slots_loop L i (info # infos) slots =
     (case toInts L info of
        Inr [k, m] \<Rightarrow> slots_loop L (Suc i) infos (slots(k \<mapsto> m))
      | _ \<Rightarrow> Inl (Errorf (''invalid response['' @ Itoa (int i) @ ''] = '' @ fmtValue L info)))"

definition SlotsInfo :: "('v, 'w) redigo \<Rightarrow> (int \<rightharpoonup> int, 'w) cmd" where
  "SlotsInfo L =
     and_then (and_then (ClientDo L ''SLOTSINFO'' []) (\<lambda>r. give (toValues L r)))
       (\<lambda>infos. give (slots_loop L 0 infos Map.empty))"

text \<open>\<open>ROLE\<close>: the first value, in upper case; \<open>upper\<close> is \<open>strings.ToUpper\<close>.\<close>

definition Role :: "(string \<Rightarrow> string) \<Rightarrow> ('v, 'w) redigo \<Rightarrow> (string, 'w) cmd" where
  "Role upper L =
     and_then (ClientDo L ''ROLE'' []) (\<lambda>reply.
       give (case toValues L reply of
               Inl e \<Rightarrow> Inl (Trace e)
             | Inr [] \<Rightarrow> Inl (invalid_response L reply)
             | Inr (v # vs) \<Rightarrow>
                 (case toString L v of
                    Inl e \<Rightarrow> Inl (Errorf (''invalid response[0] = '' @ fmtValue L v))
                  | Inr role \<Rightarrow> Inr (upper role))))"

end
