(* ===== verification/ClientPool.thy ===== *)
theory ClientPool
  imports Client "HOL-Library.Sublist" "HOL-Library.Multiset"
begin

section \<open>The pool of clients\<close>

text \<open>
  Models \<open>Pool\<close> and \<open>InfoCache\<close> of \<open>pkg/utils/redis/client.go\<close>. Each operation holds the lock of the
  pool throughout, so it is one step. A client is a value that the pool keeps, or that who got it
  holds until giving it back. The order in which Go ranges over the map is the argument \<open>ord\<close>.
\<close>

record cpool =
  poolAuth :: string
  cached :: "string \<rightharpoonup> client list"
  poolTimeout :: int
  poolClosed :: bool

text \<open>\<open>NewPool\<close> also starts a ticker that calls \<open>Cleanup\<close> every minute, if the timeout is not 0.\<close>

definition NewPool :: "string \<Rightarrow> int \<Rightarrow> cpool" where
  "NewPool auth timeout = \<lparr>poolAuth = auth, cached = Map.empty, poolTimeout = timeout, poolClosed = False\<rparr>"

primrec close_all :: "('v, 'w) redigo \<Rightarrow> client list \<Rightarrow> 'w \<Rightarrow> 'w" where
  "close_all L [] w = w"
| "close_all L (c # cs) w = close_all L cs (CloseClient L c w)"

primrec close_lists :: "('v, 'w) redigo \<Rightarrow> string list \<Rightarrow> cpool \<Rightarrow> 'w \<Rightarrow> cpool \<times> 'w" where
  "close_lists L [] p w = (p, w)"
| "close_lists L (addr # as) p w =
     (case cached p addr of
        None \<Rightarrow> close_lists L as p w
      | Some cs \<Rightarrow> close_lists L as (p\<lparr>cached := (cached p)(addr := None)\<rparr>) (close_all L cs w))"

definition ClosePool :: "('v, 'w) redigo \<Rightarrow> string list \<Rightarrow> cpool \<Rightarrow> 'w \<Rightarrow> cpool \<times> 'w" where
  "ClosePool L ord p w =
     (if poolClosed p then (p, w) else close_lists L ord (p\<lparr>poolClosed := True\<rparr>) w)"

text \<open>Each of the first \<open>n\<close> clients is taken from the front; those still good go to the back.\<close>

primrec cleanup_list :: "('v, 'w) redigo \<Rightarrow> nat \<Rightarrow> client list \<Rightarrow> 'w \<Rightarrow> client list \<times> 'w" where
  "cleanup_list L 0 cs w = (cs, w)"
| "cleanup_list L (Suc i) cs w =
     (case cs of
        [] \<Rightarrow> ([], w)
      | c # rest \<Rightarrow>
          if \<not> isRecyclable L w c then cleanup_list L i rest (CloseClient L c w)
          else cleanup_list L i (rest @ [c]) w)"

primrec cleanup_lists :: "('v, 'w) redigo \<Rightarrow> string list \<Rightarrow> cpool \<Rightarrow> 'w \<Rightarrow> cpool \<times> 'w" where
  "cleanup_lists L [] p w = (p, w)"
| "cleanup_lists L (addr # as) p w =
     (case cached p addr of
        None \<Rightarrow> cleanup_lists L as p w
      | Some cs \<Rightarrow>
          (case cleanup_list L (length cs) cs w of
             (ks, w1) \<Rightarrow>
               cleanup_lists L as (p\<lparr>cached := (cached p)(addr := (if ks = [] then None else Some ks))\<rparr>) w1))"

definition Cleanup :: "('v, 'w) redigo \<Rightarrow> string list \<Rightarrow> cpool \<Rightarrow> 'w \<Rightarrow> goerror option \<times> cpool \<times> 'w" where
  "Cleanup L ord p w =
     (if poolClosed p then (Some (ErrVar ErrClosedPool), p, w)
      else (None, cleanup_lists L ord p w))"

text \<open>The first good client from the front; those before it are closed.\<close>

primrec take_good :: "('v, 'w) redigo \<Rightarrow> client list \<Rightarrow> 'w \<Rightarrow> client option \<times> client list \<times> 'w" where
  "take_good L [] w = (None, [], w)"
| "take_good L (c # cs) w =
     (if \<not> isRecyclable L w c then take_good L cs (CloseClient L c w) else (Some c, cs, w))"

definition getClientFromCache :: "('v, 'w) redigo \<Rightarrow> string \<Rightarrow> cpool \<Rightarrow> 'w \<Rightarrow> (goerror + client option) \<times> cpool \<times> 'w" where
  "getClientFromCache L addr p w =
     (if poolClosed p then (Inl (ErrVar ErrClosedPool), p, w)
      else
        (case cached p addr of
           None \<Rightarrow> (Inr None, p, w)
         | Some cs \<Rightarrow>
             (case take_good L cs w of
                (r, rest, w1) \<Rightarrow> (Inr r, p\<lparr>cached := (cached p)(addr \<mapsto> rest)\<rparr>, w1))))"

definition GetClient :: "('v, 'w) redigo \<Rightarrow> string \<Rightarrow> cpool \<Rightarrow> 'w \<Rightarrow> (goerror + client) \<times> cpool \<times> 'w" where
  "GetClient L addr p w =
     (case getClientFromCache L addr p w of
        (Inl e, p1, w1) \<Rightarrow> (Inl e, p1, w1)
      | (Inr (Some c), p1, w1) \<Rightarrow> (Inr c, p1, w1)
      | (Inr None, p1, w1) \<Rightarrow>
          (case NewClient L addr (poolAuth p) (poolTimeout p) w1 of (r, w2) \<Rightarrow> (r, p1, w2)))"

definition PutClient :: "('v, 'w) redigo \<Rightarrow> client \<Rightarrow> cpool \<Rightarrow> 'w \<Rightarrow> cpool \<times> 'w" where
  "PutClient L c p w =
     (if \<not> isRecyclable L w c \<or> poolClosed p then (p, CloseClient L c w)
      else
        (let cs = (case cached p (cAddr c) of None \<Rightarrow> [] | Some cs \<Rightarrow> cs) in
         (p\<lparr>cached := (cached p)(cAddr c \<mapsto> c # cs)\<rparr>, w)))"

text \<open>\<open>Info\<close> and \<open>InfoFull\<close> of the pool: a client, its command, and back with it.\<close>

definition with_client :: "('v, 'w) redigo \<Rightarrow> ('a, 'w) cmd \<Rightarrow> string \<Rightarrow> cpool \<Rightarrow> 'w \<Rightarrow> (goerror + 'a) \<times> cpool \<times> 'w" where
  "with_client L m addr p w =
     (case GetClient L addr p w of
        (Inl e, p1, w1) \<Rightarrow> (Inl e, p1, w1)
      | (Inr c, p1, w1) \<Rightarrow> (case m c w1 of (r, c1, w2) \<Rightarrow> (r, PutClient L c1 p1 w2)))"

definition PoolInfo :: "('v, 'w) redigo \<Rightarrow> string \<Rightarrow> cpool \<Rightarrow> 'w \<Rightarrow> (goerror + (string \<rightharpoonup> string)) \<times> cpool \<times> 'w" where
  "PoolInfo L = with_client L (ClientInfo L)"

definition PoolInfoFull :: "('v, 'w) redigo \<Rightarrow> string \<Rightarrow> cpool \<Rightarrow> 'w \<Rightarrow> (goerror + (string \<rightharpoonup> string)) \<times> cpool \<times> 'w" where
  "PoolInfoFull L = with_client L (InfoFull L)"

subsection \<open>The cache of INFO\<close>

record infoCache =
  icAuth :: string
  icData :: "(string \<rightharpoonup> (string \<rightharpoonup> string)) option"
  icTimeout :: int

definition load :: "string \<Rightarrow> infoCache \<Rightarrow> (string \<rightharpoonup> string) option" where
  "load addr s = (case icData s of None \<Rightarrow> None | Some d \<Rightarrow> d addr)"

definition store :: "string \<Rightarrow> (string \<rightharpoonup> string) option \<Rightarrow> infoCache \<Rightarrow> (string \<rightharpoonup> string) option \<times> infoCache" where
  "store addr info s =
     (let d = (case icData s of None \<Rightarrow> Map.empty | Some d \<Rightarrow> d);
          d1 = (case info of
                  Some i \<Rightarrow> d(addr \<mapsto> i)
                | None \<Rightarrow> if d addr = None then d(addr \<mapsto> Map.empty) else d)
      in (d1 addr, s\<lparr>icData := Some d1\<rparr>))"

definition getSlow :: "('v, 'w) redigo \<Rightarrow> string \<Rightarrow> infoCache \<Rightarrow> 'w \<Rightarrow> (goerror + (string \<rightharpoonup> string)) \<times> 'w" where
  "getSlow L addr s w =
     (case NewClient L addr (icAuth s) (icTimeout s) w of
        (Inl e, w1) \<Rightarrow> (Inl e, w1)
      | (Inr c, w1) \<Rightarrow> (case ClientInfo L c w1 of (r, c1, w2) \<Rightarrow> (r, CloseClient L c1 w2)))"

definition GetInfo :: "('v, 'w) redigo \<Rightarrow> string \<Rightarrow> infoCache \<Rightarrow> 'w \<Rightarrow> (string \<rightharpoonup> string) option \<times> infoCache \<times> 'w" where
  "GetInfo L addr s w =
     (case load addr s of
        Some info \<Rightarrow> (Some info, s, w)
      | None \<Rightarrow>
          (case getSlow L addr s w of
             (r, w1) \<Rightarrow>
               (case store addr (case r of Inl _ \<Rightarrow> None | Inr i \<Rightarrow> Some i) s of (info, s1) \<Rightarrow> (info, s1, w1))))"

definition GetRunId :: "('v, 'w) redigo \<Rightarrow> string \<Rightarrow> infoCache \<Rightarrow> 'w \<Rightarrow> string \<times> infoCache \<times> 'w" where
  "GetRunId L addr s w =
     (case GetInfo L addr s w of
        (None, s1, w1) \<Rightarrow> ([], s1, w1)
      | (Some info, s1, w1) \<Rightarrow> (lookup info ''run_id'', s1, w1))"

text \<open>What was found once is what every later call gives, without asking; a failure is kept too.\<close>

lemma GetInfo_cached:
  assumes "GetInfo L addr s w = (info, s1, w1)"
  shows "info \<noteq> None" "GetInfo L addr s1 w2 = (info, s1, w2)"
proof -
  have "load addr s1 = info \<and> info \<noteq> None"
    using assms by (auto simp: GetInfo_def load_def store_def Let_def split: option.splits prod.splits sum.splits if_splits)
  then show "info \<noteq> None" "GetInfo L addr s1 w2 = (info, s1, w2)" by (auto simp: GetInfo_def)
qed

lemma failure_cached:
  assumes "load addr s = None" "getSlow L addr s w = (Inl e, w1)"
  shows "fst (GetInfo L addr s w) = Some Map.empty"
  using assms by (auto simp: GetInfo_def load_def store_def Let_def split: option.splits)

subsection \<open>Who has which connection\<close>

text \<open>
  What is relied on of \<open>redigo\<close>: \<open>live\<close> are the connections that have not been closed, \<open>seen\<close> those
  ever dialled. A dial gives a new connection, \<open>Close\<close> ends one, nothing else does either.
\<close>

definition redigo_laws :: "('v, 'w) redigo \<Rightarrow> ('w \<Rightarrow> nat set) \<Rightarrow> ('w \<Rightarrow> nat set) \<Rightarrow> bool" where
  "redigo_laws L live seen \<longleftrightarrow>
     (\<forall>a q t u w n w'. rdial L a q t u w = (Inr n, w') \<longrightarrow>
        n \<notin> seen w \<and> seen w' = insert n (seen w) \<and> live w' = insert n (live w)) \<and>
     (\<forall>a q t u w e w'. rdial L a q t u w = (Inl e, w') \<longrightarrow> seen w' = seen w \<and> live w' = live w) \<and>
     (\<forall>n w. seen (rclose L n w) = seen w \<and> live (rclose L n w) = live w - {n}) \<and>
     (\<forall>n cmd args w. seen (snd (rdo L n cmd args w)) = seen w \<and> live (snd (rdo L n cmd args w)) = live w) \<and>
     (\<forall>n cmd args w. seen (snd (rsend L n cmd args w)) = seen w \<and> live (snd (rsend L n cmd args w)) = live w) \<and>
     (\<forall>n w. seen (snd (rflush L n w)) = seen w \<and> live (snd (rflush L n w)) = live w) \<and>
     (\<forall>n w. seen (snd (rreceive L n w)) = seen w \<and> live (snd (rreceive L n w)) = live w)"

lemma law_dial: "redigo_laws L live seen \<Longrightarrow> rdial L a q t u w = (Inr n, w') \<Longrightarrow>
    n \<notin> seen w \<and> seen w' = insert n (seen w) \<and> live w' = insert n (live w)"
  and law_dial_err: "redigo_laws L live seen \<Longrightarrow> rdial L a q t u w = (Inl e, w') \<Longrightarrow> seen w' = seen w \<and> live w' = live w"
  and law_close: "redigo_laws L live seen \<Longrightarrow> seen (CloseClient L c w) = seen w \<and> live (CloseClient L c w) = live w - {cconn c}"
  and law_do: "redigo_laws L live seen \<Longrightarrow> rdo L n cmd args w = (r, w') \<Longrightarrow> seen w' = seen w \<and> live w' = live w"
  and law_send: "redigo_laws L live seen \<Longrightarrow> rsend L n cmd args w = (e1, w') \<Longrightarrow> seen w' = seen w \<and> live w' = live w"
  and law_flush: "redigo_laws L live seen \<Longrightarrow> rflush L n w = (e1, w') \<Longrightarrow> seen w' = seen w \<and> live w' = live w"
  and law_receive: "redigo_laws L live seen \<Longrightarrow> rreceive L n w = (r, w') \<Longrightarrow> seen w' = seen w \<and> live w' = live w"
  unfolding redigo_laws_def CloseClient_def by (metis snd_conv)+

text \<open>A command keeps the client's connection and address, dials nothing and closes at most that one.\<close>

definition keeps :: "('w \<Rightarrow> nat set) \<Rightarrow> ('w \<Rightarrow> nat set) \<Rightarrow> client \<Rightarrow> 'w \<Rightarrow> client \<Rightarrow> 'w \<Rightarrow> bool" where
  "keeps live seen c w c1 w1 \<longleftrightarrow>
     cconn c1 = cconn c \<and> cAddr c1 = cAddr c \<and> seen w1 = seen w \<and> live w1 \<subseteq> live w \<and> live w - live w1 \<subseteq> {cconn c}"

lemma keeps_trans: "keeps live seen c w c1 w1 \<Longrightarrow> keeps live seen c1 w1 c2 w2 \<Longrightarrow> keeps live seen c w c2 w2"
  by (auto simp: keeps_def)

definition own_conn :: "('w \<Rightarrow> nat set) \<Rightarrow> ('w \<Rightarrow> nat set) \<Rightarrow> ('a, 'w) cmd \<Rightarrow> bool" where
  "own_conn live seen m \<longleftrightarrow> (\<forall>c w r c1 w1. m c w = (r, c1, w1) \<longrightarrow> keeps live seen c w c1 w1)"

named_theorems own_conn_rules

lemma own_connD: "own_conn live seen m \<Longrightarrow> m c w = (r, c1, w1) \<Longrightarrow> keeps live seen c w c1 w1"
  unfolding own_conn_def by blast

lemma own_give [own_conn_rules]: "own_conn live seen (give r)"
  by (simp add: own_conn_def give_def keeps_def)

lemma own_and_then [own_conn_rules]:
  assumes "own_conn live seen m" "\<And>a. own_conn live seen (f a)"
  shows "own_conn live seen (and_then m f)"
  unfolding own_conn_def
proof (intro allI impI)
  fix c w r c2 w2 assume a: "and_then m f c w = (r, c2, w2)"
  obtain q c1 w1 where m: "m c w = (q, c1, w1)" by (metis surj_pair)
  note 1 = own_connD [OF assms(1) m]
  show "keeps live seen c w c2 w2"
  proof (cases q)
    case (Inl e)
    then show ?thesis using a m 1 by (simp add: and_then_def)
  next
    case (Inr x)
    then have "f x c1 w1 = (r, c2, w2)" using a m by (simp add: and_then_def)
    from own_connD [OF assms(2) this] 1 show ?thesis by (blast intro: keeps_trans)
  qed
qed

lemma own_answer: "answer_reply L r c w = (q, c1, w1) \<Longrightarrow> cconn c1 = cconn c \<and> cAddr c1 = cAddr c \<and> w1 = w"
  by (auto simp: answer_reply_def split: option.splits)

lemma own_Do [own_conn_rules]:
  assumes "redigo_laws L live seen"
  shows "own_conn live seen (ClientDo L cmd args)"
  unfolding own_conn_def keeps_def
  by (auto simp: ClientDo_def law_close [OF assms] dest!: law_do [OF assms] own_answer split: prod.splits sum.splits)

lemma own_Send [own_conn_rules]:
  assumes "redigo_laws L live seen"
  shows "own_conn live seen (ClientSend L cmd args)"
  unfolding own_conn_def keeps_def
  by (auto simp: ClientSend_def law_close [OF assms] dest!: law_send [OF assms] split: prod.splits option.splits)

lemma own_Flush [own_conn_rules]:
  assumes "redigo_laws L live seen"
  shows "own_conn live seen (ClientFlush L)"
  unfolding own_conn_def keeps_def
  by (auto simp: ClientFlush_def law_close [OF assms] dest!: law_flush [OF assms] split: prod.splits option.splits)

lemma own_Receive [own_conn_rules]:
  assumes "redigo_laws L live seen"
  shows "own_conn live seen (ClientReceive L)"
  unfolding own_conn_def keeps_def
  by (auto simp: ClientReceive_def law_close [OF assms] dest!: law_receive [OF assms] own_answer split: prod.splits sum.splits)

lemma own_Info [own_conn_rules]:
  assumes "redigo_laws L live seen"
  shows "own_conn live seen (ClientInfo L)" "own_conn live seen (InfoFull L)"
proof -
  show i: "own_conn live seen (ClientInfo L)"
    unfolding ClientInfo_def using assms by (intro own_conn_rules)
  show "own_conn live seen (InfoFull L)"
    unfolding InfoFull_def using assms i by (intro own_conn_rules)
qed

lemma own_send_all:
  assumes "redigo_laws L live seen" "send_all L ms c w = (c1, w1)"
  shows "keeps live seen c w c1 w1"
  using assms(2)
proof (induction ms arbitrary: c w)
  case Nil
  then show ?case by (simp add: keeps_def)
next
  case (Cons m ms)
  obtain r c2 w2 where s: "ClientSend L (fst m) (snd m) c w = (r, c2, w2)" by (metis surj_pair)
  then have "send_all L ms c2 w2 = (c1, w1)" using Cons.prems by simp
  from Cons.IH [OF this] own_connD [OF own_Send [OF assms(1)] s] show ?case by (blast intro: keeps_trans)
qed

lemma own_SetMaster [own_conn_rules]:
  assumes "redigo_laws L live seen"
  shows "own_conn live seen (SetMaster L master)"
  unfolding own_conn_def
proof (intro allI impI)
  fix c w r c2 w2 assume a: "SetMaster L master c w = (r, c2, w2)"
  show "keeps live seen c w c2 w2"
  proof (cases "SplitHostPort master")
    case (Inl e)
    then show ?thesis using a by (simp add: SetMaster_def keeps_def)
  next
    case (Inr hp)
    obtain h q where hp: "hp = (h, q)" by (cases hp)
    obtain c1 w1 where s: "send_all L (master_commands (cAuth c) h q) c w = (c1, w1)" by (metis surj_pair)
    let ?m = "and_then (and_then (ClientDo L ''EXEC'' []) (\<lambda>r. give (toValues L r)))
      (\<lambda>values. give (case first_error L values of Some e \<Rightarrow> Inl (Trace e) | None \<Rightarrow> Inr ()))"
    have "?m c1 w1 = (r, c2, w2)" using a Inr hp s by (simp add: SetMaster_def)
    moreover have "own_conn live seen ?m" using assms by (intro own_conn_rules)
    ultimately have "keeps live seen c1 w1 c2 w2" by (blast dest: own_connD)
    with own_send_all [OF assms s] show ?thesis by (rule keeps_trans)
  qed
qed

subsection \<open>Nothing leaks\<close>

definition at_addr :: "cpool \<Rightarrow> string \<Rightarrow> client list" where
  "at_addr p addr = (case cached p addr of None \<Rightarrow> [] | Some cs \<Rightarrow> cs)"

definition ids :: "client list \<Rightarrow> nat set" where
  "ids cs = cconn ` set cs"

definition idle_ids :: "cpool \<Rightarrow> nat set" where
  "idle_ids p = (\<Union>addr. ids (at_addr p addr))"

text \<open>
  The pool, the clients in use, and the world: a client is kept under its own address and has no
  reply outstanding, no connection is in two places, and every connection that is open is either
  kept in the pool or in use.
\<close>

definition pool_ok :: "cpool \<Rightarrow> bool" where
  "pool_ok p \<longleftrightarrow>
     (\<forall>addr. \<forall>c \<in> set (at_addr p addr). cAddr c = addr \<and> pSend c = pRecv c) \<and>
     (\<forall>addr. distinct (map cconn (at_addr p addr))) \<and>
     (\<forall>a b. a \<noteq> b \<longrightarrow> ids (at_addr p a) \<inter> ids (at_addr p b) = {}) \<and>
     (poolClosed p \<longrightarrow> (\<forall>addr. at_addr p addr = []))"

definition owned :: "('w \<Rightarrow> nat set) \<Rightarrow> ('w \<Rightarrow> nat set) \<Rightarrow> cpool \<times> client list \<times> 'w \<Rightarrow> bool" where
  "owned live seen s \<longleftrightarrow>
     (case s of (p, held, w) \<Rightarrow>
        pool_ok p \<and> distinct (map cconn held) \<and> ids held \<inter> idle_ids p = {} \<and>
        live w \<subseteq> idle_ids p \<union> ids held \<and> idle_ids p \<union> ids held \<subseteq> seen w)"

lemma at_addr_simps [simp]:
  "at_addr (p\<lparr>cached := m\<rparr>) a = (case m a of None \<Rightarrow> [] | Some cs \<Rightarrow> cs)"
  "at_addr (p\<lparr>poolClosed := b\<rparr>) a = at_addr p a"
  by (simp_all add: at_addr_def)

lemma idle_ids_simps [simp]: "idle_ids (p\<lparr>poolClosed := b\<rparr>) = idle_ids p"
  by (simp add: idle_ids_def)

lemma ids_simps [simp]: "ids [] = {}" "ids (c # cs) = insert (cconn c) (ids cs)" "ids (xs @ ys) = ids xs \<union> ids ys"
  by (auto simp: ids_def)

lemma at_idle: "ids (at_addr p a) \<subseteq> idle_ids p"
  by (auto simp: idle_ids_def)

lemma ok_kept: "pool_ok p \<Longrightarrow> c \<in> set (at_addr p a) \<Longrightarrow> cAddr c = a \<and> pSend c = pRecv c"
  and ok_distinct: "pool_ok p \<Longrightarrow> distinct (map cconn (at_addr p a))"
  and ok_apart: "pool_ok p \<Longrightarrow> a \<noteq> b \<Longrightarrow> ids (at_addr p a) \<inter> ids (at_addr p b) = {}"
  and ok_closed: "pool_ok p \<Longrightarrow> poolClosed p \<Longrightarrow> at_addr p a = []"
  unfolding pool_ok_def by blast+

text \<open>A pool in which only the list of one address is different.\<close>

definition relisted :: "cpool \<Rightarrow> string \<Rightarrow> client list \<Rightarrow> cpool \<Rightarrow> bool" where
  "relisted p a cs p' \<longleftrightarrow> (\<forall>b. at_addr p' b = (if b = a then cs else at_addr p b)) \<and> poolClosed p' = poolClosed p"

lemma relisted_idle: "relisted p a cs p' \<Longrightarrow> idle_ids p' = ids cs \<union> (\<Union>b \<in> - {a}. ids (at_addr p b))"
  unfolding relisted_def idle_ids_def by (auto split: if_splits)

lemma idle_split: "idle_ids p = ids (at_addr p a) \<union> (\<Union>b \<in> - {a}. ids (at_addr p b))"
  unfolding idle_ids_def by auto

lemma relisted_ok:
  assumes "pool_ok p" "relisted p a cs p'" "\<forall>c \<in> set cs. cAddr c = a \<and> pSend c = pRecv c" "distinct (map cconn cs)"
    "\<And>b. b \<noteq> a \<Longrightarrow> ids cs \<inter> ids (at_addr p b) = {}" "poolClosed p \<Longrightarrow> cs = []"
  shows "pool_ok p'"
proof -
  have at: "at_addr p' b = (if b = a then cs else at_addr p b)" and closed: "poolClosed p' = poolClosed p" for b
    using assms(2) by (simp_all add: relisted_def)
  note ok = ok_kept [OF assms(1)] ok_distinct [OF assms(1)] ok_apart [OF assms(1)] ok_closed [OF assms(1)]
  have "ids (at_addr p' b) \<inter> ids (at_addr p' d) = {}" if "b \<noteq> d" for b d
    using ok(3) [OF that] assms(5) [of b] assms(5) [of d] that by (auto simp: at)
  moreover have "\<forall>c \<in> set (at_addr p' b). cAddr c = b \<and> pSend c = pRecv c" for b
    using ok(1) [of _ b] assms(3) by (cases "b = a") (simp_all only: at if_True if_False simp_thms, blast+)
  moreover have "distinct (map cconn (at_addr p' b))" for b using ok(2) assms(4) by (simp add: at)
  moreover have "poolClosed p' \<Longrightarrow> at_addr p' b = []" for b using ok(4) assms(6) closed by (simp add: at)
  ultimately show ?thesis unfolding pool_ok_def by blast
qed

text \<open>Clients of one address go away: what is closed of them has been taken out.\<close>

lemma owned_shrink:
  assumes "owned live seen (p, held, w)" "relisted p a cs p'" "set cs \<subseteq> set (at_addr p a)" "distinct (map cconn cs)"
    "live w' \<subseteq> live w" "live w' \<inter> ids (at_addr p a) \<subseteq> ids cs" "seen w' = seen w"
  shows "owned live seen (p', held, w')"
proof -
  have o: "pool_ok p" "distinct (map cconn held)" "ids held \<inter> idle_ids p = {}" "live w \<subseteq> idle_ids p \<union> ids held"
    "idle_ids p \<union> ids held \<subseteq> seen w" using assms(1) by (simp_all add: owned_def)
  have sub: "ids cs \<subseteq> ids (at_addr p a)" using assms(3) by (auto simp: ids_def)
  have "pool_ok p'"
  proof (rule relisted_ok [OF o(1) assms(2)])
    show "\<forall>c \<in> set cs. cAddr c = a \<and> pSend c = pRecv c" using ok_kept [OF o(1)] assms(3) by blast
    show "distinct (map cconn cs)" by fact
    show "ids cs \<inter> ids (at_addr p b) = {}" if "b \<noteq> a" for b
    proof -
      have "ids (at_addr p a) \<inter> ids (at_addr p b) = {}" using ok_apart [OF o(1)] that by metis
      then show ?thesis using sub by blast
    qed
    show "cs = []" if "poolClosed p" using ok_closed [OF o(1) that] assms(3) by simp
  qed
  moreover obtain U where u: "idle_ids p = ids (at_addr p a) \<union> U" "idle_ids p' = ids cs \<union> U"
    using relisted_idle [OF assms(2)] idle_split [of p a] by blast
  have sub': "idle_ids p' \<subseteq> idle_ids p" using u sub by auto
  have "live w' \<subseteq> idle_ids p' \<union> ids held" using u assms(5,6) o(4) by blast
  ultimately show ?thesis using o(2,3,5) sub' assms(7) unfolding owned_def by auto
qed

text \<open>The first client of an address changes hands, in both directions.\<close>

lemma owned_take:
  assumes "owned live seen (p, held, w)" "at_addr p a = c # cs" "relisted p a cs p'"
  shows "owned live seen (p', c # held, w)"
proof -
  have o: "pool_ok p" "distinct (map cconn held)" "ids held \<inter> idle_ids p = {}" "live w \<subseteq> idle_ids p \<union> ids held"
    "idle_ids p \<union> ids held \<subseteq> seen w" using assms(1) by (simp_all add: owned_def)
  have d: "distinct (map cconn (c # cs))" using ok_distinct [OF o(1), of a] assms(2) by simp
  have apart: "ids (c # cs) \<inter> ids (at_addr p b) = {}" if "b \<noteq> a" for b
    using ok_apart [OF o(1), of a b] that assms(2) by simp
  have "pool_ok p'"
  proof (rule relisted_ok [OF o(1) assms(3)])
    show "\<forall>c \<in> set cs. cAddr c = a \<and> pSend c = pRecv c" using ok_kept [OF o(1), of _ a] assms(2) by simp
    show "cs = []" if "poolClosed p" using ok_closed [OF o(1) that, of a] assms(2) by simp
  qed (use d apart in auto)
  moreover have "cconn c \<notin> ids cs" using d by (auto simp: ids_def)
  moreover have "cconn c \<notin> idle_ids p'" using calculation(2) apart relisted_idle [OF assms(3)] by auto
  moreover have "idle_ids p = insert (cconn c) (idle_ids p')"
    using relisted_idle [OF assms(3)] idle_split [of p a] assms(2) by auto
  ultimately show ?thesis using o by (auto simp: owned_def ids_def)
qed

lemma owned_put:
  assumes "owned live seen (p, c # held, w)" "pSend c = pRecv c" "\<not> poolClosed p"
    "relisted p (cAddr c) (c # at_addr p (cAddr c)) p'"
  shows "owned live seen (p', held, w)"
proof -
  let ?a = "cAddr c"
  have o: "pool_ok p" "distinct (map cconn (c # held))" "ids (c # held) \<inter> idle_ids p = {}" "live w \<subseteq> idle_ids p \<union> ids (c # held)"
    "idle_ids p \<union> ids (c # held) \<subseteq> seen w" using assms(1) by (simp_all add: owned_def)
  have new: "cconn c \<notin> ids (at_addr p b)" for b using o(3) at_idle [of p b] by auto
  have "pool_ok p'"
  proof (rule relisted_ok [OF o(1) assms(4)])
    show "\<forall>d \<in> set (c # at_addr p ?a). cAddr d = ?a \<and> pSend d = pRecv d" using ok_kept [OF o(1)] assms(2) by (auto simp only: list.set insert_iff)
    show "distinct (map cconn (c # at_addr p ?a))" using ok_distinct [OF o(1), of ?a] new [of ?a] by (simp add: ids_def)
    show "ids (c # at_addr p ?a) \<inter> ids (at_addr p b) = {}" if "b \<noteq> ?a" for b
      using ok_apart [OF o(1), of ?a b] that new [of b] by auto
  qed (use assms(3) in simp)
  moreover have "idle_ids p' = insert (cconn c) (idle_ids p)"
    using relisted_idle [OF assms(4)] idle_split [of p ?a] by auto
  moreover have "cconn c \<notin> ids held" using o(2) by (auto simp: ids_def)
  ultimately show ?thesis using o by (auto simp: owned_def)
qed

lemma owned_perm:
  assumes "owned live seen (p, held, w)" "mset held' = mset held"
  shows "owned live seen (p, held', w)"
proof -
  have "mset (map cconn held') = mset (map cconn held)" using assms(2) by simp
  then have "distinct (map cconn held') = distinct (map cconn held)" by (rule mset_eq_imp_distinct_iff)
  moreover have "ids held' = ids held" using mset_eq_setD [OF assms(2)] by (simp add: ids_def)
  ultimately show ?thesis using assms(1) by (simp add: owned_def)
qed

text \<open>A connection in use is closed, by itself or while being used.\<close>

lemma owned_use:
  assumes "owned live seen (p, c # held, w)" "keeps live seen c w c' w'"
  shows "owned live seen (p, c' # held, w')"
  using assms unfolding owned_def keeps_def by auto

lemma owned_drop:
  assumes "owned live seen (p, c # held, w)" "live w' = live w - {cconn c}" "seen w' = seen w"
  shows "owned live seen (p, held, w')"
  using assms unfolding owned_def by auto

subsection \<open>The loops\<close>

lemma close_all_spec:
  assumes "redigo_laws L live seen"
  shows "live (close_all L cs w) = live w - ids cs \<and> seen (close_all L cs w) = seen w"
  by (induction cs arbitrary: w) (auto simp: law_close [OF assms])

lemma take_good_spec:
  assumes "redigo_laws L live seen" "take_good L cs w = (r, rest, w')"
  shows "\<exists>dead. cs = dead @ (case r of None \<Rightarrow> [] | Some c \<Rightarrow> [c]) @ rest \<and> (r = None \<longrightarrow> rest = []) \<and>
    (\<forall>c. r = Some c \<longrightarrow> isRecyclable L w' c) \<and> live w' = live w - ids dead \<and> seen w' = seen w"
  using assms(2)
proof (induction cs arbitrary: w)
  case Nil
  then show ?case by auto
next
  case (Cons c cs)
  show ?case
  proof (cases "isRecyclable L w c")
    case True
    then show ?thesis using Cons.prems by auto
  next
    case False
    then have "take_good L cs (CloseClient L c w) = (r, rest, w')" using Cons.prems by simp
    from Cons.IH [OF this] obtain dead where d: "cs = dead @ (case r of None \<Rightarrow> [] | Some c \<Rightarrow> [c]) @ rest"
      "r = None \<longrightarrow> rest = []" "\<forall>c. r = Some c \<longrightarrow> isRecyclable L w' c" "live w' = live w - {cconn c} - ids dead" "seen w' = seen w"
      by (auto simp: law_close [OF assms(1)])
    then show ?thesis by (intro exI [of _ "c # dead"]) auto
  qed
qed

lemma cleanup_list_spec:
  assumes "redigo_laws L live seen"
  shows "\<exists>ks w'. cleanup_list L (length xs) (xs @ ys) w = (ys @ ks, w') \<and> subseq ks xs \<and>
    live w' \<subseteq> live w \<and> live w' \<inter> ids xs \<subseteq> ids ks \<and> seen w' = seen w"
proof (induction xs arbitrary: ys w)
  case Nil
  then show ?case by simp
next
  case (Cons c xs)
  show ?case
  proof (cases "isRecyclable L w c")
    case True
    from Cons.IH [of "ys @ [c]" w] obtain ks w' where k: "cleanup_list L (length xs) (xs @ ys @ [c]) w = ((ys @ [c]) @ ks, w')"
      "subseq ks xs" "live w' \<subseteq> live w" "live w' \<inter> ids xs \<subseteq> ids ks" "seen w' = seen w" by blast
    then show ?thesis using True by (intro exI [of _ "c # ks"] exI [of _ w']) auto
  next
    case False
    from Cons.IH [of ys "CloseClient L c w"] obtain ks w' where k: "cleanup_list L (length xs) (xs @ ys) (CloseClient L c w) = (ys @ ks, w')"
      "subseq ks xs" "live w' \<subseteq> live w - {cconn c}" "live w' \<inter> ids xs \<subseteq> ids ks" "seen w' = seen w"
      by (auto simp: law_close [OF assms])
    then show ?thesis using False by (intro exI [of _ ks] exI [of _ w']) auto
  qed
qed

lemma cleanup_list_all:
  assumes "redigo_laws L live seen"
  obtains ks w' where "cleanup_list L (length cs) cs w = (ks, w')" "subseq ks cs" "live w' \<subseteq> live w"
    "live w' \<inter> ids cs \<subseteq> ids ks" "seen w' = seen w"
  using cleanup_list_spec [OF assms, of cs "[]" w] by auto

lemma subseq_set: "subseq xs ys \<Longrightarrow> set xs \<subseteq> set ys"
  by (induction rule: list_emb.induct) auto

lemma subseq_keeps_distinct: "subseq xs ys \<Longrightarrow> distinct ys \<Longrightarrow> distinct xs"
  by (induction rule: list_emb.induct) (auto dest: subseq_set)

text \<open>Each of the loops over the map keeps the ownership.\<close>

lemma cleanup_lists_owned [inv_preserved]:
  assumes "redigo_laws L live seen"
  shows "owned live seen (p, held, w) \<Longrightarrow> cleanup_lists L as p w = (p', w') \<Longrightarrow>
    owned live seen (p', held, w') \<and> poolClosed p' = poolClosed p \<and> (\<forall>a. subseq (at_addr p' a) (at_addr p a))"
proof (induction as arbitrary: p w)
  case Nil
  then show ?case by simp
next
  case (Cons addr as)
  show ?case
  proof (cases "cached p addr")
    case None
    then show ?thesis using Cons by simp
  next
    case (Some cs)
    obtain ks w1 where k: "cleanup_list L (length cs) cs w = (ks, w1)" "subseq ks cs" "live w1 \<subseteq> live w"
      "live w1 \<inter> ids cs \<subseteq> ids ks" "seen w1 = seen w" by (rule cleanup_list_all [OF assms])
    let ?p1 = "p\<lparr>cached := (cached p)(addr := (if ks = [] then None else Some ks))\<rparr>"
    have at: "at_addr p addr = cs" using Some by (simp add: at_addr_def)
    have re: "relisted p addr ks ?p1" by (auto simp: relisted_def at_addr_def)
    have ok: "pool_ok p" using Cons.prems(1) by (simp add: owned_def)
    have "distinct (map cconn ks)" using ok_distinct [OF ok, of addr] at k(2) by (metis subseq_keeps_distinct subseq_map)
    moreover have "set ks \<subseteq> set (at_addr p addr)" using k(2) at by (metis subseq_set)
    ultimately have "owned live seen (?p1, held, w1)" using owned_shrink [OF Cons.prems(1) re] k(3-5) at by blast
    moreover have "cleanup_lists L as ?p1 w1 = (p', w')" using Cons.prems(2) Some k(1) by simp
    ultimately have "owned live seen (p', held, w') \<and> poolClosed p' = poolClosed ?p1 \<and> (\<forall>a. subseq (at_addr p' a) (at_addr ?p1 a))"
      by (rule Cons.IH)
    moreover have "subseq (at_addr ?p1 a) (at_addr p a)" for a using re k(2) at by (simp add: relisted_def)
    ultimately show ?thesis using subseq_order.trans by (metis re relisted_def)
  qed
qed

lemma close_lists_closed:
  "close_lists L as (p\<lparr>poolClosed := True\<rparr>) w = (case close_lists L as p w of (p', w') \<Rightarrow> (p'\<lparr>poolClosed := True\<rparr>, w'))"
proof (induction as arbitrary: p w)
  case Nil
  then show ?case by simp
next
  case (Cons a as)
  have swap: "p\<lparr>poolClosed := True, cached := m\<rparr> = p\<lparr>cached := m, poolClosed := True\<rparr>" for m by simp
  show ?case
  proof (cases "cached p a")
    case None
    then show ?thesis using Cons.IH [of p w] by simp
  next
    case (Some cs)
    then show ?thesis
      using Cons.IH [of "p\<lparr>cached := (cached p)(a := None)\<rparr>" "close_all L cs w"] unfolding swap [symmetric] by simp
  qed
qed

lemma close_lists_owned [inv_preserved]:
  assumes "redigo_laws L live seen"
  shows "owned live seen (p, held, w) \<Longrightarrow> close_lists L as p w = (p', w') \<Longrightarrow>
    owned live seen (p', held, w') \<and> (\<forall>a. at_addr p' a = (if a \<in> set as then [] else at_addr p a))"
proof (induction as arbitrary: p w)
  case Nil
  then show ?case by simp
next
  case (Cons addr as)
  show ?case
  proof (cases "cached p addr")
    case None
    then have "close_lists L as p w = (p', w')" using Cons.prems(2) by simp
    from Cons.IH [OF Cons.prems(1) this] None show ?thesis by (auto simp: at_addr_def)
  next
    case (Some cs)
    let ?p1 = "p\<lparr>cached := (cached p)(addr := None)\<rparr>"
    have at: "at_addr p addr = cs" using Some by (simp add: at_addr_def)
    have re: "relisted p addr [] ?p1" by (auto simp: relisted_def at_addr_def)
    have "owned live seen (?p1, held, close_all L cs w)"
      by (rule owned_shrink [OF Cons.prems(1) re]) (auto simp: close_all_spec [OF assms] at)
    moreover have "close_lists L as ?p1 (close_all L cs w) = (p', w')" using Cons.prems(2) Some by simp
    ultimately have "owned live seen (p', held, w') \<and> (\<forall>a. at_addr p' a = (if a \<in> set as then [] else at_addr ?p1 a))"
      by (rule Cons.IH)
    moreover have "at_addr ?p1 a = (if a = addr then [] else at_addr p a)" for a using re by (simp only: relisted_def)
    ultimately show ?thesis by (simp only: list.set insert_iff split: if_split)  (metis)
  qed
qed

subsection \<open>The pool as a transition system\<close>

text \<open>What a holder does with a client: the operations that reach the connection, and \<open>Close\<close>.\<close>

inductive used :: "('v, 'w) redigo \<Rightarrow> client \<times> 'w \<Rightarrow> client \<times> 'w \<Rightarrow> bool" for L where
  use_do: "ClientDo L cmd args c w = (r, c', w') \<Longrightarrow> used L (c, w) (c', w')"
| use_send: "ClientSend L cmd args c w = (r, c', w') \<Longrightarrow> used L (c, w) (c', w')"
| use_flush: "ClientFlush L c w = (r, c', w') \<Longrightarrow> used L (c, w) (c', w')"
| use_receive: "ClientReceive L c w = (r, c', w') \<Longrightarrow> used L (c, w) (c', w')"
| use_close: "used L (c, w) (c, CloseClient L c w)"

text \<open>A step says what it did: which client of which address was got, used or given back.\<close>

datatype label = Got string nat | NotGot string | Gave string nat | Used nat | Swept | Shut

inductive cstep :: "('v, 'w) redigo \<Rightarrow> label \<Rightarrow> cpool \<times> client list \<times> 'w \<Rightarrow> cpool \<times> client list \<times> 'w \<Rightarrow> bool" for L where
  get_ok: "GetClient L addr p w = (Inr c, p', w') \<Longrightarrow> cstep L (Got addr (cconn c)) (p, held, w) (p', c # held, w')"
| get_err: "GetClient L addr p w = (Inl e, p', w') \<Longrightarrow> cstep L (NotGot addr) (p, held, w) (p', held, w')"
| hold_use: "used L (c, w) (c', w') \<Longrightarrow> cstep L (Used (cconn c)) (p, xs @ c # ys, w) (p, xs @ c' # ys, w')"
| give_back: "PutClient L c p w = (p', w') \<Longrightarrow>
    cstep L (Gave (cAddr c) (cconn c)) (p, xs @ c # ys, w) (p', xs @ ys, w')"
| sweep: "map_order (cached p) ord \<Longrightarrow> Cleanup L ord p w = (err, p', w') \<Longrightarrow> cstep L Swept (p, held, w) (p', held, w')"
| shut: "map_order (cached p) ord \<Longrightarrow> ClosePool L ord p w = (p', w') \<Longrightarrow> cstep L Shut (p, held, w) (p', held, w')"

inductive_cases cstepE: "cstep L l s s'"

lemma used_keeps:
  assumes "redigo_laws L live seen" "used L (c, w) (c', w')"
  shows "keeps live seen c w c' w'"
  using assms(2)
proof cases
  case (use_do cmd args r)
  then show ?thesis using own_connD [OF own_Do [OF assms(1)]] by blast
next
  case (use_send cmd args r)
  then show ?thesis using own_connD [OF own_Send [OF assms(1)]] by blast
next
  case (use_flush r)
  then show ?thesis using own_connD [OF own_Flush [OF assms(1)]] by blast
next
  case (use_receive r)
  then show ?thesis using own_connD [OF own_Receive [OF assms(1)]] by blast
next
  case use_close
  then show ?thesis using law_close [OF assms(1), of c w] by (auto simp: keeps_def)
qed

text \<open>The cache: what it gives, what it drops on the way, what it keeps.\<close>

lemma cache_spec:
  assumes "redigo_laws L live seen" "owned live seen (p, held, w)" "getClientFromCache L addr p w = (r, p1, w1)"
  shows "seen w1 = seen w \<and> (if poolClosed p then r = Inl (ErrVar ErrClosedPool) \<and> p1 = p \<and> w1 = w
     else \<exists>q dead rest. r = Inr q \<and> at_addr p addr = dead @ (case q of None \<Rightarrow> [] | Some c \<Rightarrow> [c]) @ rest \<and>
       (q = None \<longrightarrow> rest = []) \<and> relisted p addr rest p1 \<and>
       (case q of None \<Rightarrow> owned live seen (p1, held, w1)
        | Some c \<Rightarrow> isRecyclable L w1 c \<and> cAddr c = addr \<and> owned live seen (p1, c # held, w1)))"
proof (cases "poolClosed p")
  case True
  then show ?thesis using assms(3) by (simp add: getClientFromCache_def)
next
  case False
  obtain q rest w2 where t: "take_good L (at_addr p addr) w = (q, rest, w2)" by (metis surj_pair)
  have r: "r = Inr q" "w1 = w2" and re: "relisted p addr rest p1"
    using assms(3) False t by (auto simp: getClientFromCache_def at_addr_def relisted_def split: option.splits)
  obtain dead where d: "at_addr p addr = dead @ (case q of None \<Rightarrow> [] | Some c \<Rightarrow> [c]) @ rest" "q = None \<longrightarrow> rest = []"
    "\<forall>c. q = Some c \<longrightarrow> isRecyclable L w2 c" "live w2 = live w - ids dead" "seen w2 = seen w"
    using take_good_spec [OF assms(1) t] by blast
  let ?left = "(case q of None \<Rightarrow> [] | Some c \<Rightarrow> [c]) @ rest"
  let ?mid = "p\<lparr>cached := (cached p)(addr \<mapsto> ?left)\<rparr>"
  have ok: "pool_ok p" using assms(2) by (simp add: owned_def)
  have mid: "relisted p addr ?left ?mid" by (simp add: relisted_def at_addr_def)
  have "distinct (map cconn ?left)" using ok_distinct [OF ok, of addr] d(1) by simp
  moreover have "set ?left \<subseteq> set (at_addr p addr)" unfolding d(1) by auto
  moreover have "live w2 \<inter> ids (at_addr p addr) \<subseteq> ids ?left" unfolding d(1,4) by auto
  ultimately have o: "owned live seen (?mid, held, w2)" using owned_shrink [OF assms(2) mid, of w2] d(4,5) by blast
  have fin: "relisted ?mid addr rest p1" using re by (auto simp: relisted_def at_addr_def)
  have "case q of None \<Rightarrow> owned live seen (p1, held, w2)
        | Some c \<Rightarrow> isRecyclable L w2 c \<and> cAddr c = addr \<and> owned live seen (p1, c # held, w2)"
  proof (cases q)
    case None
    then have "owned live seen (p1, held, w2)" using owned_shrink [OF o fin, of w2] d(2) by simp
    then show ?thesis using None by simp
  next
    case (Some c)
    have "at_addr ?mid addr = c # rest" using Some by simp
    from owned_take [OF o this fin] have "owned live seen (p1, c # held, w2)" .
    moreover have "cAddr c = addr" using ok_kept [OF ok, of c addr] d(1) Some by simp
    ultimately show ?thesis using Some d(3) by simp
  qed
  then show ?thesis using False r re d(1,2,5) by auto
qed

lemma owned_dial:
  assumes "redigo_laws L live seen" "owned live seen (p, held, w)" "NewClient L addr auth timeout w = (r, w')"
  shows "case r of Inl e \<Rightarrow> owned live seen (p, held, w')
     | Inr c \<Rightarrow> owned live seen (p, c # held, w') \<and> cAddr c = addr \<and> pSend c = 0 \<and> pRecv c = 0 \<and> cconn c \<notin> seen w"
proof (cases "rdial L addr auth (MinDuration 1000000000 timeout) timeout w")
  case (Pair x w1)
  show ?thesis
  proof (cases x)
    case (Inl e)
    then show ?thesis using assms(2,3) Pair law_dial_err [OF assms(1), of addr auth _ timeout w e w1]
      by (auto simp: NewClient_def owned_def)
  next
    case (Inr n)
    then have new: "n \<notin> seen w" "seen w1 = insert n (seen w)" "live w1 = insert n (live w)"
      using law_dial [OF assms(1)] Pair by blast+
    obtain c where c: "r = Inr c" "cconn c = n" "cAddr c = addr" "pSend c = 0" "pRecv c = 0" "w' = w1"
      using assms(3) Pair Inr by (auto simp: NewClient_def)
    have o: "pool_ok p" "distinct (map cconn held)" "ids held \<inter> idle_ids p = {}" "live w \<subseteq> idle_ids p \<union> ids held"
      "idle_ids p \<union> ids held \<subseteq> seen w" using assms(2) by (simp_all add: owned_def)
    have "n \<notin> ids held" "n \<notin> idle_ids p" using o(5) new(1) by blast+
    moreover from this(1) have "distinct (map cconn (c # held))" using o(2) c(2) by (simp add: ids_def)
    moreover have "live w1 \<subseteq> idle_ids p \<union> ids (c # held)" "idle_ids p \<union> ids (c # held) \<subseteq> seen w1"
      "ids (c # held) \<inter> idle_ids p = {}"
      using o(3-5) new c(2) calculation(2) by auto
    ultimately show ?thesis using o(1) c new(1) by (simp add: owned_def)
  qed
qed

lemma GetClient_owned [inv_preserved]:
  assumes "redigo_laws L live seen" "owned live seen (p, held, w)" "GetClient L addr p w = (r, p', w')"
  shows "case r of Inl e \<Rightarrow> owned live seen (p', held, w') | Inr c \<Rightarrow> owned live seen (p', c # held, w') \<and> cAddr c = addr"
proof -
  obtain q p1 w1 where c: "getClientFromCache L addr p w = (q, p1, w1)" by (metis surj_pair)
  note spec = cache_spec [OF assms(1,2) c]
  show ?thesis
  proof (cases q)
    case (Inl e)
    then show ?thesis using assms(2,3) c spec by (auto simp: GetClient_def split: if_splits)
  next
    case (Inr x)
    show ?thesis
    proof (cases x)
      case None
      then have "owned live seen (p1, held, w1)" using spec Inr by (auto split: if_splits)
      moreover obtain r2 w2 where n: "NewClient L addr (poolAuth p) (poolTimeout p) w1 = (r2, w2)" by (metis surj_pair)
      moreover have "r = r2" "p' = p1" "w' = w2" using assms(3) c n Inr None by (simp_all add: GetClient_def)
      ultimately show ?thesis using owned_dial [OF assms(1)] by (cases r2) fastforce+
    next
      case (Some c1)
      then show ?thesis using assms(3) c spec Inr by (auto simp: GetClient_def split: if_splits)
    qed
  qed
qed

lemma PutClient_owned [inv_preserved]:
  assumes "redigo_laws L live seen" "owned live seen (p, c # held, w)" "PutClient L c p w = (p', w')"
  shows "owned live seen (p', held, w')"
proof (cases "\<not> isRecyclable L w c \<or> poolClosed p")
  case True
  then show ?thesis using assms(3) owned_drop [OF assms(2)] law_close [OF assms(1), of c w] by (auto simp: PutClient_def)
next
  case False
  then have e: "p' = p\<lparr>cached := (cached p)(cAddr c \<mapsto> c # at_addr p (cAddr c))\<rparr>" "w' = w"
    using assms(3) by (auto simp: PutClient_def at_addr_def Let_def)
  moreover have "relisted p (cAddr c) (c # at_addr p (cAddr c)) p'" unfolding e(1) by (simp add: relisted_def at_addr_def)
  moreover have "pSend c = pRecv c" using False by (auto simp: isRecyclable_def split: if_splits)
  ultimately show ?thesis using owned_put [OF assms(2)] False by blast
qed

lemma Cleanup_owned [inv_preserved]:
  assumes "redigo_laws L live seen" "owned live seen (p, held, w)" "Cleanup L ord p w = (err, p', w')"
  shows "owned live seen (p', held, w') \<and> poolClosed p' = poolClosed p \<and> (\<forall>a. subseq (at_addr p' a) (at_addr p a))"
  using cleanup_lists_owned [OF assms(1,2)] assms(2,3) by (auto simp: Cleanup_def split: if_splits)

lemma ClosePool_owned [inv_preserved]:
  assumes "redigo_laws L live seen" "owned live seen (p, held, w)" "map_order (cached p) ord" "ClosePool L ord p w = (p', w')"
  shows "owned live seen (p', held, w') \<and> poolClosed p' \<and> (\<forall>a. at_addr p' a = [])"
proof (cases "poolClosed p")
  case True
  then show ?thesis using assms(2,4) by (auto simp: ClosePool_def owned_def pool_ok_def)
next
  case False
  obtain p1 where c: "close_lists L ord p w = (p1, w')" "p' = p1\<lparr>poolClosed := True\<rparr>"
    using assms(4) False by (auto simp: ClosePool_def close_lists_closed split: prod.splits)
  have o: "owned live seen (p1, held, w')" "at_addr p1 a = (if a \<in> set ord then [] else at_addr p a)" for a
    using close_lists_owned [OF assms(1,2) c(1)] by blast+
  have "at_addr p1 a = []" for a
    using o(2) [of a] assms(3) by (auto simp: map_order_def at_addr_def dom_def split: if_splits option.splits)
  then have "pool_ok p'" and none: "\<forall>a. at_addr p' a = []" using c(2) by (simp_all add: pool_ok_def)
  then show ?thesis using o(1) c(2) by (simp add: owned_def)
qed

lemma cstep_owned [inv_preserved]:
  assumes "redigo_laws L live seen" "cstep L l s s'" "owned live seen s"
  shows "owned live seen s'"
  using assms(2)
proof (rule cstepE)
  fix addr p w c p' w' held
  assume "s = (p, held, w)" "s' = (p', c # held, w')" "GetClient L addr p w = (Inr c, p', w')"
  then show ?thesis using GetClient_owned [OF assms(1), of p held w addr] assms(3) by fastforce
next
  fix addr p w e p' w' held
  assume "s = (p, held, w)" "s' = (p', held, w')" "GetClient L addr p w = (Inl e, p', w')"
  then show ?thesis using GetClient_owned [OF assms(1), of p held w addr] assms(3) by fastforce
next
  fix c w c' w' p xs ys
  assume a: "s = (p, xs @ c # ys, w)" "s' = (p, xs @ c' # ys, w')" "used L (c, w) (c', w')"
  then have "owned live seen (p, c # xs @ ys, w)" using owned_perm [of live seen p "xs @ c # ys" w "c # xs @ ys"] assms(3) by simp
  from owned_use [OF this used_keeps [OF assms(1) a(3)]] have "owned live seen (p, c' # xs @ ys, w')" .
  then show ?thesis using owned_perm [of live seen p "c' # xs @ ys" w' "xs @ c' # ys"] a(2) by simp
next
  fix c p w p' w' xs ys
  assume a: "s = (p, xs @ c # ys, w)" "s' = (p', xs @ ys, w')" "PutClient L c p w = (p', w')"
  then have "owned live seen (p, c # xs @ ys, w)" using owned_perm [of live seen p "xs @ c # ys" w "c # xs @ ys"] assms(3) by simp
  then show ?thesis using PutClient_owned [OF assms(1) _ a(3)] a(2) by simp
next
  fix p ord w err p' w' held
  assume "s = (p, held, w)" "s' = (p', held, w')" "Cleanup L ord p w = (err, p', w')"
  then show ?thesis using Cleanup_owned [OF assms(1)] assms(3) by blast
next
  fix p ord w p' w' held
  assume "s = (p, held, w)" "s' = (p', held, w')" "map_order (cached p) ord" "ClosePool L ord p w = (p', w')"
  then show ?thesis using ClosePool_owned [OF assms(1)] assms(3) by blast
qed

text \<open>The steps of a pool over a library that keeps its promises; a new pool, before any dial.\<close>

definition lawful_step :: "('v, 'w) redigo \<Rightarrow> ('w \<Rightarrow> nat set) \<Rightarrow> ('w \<Rightarrow> nat set)
    \<Rightarrow> cpool \<times> client list \<times> 'w \<Rightarrow> cpool \<times> client list \<times> 'w \<Rightarrow> bool" where
  "lawful_step L live seen s s' \<longleftrightarrow> redigo_laws L live seen \<and> (\<exists>l. cstep L l s s')"

definition new_pool :: "('w \<Rightarrow> nat set) \<Rightarrow> cpool \<times> client list \<times> 'w \<Rightarrow> bool" where
  "new_pool live s \<longleftrightarrow> (\<exists>auth timeout w. s = (NewPool auth timeout, [], w) \<and> live w = {})"

lemma new_pool_owned: "new_pool live s \<Longrightarrow> owned live seen s"
  by (auto simp: new_pool_def owned_def pool_ok_def NewPool_def at_addr_def idle_ids_def)

interpretation clients: trans_sys "new_pool live" "lawful_step L live seen" "owned live seen"
  by unfold_locales (auto simp: lawful_step_def intro: new_pool_owned cstep_owned)

text \<open>
  C12. No connection leaks. Whatever is got, used, given back, swept and closed in whatever order,
  over whatever network: every connection that is open is kept by the pool or in somebody's hands,
  none is in two places, and once the pool is closed and all clients are back none is open.
\<close>

theorem no_connection_leaks:
  assumes "redigo_laws L live seen" "new_pool live s0" "(lawful_step L live seen)\<^sup>*\<^sup>* s0 (p, held, w)"
  shows "live w \<subseteq> idle_ids p \<union> ids held \<and> distinct (map cconn held) \<and> ids held \<inter> idle_ids p = {} \<and>
    (poolClosed p \<and> held = [] \<longrightarrow> live w = {})"
proof -
  have "owned live seen (p, held, w)" by (rule clients.reach_inv [OF assms(2,3)])
  then have o: "pool_ok p" "live w \<subseteq> idle_ids p \<union> ids held" "distinct (map cconn held)" "ids held \<inter> idle_ids p = {}"
    by (simp_all add: owned_def)
  have "idle_ids p = {}" if "poolClosed p" using ok_closed [OF o(1) that] by (simp add: idle_ids_def)
  then show ?thesis using o(2-4) by auto
qed

text \<open>
  A client that is handed out can be used: it is connected to the address asked for, nobody else
  has it, and it was either dialled just now or kept by the pool, without an error, without
  outstanding replies and not idle for too long.
\<close>

theorem client_usable:
  assumes "redigo_laws L live seen" "new_pool live s0" "(lawful_step L live seen)\<^sup>*\<^sup>* s0 (p, held, w)"
    "GetClient L addr p w = (Inr c, p', w')"
  shows "cAddr c = addr \<and> cconn c \<notin> ids held \<and> cconn c \<notin> idle_ids p' \<and> pSend c = pRecv c \<and>
    (c \<in> set (at_addr p addr) \<and> isRecyclable L w' c \<or> cconn c \<notin> idle_ids p \<and> pSend c = 0)"
proof -
  have o: "owned live seen (p, held, w)" by (rule clients.reach_inv [OF assms(2,3)])
  obtain q p1 w1 where q: "getClientFromCache L addr p w = (q, p1, w1)" by (metis surj_pair)
  note spec = cache_spec [OF assms(1) o q]
  have own: "owned live seen (p', c # held, w')" "cAddr c = addr" using GetClient_owned [OF assms(1) o assms(4)] by simp_all
  then have free: "cconn c \<notin> ids held" "cconn c \<notin> idle_ids p'" by (auto simp: owned_def ids_def)
  show ?thesis
  proof (cases "\<exists>d. q = Inr (Some d)")
    case True
    then have "q = Inr (Some c)" "w' = w1" using assms(4) q by (auto simp: GetClient_def)
    then have kept: "c \<in> set (at_addr p addr)" "isRecyclable L w' c" using spec by (auto split: if_splits)
    moreover have "pSend c = pRecv c" using kept(2) by (simp add: isRecyclable_def split: if_splits)
    ultimately show ?thesis using own(2) free by simp
  next
    case False
    then have n: "q = Inr None" "NewClient L addr (poolAuth p) (poolTimeout p) w1 = (Inr c, w')"
      using assms(4) q by (auto simp: GetClient_def split: sum.splits option.splits prod.splits)
    then have "owned live seen (p1, held, w1)" and seen: "seen w1 = seen w" using spec by (auto split: if_splits)
    from owned_dial [OF assms(1) this(1) n(2)] have "pSend c = 0" "pRecv c = 0" "cconn c \<notin> seen w" using seen by simp_all
    moreover have "idle_ids p \<subseteq> seen w" using o by (auto simp: owned_def)
    ultimately show ?thesis using own(2) free by auto
  qed
qed

subsection \<open>What the pool promises\<close>

text \<open>
  The specification: a set of idle connections, each under an address, and whether the pool is
  closed. Getting a client takes an idle one of its address, dropping dead ones of that address, or
  drops all of them and dials a new one; giving back adds the client or drops it; sweeping drops
  some; closing drops all, and a closed pool gives out nothing and takes nothing.
\<close>

type_synonym idle = "(string \<times> nat) set \<times> bool"

inductive aspec :: "label \<Rightarrow> idle \<Rightarrow> idle \<Rightarrow> bool" where
  got_idle: "(a, n) \<in> I \<Longrightarrow> dead \<subseteq> {a} \<times> UNIV \<Longrightarrow> aspec (Got a n) (I, False) (I - insert (a, n) dead, False)"
| got_new: "n \<notin> snd ` I \<Longrightarrow> aspec (Got a n) (I, False) (I - {a} \<times> UNIV, False)"
| got_none: "aspec (NotGot a) (I, False) (I - {a} \<times> UNIV, False)"
| refused: "aspec (NotGot a) (I, True) (I, True)"
| gave_idle: "n \<notin> snd ` I \<Longrightarrow> aspec (Gave a n) (I, False) (insert (a, n) I, False)"
| gave_dropped: "aspec (Gave a n) (I, b) (I, b)"
| kept_using: "aspec (Used n) (I, b) (I, b)"
| swept: "J \<subseteq> I \<Longrightarrow> b \<longrightarrow> J = I \<Longrightarrow> aspec Swept (I, b) (J, b)"
| all_closed: "aspec Shut (I, b) ({}, True)"

inductive_simps aspec_simps:
  "aspec (Got a n) (I, b) t" "aspec (NotGot a) (I, b) t" "aspec (Gave a n) (I, b) t" "aspec (Used n) (I, b) t"
  "aspec Swept (I, b) t" "aspec Shut (I, b) t"

text \<open>What the specification is good for: closed is closed, and only giving back adds to what is idle.\<close>

lemma aspec_closed: "aspec l (I, True) t \<Longrightarrow> snd t \<and> fst t \<subseteq> I \<and> (\<forall>a n. l \<noteq> Got a n)"
  by (cases l) (auto simp: aspec_simps)

lemma aspec_adds: "aspec l (I, b) t \<Longrightarrow> x \<in> fst t \<Longrightarrow> x \<in> I \<or> l = Gave (fst x) (snd x)"
  by (cases l) (auto simp: aspec_simps)

definition idle_of :: "cpool \<Rightarrow> idle" where
  "idle_of p = ({(a, n). n \<in> ids (at_addr p a)}, poolClosed p)"

lemma idle_of_relisted:
  "relisted p a cs p' \<Longrightarrow> idle_of p' = (fst (idle_of p) - {a} \<times> UNIV \<union> {a} \<times> ids cs, poolClosed p)"
  by (auto simp: idle_of_def relisted_def split: if_splits)

lemma idle_of_at: "(a, n) \<in> fst (idle_of p) \<longleftrightarrow> n \<in> ids (at_addr p a)"
  by (simp add: idle_of_def)

lemma idle_of_snd: "snd ` fst (idle_of p) = idle_ids p"
  by (force simp: idle_of_def idle_ids_def)

lemma idle_of_pair: "idle_of p = (fst (idle_of p), poolClosed p)"
  by (simp add: idle_of_def)

lemma Got_refines:
  assumes "redigo_laws L live seen" "owned live seen (p, held, w)" "GetClient L addr p w = (Inr c, p', w')"
  shows "aspec (Got addr (cconn c)) (idle_of p) (idle_of p')"
proof -
  obtain q p1 w1 where q: "getClientFromCache L addr p w = (q, p1, w1)" by (metis surj_pair)
  note spec = cache_spec [OF assms(1,2) q]
  let ?I = "fst (idle_of p)"
  have "\<exists>x. q = Inr x" using assms(3) q by (auto simp: GetClient_def split: sum.splits)
  then obtain x dead rest where x: "q = Inr x" "\<not> poolClosed p" "at_addr p addr = dead @ (case x of None \<Rightarrow> [] | Some c \<Rightarrow> [c]) @ rest"
    "x = None \<longrightarrow> rest = []" "relisted p addr rest p1" "seen w1 = seen w"
    "x = None \<longrightarrow> owned live seen (p1, held, w1)"
    using spec by (auto split: if_splits option.splits)
  have p: "idle_of p = (?I, False)" using idle_of_pair [of p] x(2) by simp
  have p1: "idle_of p1 = (?I - {addr} \<times> UNIV \<union> {addr} \<times> ids rest, False)" using idle_of_relisted [OF x(5)] x(2) by simp
  show ?thesis
  proof (cases x)
    case None
    then have n: "NewClient L addr (poolAuth p) (poolTimeout p) w1 = (Inr c, w')" "p' = p1"
      using assms(3) q x(1) by (auto simp: GetClient_def split: prod.splits)
    have "cconn c \<notin> seen w" using owned_dial [OF assms(1) _ n(1)] x(6,7) None by simp
    moreover have "idle_ids p \<subseteq> seen w" using assms(2) by (simp add: owned_def)
    ultimately have "cconn c \<notin> snd ` ?I" using idle_of_snd by auto
    moreover have "idle_of p' = (?I - {addr} \<times> UNIV, False)" using p1 n(2) x(4) None by simp
    ultimately show ?thesis using p got_new by metis
  next
    case (Some d)
    then have d: "d = c" "p' = p1" using assms(3) q x(1) by (auto simp: GetClient_def)
    have ok: "pool_ok p" using assms(2) by (simp add: owned_def)
    have at: "at_addr p addr = dead @ c # rest" using x(3) Some d(1) by simp
    then have apart: "cconn c \<notin> ids rest" "ids dead \<inter> ids rest = {}"
      using ok_distinct [OF ok, of addr] by (auto simp: ids_def)
    have "?I - {addr} \<times> UNIV \<union> {addr} \<times> ids rest = ?I - insert (addr, cconn c) ({addr} \<times> ids dead)"
      using apart by (auto simp: idle_of_at at)
    moreover have "(addr, cconn c) \<in> ?I" using at by (simp add: idle_of_at)
    ultimately show ?thesis using got_idle [of addr "cconn c" ?I "{addr} \<times> ids dead"] p p1 d(2) by auto
  qed
qed

lemma NotGot_refines:
  assumes "redigo_laws L live seen" "owned live seen (p, held, w)" "GetClient L addr p w = (Inl e, p', w')"
  shows "aspec (NotGot addr) (idle_of p) (idle_of p')"
proof -
  obtain q p1 w1 where q: "getClientFromCache L addr p w = (q, p1, w1)" by (metis surj_pair)
  note spec = cache_spec [OF assms(1,2) q]
  have p': "p' = p1" using assms(3) q by (auto simp: GetClient_def split: sum.splits option.splits prod.splits)
  show ?thesis
  proof (cases "poolClosed p")
    case True
    then have "p1 = p" using spec by simp
    then show ?thesis using p' True refused idle_of_pair [of p] by metis
  next
    case False
    then have "\<not> (\<exists>c. q = Inr (Some c))" using assms(3) q by (auto simp: GetClient_def)
    then have "relisted p addr [] p1" using spec False by (auto split: if_splits option.splits)
    then have "idle_of p1 = (fst (idle_of p) - {addr} \<times> UNIV, False)" using idle_of_relisted False by fastforce
    then show ?thesis using got_none [of addr "fst (idle_of p)"] idle_of_pair [of p] False p' by simp
  qed
qed

lemma Gave_refines:
  assumes "owned live seen (p, c # held, w)" "PutClient L c p w = (p', w')"
  shows "aspec (Gave (cAddr c) (cconn c)) (idle_of p) (idle_of p')"
proof (cases "\<not> isRecyclable L w c \<or> poolClosed p")
  case True
  then have "p' = p" using assms(2) by (auto simp: PutClient_def)
  then show ?thesis using gave_dropped idle_of_pair [of p] by metis
next
  case False
  have e: "p' = p\<lparr>cached := (cached p)(cAddr c \<mapsto> c # at_addr p (cAddr c))\<rparr>"
    using assms(2) False by (auto simp: PutClient_def at_addr_def Let_def)
  have "relisted p (cAddr c) (c # at_addr p (cAddr c)) p'" unfolding e by (simp add: relisted_def at_addr_def)
  from idle_of_relisted [OF this]
  have "idle_of p' = (insert (cAddr c, cconn c) (fst (idle_of p)), False)"
    using False by (auto simp: idle_of_at)
  moreover have "cconn c \<notin> snd ` fst (idle_of p)" using assms(1) by (auto simp: idle_of_snd owned_def)
  ultimately show ?thesis using gave_idle idle_of_pair [of p] False by metis
qed

lemma cstep_refines:
  assumes "redigo_laws L live seen" "owned live seen s" "cstep L l s s'"
  shows "aspec l (idle_of (fst s)) (idle_of (fst s'))"
proof -
  note o = assms(2)
  from assms(3) show ?thesis
  proof (rule cstepE)
    fix addr p w c p' w' held
    assume "l = Got addr (cconn c)" "s = (p, held, w)" "s' = (p', c # held, w')" "GetClient L addr p w = (Inr c, p', w')"
    then show ?thesis using Got_refines [OF assms(1)] o by fastforce
  next
    fix addr p w e p' w' held
    assume "l = NotGot addr" "s = (p, held, w)" "s' = (p', held, w')" "GetClient L addr p w = (Inl e, p', w')"
    then show ?thesis using NotGot_refines [OF assms(1)] o by fastforce
  next
    fix c w c' w' p xs ys
    assume "l = Used (cconn c)" "s = (p, xs @ c # ys, w)" "s' = (p, xs @ c' # ys, w')"
    then show ?thesis using kept_using idle_of_pair [of p] by (metis fst_conv)
  next
    fix c p w p' w' xs ys
    assume a: "l = Gave (cAddr c) (cconn c)" "s = (p, xs @ c # ys, w)" "s' = (p', xs @ ys, w')" "PutClient L c p w = (p', w')"
    then have "owned live seen (p, c # xs @ ys, w)" using owned_perm [of live seen p "xs @ c # ys" w "c # xs @ ys"] o by simp
    then show ?thesis using Gave_refines a by fastforce
  next
    fix p ord w err p' w' held
    assume a: "l = Swept" "s = (p, held, w)" "s' = (p', held, w')" "Cleanup L ord p w = (err, p', w')"
    then have c: "poolClosed p' = poolClosed p" "\<And>a. subseq (at_addr p' a) (at_addr p a)" using Cleanup_owned [OF assms(1)] o by blast+
    then have "fst (idle_of p') \<subseteq> fst (idle_of p)" using subseq_set by (fastforce simp: idle_of_def ids_def)
    moreover have "poolClosed p \<longrightarrow> p' = p" using a(4) by (auto simp: Cleanup_def)
    ultimately have "aspec Swept (fst (idle_of p), poolClosed p) (fst (idle_of p'), poolClosed p)" by (intro swept) auto
    then show ?thesis using a(1-3) idle_of_pair [of p] idle_of_pair [of p'] c(1) by simp
  next
    fix p ord w p' w' held
    assume a: "l = Shut" "s = (p, held, w)" "s' = (p', held, w')" "map_order (cached p) ord" "ClosePool L ord p w = (p', w')"
    then have "poolClosed p'" "\<And>a. at_addr p' a = []" using ClosePool_owned [OF assms(1)] o by blast+
    then have "idle_of p' = ({}, True)" by (simp add: idle_of_def)
    then show ?thesis using a(1-3) all_closed idle_of_pair [of p] by (metis fst_conv)
  qed
qed

interpretation idle_pool: refinement "new_pool live" "lawful_step L live seen" "owned live seen" "cstep L" aspec "\<lambda>s. idle_of (fst s)"
  by unfold_locales (auto simp: lawful_step_def intro: cstep_refines)

text \<open>
  C13. The pool implements this specification: every step of the pool with its lists, in the order
  the code keeps them, is a step of the specification on the set of idle connections, and so every
  run is a run of the specification, from no idle connection on.
\<close>

theorem pool_refines:
  assumes "redigo_laws L live seen" "new_pool live s0" "(lawful_step L live seen)\<^sup>*\<^sup>* s0 s" "cstep L l s s'"
  shows "aspec l (idle_of (fst s)) (idle_of (fst s')) \<and> (\<lambda>a b. \<exists>l. aspec l a b)\<^sup>*\<^sup>* ({}, False) (idle_of (fst s'))"
proof -
  have step: "lawful_step L live seen s s'" using assms(1,4) by (auto simp: lawful_step_def)
  have "idle_of (fst s0) = ({}, False)" using assms(2) by (auto simp: new_pool_def NewPool_def idle_of_def at_addr_def)
  then have "(\<lambda>a b. \<exists>l. aspec l a b)\<^sup>*\<^sup>* ({}, False) (idle_of (fst s'))"
    using idle_pool.run_refines [OF rtranclp.rtrancl_into_rtrancl [OF assms(3) step] assms(2)] by simp
  then show ?thesis using idle_pool.step_refines [OF assms(2,3) step assms(4)] by blast
qed

subsection \<open>A library that keeps its promises\<close>

text \<open>The world counts the dials and knows the open connections; every reply is empty.\<close>

definition demo_redigo :: "(unit, nat \<times> nat set) redigo" where
  "demo_redigo =
     \<lparr>rdial = (\<lambda>a q t u w. (Inr (fst w), (Suc (fst w), insert (fst w) (snd w)))),
      rdo = (\<lambda>n cmd args w. (Inr (), w)), rsend = (\<lambda>n cmd args w. (None, w)), rflush = (\<lambda>n w. (None, w)),
      rreceive = (\<lambda>n w. (Inr (), w)), rclose = (\<lambda>n w. (fst w, snd w - {n})),
      rconnerr = (\<lambda>n w. if n \<in> snd w then None else Some (ErrNew ''closed'')), rnow = (\<lambda>w. 0),
      asError = (\<lambda>v. None), toString = (\<lambda>v. Inr []), toValues = (\<lambda>v. Inr []), toInt = (\<lambda>v. Inr 0),
      toInts = (\<lambda>v. Inr []), intsOf = (\<lambda>vs. Inr []), fmtValue = (\<lambda>v. [])\<rparr>"

definition demo_live :: "nat \<times> nat set \<Rightarrow> nat set" where "demo_live w = snd w"
definition demo_seen :: "nat \<times> nat set \<Rightarrow> nat set" where "demo_seen w = {..<fst w}"

lemma demo_laws: "redigo_laws demo_redigo demo_live demo_seen"
  by (auto simp: redigo_laws_def demo_redigo_def demo_live_def demo_seen_def)

definition demo_client :: client where
  "demo_client = \<lparr>cconn = 0, cAddr = ''h:1'', cAuth = [], cDatabase = 0, LastUse = 0, cTimeout = 5, pSend = 0, pRecv = 0\<rparr>"

definition demo_pool :: cpool where
  "demo_pool = (NewPool [] 5)\<lparr>cached := [''h:1'' \<mapsto> [demo_client]]\<rparr>"

lemma demo_get: "GetClient demo_redigo ''h:1'' (NewPool [] 5) (0, {}) = (Inr demo_client, NewPool [] 5, (1, {0}))"
  by (simp add: GetClient_def getClientFromCache_def NewPool_def NewClient_def demo_redigo_def demo_client_def)

lemma demo_good: "isRecyclable demo_redigo (1, {0}) demo_client"
  by (simp add: isRecyclable_def demo_redigo_def demo_client_def)

lemma demo_put: "PutClient demo_redigo demo_client (NewPool [] 5) (1, {0}) = (demo_pool, (1, {0}))"
  using demo_good by (simp add: PutClient_def NewPool_def demo_pool_def demo_client_def)

lemma demo_hit: "GetClient demo_redigo ''h:1'' demo_pool (1, {0}) = (Inr demo_client, demo_pool\<lparr>cached := [''h:1'' \<mapsto> []]\<rparr>, (1, {0}))"
  using demo_good by (simp add: GetClient_def getClientFromCache_def demo_pool_def NewPool_def)

abbreviation demo_step :: "cpool \<times> client list \<times> (nat \<times> nat set) \<Rightarrow> cpool \<times> client list \<times> (nat \<times> nat set) \<Rightarrow> bool" where
  "demo_step \<equiv> lawful_step demo_redigo demo_live demo_seen"

lemma demo_new: "new_pool demo_live (NewPool [] 5, [], (0, {}))"
  by (auto simp: new_pool_def demo_live_def)

lemma demo_steps:
  "demo_step\<^sup>*\<^sup>* (NewPool [] 5, [], (0, {})) (NewPool [] 5, [demo_client], (1, {0}))"
  "cstep demo_redigo (Gave ''h:1'' 0) (NewPool [] 5, [demo_client], (1, {0})) (demo_pool, [], (1, {0}))"
  "demo_step\<^sup>*\<^sup>* (NewPool [] 5, [], (0, {})) (demo_pool, [], (1, {0}))"
proof -
  have "cstep demo_redigo (Got ''h:1'' 0) (NewPool [] 5, [], (0, {})) (NewPool [] 5, [demo_client], (1, {0}))"
    using get_ok [OF demo_get, of "[]"] by (simp add: demo_client_def)
  then have 1: "demo_step (NewPool [] 5, [], (0, {})) (NewPool [] 5, [demo_client], (1, {0}))"
    using demo_laws by (auto simp: lawful_step_def)
  show 2: "cstep demo_redigo (Gave ''h:1'' 0) (NewPool [] 5, [demo_client], (1, {0})) (demo_pool, [], (1, {0}))"
    using give_back [OF demo_put, of "[]" "[]"] by (simp add: demo_client_def)
  then have 3: "demo_step (NewPool [] 5, [demo_client], (1, {0})) (demo_pool, [], (1, {0}))"
    using demo_laws by (auto simp: lawful_step_def)
  show "demo_step\<^sup>*\<^sup>* (NewPool [] 5, [], (0, {})) (NewPool [] 5, [demo_client], (1, {0}))" using 1 by blast
  then show "demo_step\<^sup>*\<^sup>* (NewPool [] 5, [], (0, {})) (demo_pool, [], (1, {0}))" using 3 by (rule rtranclp.rtrancl_into_rtrancl)
qed

theorem no_connection_leaks_witness:
  "demo_live (1, {0}) = {0} \<and> demo_live (1, {0}) \<subseteq> idle_ids demo_pool \<union> ids []"
  using no_connection_leaks [OF demo_laws demo_new demo_steps(3)] by (simp add: demo_live_def)

theorem client_usable_witness:
  "cAddr demo_client = ''h:1'' \<and> cconn demo_client \<notin> ids [] \<and>
   cconn demo_client \<notin> idle_ids (demo_pool\<lparr>cached := [''h:1'' \<mapsto> []]\<rparr>) \<and> pSend demo_client = pRecv demo_client"
  using client_usable [OF demo_laws demo_new demo_steps(3) demo_hit] by simp

theorem pool_refines_witness:
  "aspec (Gave ''h:1'' 0) (idle_of (NewPool [] 5)) (idle_of demo_pool) \<and> idle_of demo_pool = ({(''h:1'', 0)}, False)"
proof
  show "aspec (Gave ''h:1'' 0) (idle_of (NewPool [] 5)) (idle_of demo_pool)"
    using pool_refines [OF demo_laws demo_new demo_steps(1,2)] by simp
  show "idle_of demo_pool = ({(''h:1'', 0)}, False)"
    by (auto simp: idle_of_def at_addr_def demo_pool_def NewPool_def demo_client_def split: if_splits)
qed

text \<open>
  \<open>SetMaster\<close> counts the five commands it sends but not their replies, which \<open>Do\<close> reads: the client
  is never recyclable again.
\<close>

lemma send_all_counts:
  "(\<And>m n w. fst (rsend L n (fst m) (snd m) w) = None) \<Longrightarrow> send_all L ms c w = (c1, w1) \<Longrightarrow>
     pSend c1 = pSend c + of_nat (length ms) \<and> pRecv c1 = pRecv c"
proof (induction ms arbitrary: c w)
  case Nil
  then show ?case by simp
next
  case (Cons m ms)
  obtain w2 where "rsend L (cconn c) (fst m) (snd m) w = (None, w2)" using Cons.prems(1) by (metis prod.collapse)
  then have "send_all L ms (c\<lparr>pSend := pSend c + 1\<rparr>) w2 = (c1, w1)" using Cons.prems(2) by (simp add: ClientSend_def)
  from Cons.IH [OF Cons.prems(1) this] show ?case by (simp add: algebra_simps)
qed

lemma ClientDo_counts: "ClientDo L cmd args c w = (r, c1, w1) \<Longrightarrow> pSend c1 = pSend c \<and> pRecv c1 = pRecv c"
  by (auto simp: ClientDo_def answer_reply_def split: sum.splits prod.splits option.splits)

lemma SetMaster_counts:
  assumes "\<And>m n w. fst (rsend L n (fst m) (snd m) w) = None" "SetMaster L master c w = (Inr (), c2, w2)" "pSend c = pRecv c"
  shows "\<not> isRecyclable L w' c2"
proof -
  obtain h q where hp: "SplitHostPort master = Inr (h, q)" using assms(2) by (auto simp: SetMaster_def split: sum.splits)
  obtain c1 w1 where s: "send_all L (master_commands (cAuth c) h q) c w = (c1, w1)" by (metis surj_pair)
  have "pSend c1 = pSend c + 5" "pRecv c1 = pRecv c"
    using send_all_counts [OF assms(1) s] by (simp_all add: master_commands_def)
  moreover have "pSend c2 = pSend c1 \<and> pRecv c2 = pRecv c1"
    using assms(2) hp s by (auto simp: SetMaster_def and_then_def give_def dest!: ClientDo_counts split: sum.splits prod.splits option.splits)
  ultimately have "pSend c2 \<noteq> pRecv c2" using assms(3) by simp
  then show ?thesis by (simp add: isRecyclable_def)
qed

end
