(* ===== verification/SentinelCall.thy ===== *)
theory SentinelCall
  imports Sentinel ClientPool
begin

section \<open>Asking one sentinel\<close>

text \<open>
  Models the first half of \<open>pkg/utils/redis/sentinel.go\<close>: the type \<open>Sentinel\<close> with its context, and
  \<open>do\<close> and \<open>dispatch\<close>, which make a client for one question. \<open>Sentinel\<close> models what is made of the
  answers. A question is a command of a client, as in \<open>Client\<close>; printing and error hooks are left out.
\<close>

record sentinel =
  sProduct :: string
  sAuth :: string
  sCanceled :: bool

definition NewSentinel :: "string \<Rightarrow> string \<Rightarrow> sentinel" where
  "NewSentinel product auth = \<lparr>sProduct = product, sAuth = auth, sCanceled = False\<rparr>"

definition CancelSentinel :: "sentinel \<Rightarrow> sentinel" where
  "CancelSentinel s = s\<lparr>sCanceled := True\<rparr>"

definition IsCanceled :: "sentinel \<Rightarrow> bool" where
  "IsCanceled s = sCanceled s"

definition sentinel_do :: "('v, 'w) redigo \<Rightarrow> string \<Rightarrow> int \<Rightarrow> ('a, 'w) cmd \<Rightarrow> 'w \<Rightarrow> (goerror + 'a) \<times> 'w" where
  "sentinel_do L addr timeout fn w =
     (case NewClientNoAuth L addr timeout w of
        (Inl e, w1) \<Rightarrow> (Inl e, w1)
      | (Inr c, w1) \<Rightarrow> (case fn c w1 of (r, c', w2) \<Rightarrow> (r, CloseClient L c w2)))"

text \<open>
  \<open>dispatch\<close> asks in a goroutine of its own. The question is answered before the context ends, or it
  is not: then the client is closed while the goroutine still uses it, which is before or after it
  asked. What it would have answered is lost.
\<close>

datatype race = AnsweredFirst | AskedThenDone ctxerr | DoneThenAsked ctxerr

definition dispatchSentinel :: "('v, 'w) redigo \<Rightarrow> race \<Rightarrow> string \<Rightarrow> int \<Rightarrow> ((string \<rightharpoonup> string) list, 'w) cmd \<Rightarrow> 'w \<Rightarrow> asked \<times> 'w" where
  "dispatchSentinel L rc addr timeout fn w =
     (case NewClientNoAuth L addr timeout w of
        (Inl e, w1) \<Rightarrow> (NoClient e, w1)
      | (Inr c, w1) \<Rightarrow>
          (case rc of
             AnsweredFirst \<Rightarrow> (case fn c w1 of (r, c', w2) \<Rightarrow> (Asked r, CloseClient L c w2))
           | AskedThenDone e \<Rightarrow> (case fn c w1 of (r, c', w2) \<Rightarrow> (CtxDone e, CloseClient L c w2))
           | DoneThenAsked e \<Rightarrow> (case fn c (CloseClient L c w1) of (r, c', w2) \<Rightarrow> (CtxDone e, w2))))"

text \<open>The question of \<open>mastersCommand\<close>, with its deferred close of a client that is no longer good.\<close>

definition masters_question :: "('v, 'w) redigo \<Rightarrow> ('v \<Rightarrow> goerror + (string \<rightharpoonup> string)) \<Rightarrow> ((string \<rightharpoonup> string) list, 'w) cmd" where
  "masters_question L StringMap c w =
     (case ClientDo L ''SENTINEL'' [SArg ''masters''] c w of
        (q, c1, w1) \<Rightarrow>
          (mastersCommand StringMap (case q of Inl e \<Rightarrow> Inl e | Inr v \<Rightarrow> toValues L v), c1,
           if isRecyclable L w1 c1 then w1 else CloseClient L c1 w1))"

definition ask_masters :: "('v, 'w) redigo \<Rightarrow> ('v \<Rightarrow> goerror + (string \<rightharpoonup> string)) \<Rightarrow> (ctxerr \<Rightarrow> goerror) \<Rightarrow> race \<Rightarrow> string \<Rightarrow> int \<Rightarrow> 'w
    \<Rightarrow> ((string \<rightharpoonup> sentinelMaster) option \<times> goerror option) \<times> 'w" where
  "ask_masters L StringMap ctx_error rc addr timeout w =
     (case dispatchSentinel L rc addr timeout (masters_question L StringMap) w of (a, w1) \<Rightarrow> (mastersDispatch ctx_error a, w1))"

subsection \<open>No connection stays open\<close>

lemma own_masters [own_conn_rules]:
  assumes "redigo_laws L lv sn"
  shows "own_conn lv sn (masters_question L StringMap)"
  unfolding own_conn_def
proof (intro allI impI)
  fix c w r c2 w2 assume a: "masters_question L StringMap c w = (r, c2, w2)"
  obtain q c1 w1 where d: "ClientDo L ''SENTINEL'' [SArg ''masters''] c w = (q, c1, w1)" by (metis prod_cases3)
  then have "keeps lv sn c w c1 w1" using own_connD [OF own_Do [OF assms]] by blast
  then show "keeps lv sn c w c2 w2"
    using a d law_close [OF assms] by (auto simp: masters_question_def keeps_def split: if_splits)
qed

lemma new_client_live:
  assumes "redigo_laws L lv sn" "NewClientNoAuth L addr timeout w = (Inr c, w1)" "lv w \<subseteq> sn w"
  shows "lv w1 = insert (cconn c) (lv w) \<and> cconn c \<notin> lv w \<and> sn w1 = insert (cconn c) (sn w)"
  using assms law_dial [OF assms(1)] by (auto simp: NewClientNoAuth_def NewClient_def split: prod.splits sum.splits)

lemma new_client_failed:
  assumes "redigo_laws L lv sn" "NewClientNoAuth L addr timeout w = (Inl e, w1)"
  shows "lv w1 = lv w \<and> sn w1 = sn w"
  using assms law_dial_err [OF assms(1)] by (auto simp: NewClientNoAuth_def NewClient_def split: prod.splits sum.splits)

lemma used_and_closed:
  assumes "redigo_laws L lv sn" "keeps lv sn c w1 c1 w2" "lv w1 = insert (cconn c) A" "cconn c \<notin> A"
  shows "lv (CloseClient L c w2) = A"
  using assms law_close [OF assms(1), of c w2] by (auto simp: keeps_def)

text \<open>Also a question that is asked on the closed client opens nothing.\<close>

lemma closed_and_used:
  assumes "redigo_laws L lv sn" "keeps lv sn c (CloseClient L c w1) c1 w2" "lv w1 = insert (cconn c) A" "cconn c \<notin> A"
  shows "lv w2 = A"
  using assms law_close [OF assms(1), of c w1] by (auto simp: keeps_def)

lemma do_closes:
  assumes "redigo_laws L lv sn" "own_conn lv sn fn" "lv w \<subseteq> sn w"
  shows "lv (snd (sentinel_do L addr timeout fn w)) = lv w"
proof (cases "NewClientNoAuth L addr timeout w")
  case (Pair q w1)
  show ?thesis
  proof (cases q)
    case (Inl e)
    then show ?thesis using Pair new_client_failed [OF assms(1)] by (auto simp: sentinel_do_def)
  next
    case (Inr c)
    obtain r c1 w2 where f: "fn c w1 = (r, c1, w2)" by (metis prod_cases3)
    have n: "lv w1 = insert (cconn c) (lv w)" "cconn c \<notin> lv w"
      using new_client_live [OF assms(1) _ assms(3)] Pair Inr by auto
    show ?thesis using used_and_closed [OF assms(1) own_connD [OF assms(2) f] n] Pair Inr f by (simp add: sentinel_do_def)
  qed
qed

lemma dispatch_closes:
  assumes "redigo_laws L lv sn" "own_conn lv sn fn" "lv w \<subseteq> sn w"
  shows "lv (snd (dispatchSentinel L rc addr timeout fn w)) = lv w"
proof (cases "NewClientNoAuth L addr timeout w")
  case (Pair q w1)
  show ?thesis
  proof (cases q)
    case (Inl e)
    then show ?thesis using Pair new_client_failed [OF assms(1)] by (auto simp: dispatchSentinel_def)
  next
    case (Inr c)
    have n: "lv w1 = insert (cconn c) (lv w)" "cconn c \<notin> lv w"
      using new_client_live [OF assms(1) _ assms(3)] Pair Inr by auto
    obtain r c1 w2 where f: "fn c w1 = (r, c1, w2)" by (metis prod_cases3)
    obtain r' c1' w2' where f': "fn c (CloseClient L c w1) = (r', c1', w2')" by (metis prod_cases3)
    show ?thesis
      using used_and_closed [OF assms(1) own_connD [OF assms(2) f] n] closed_and_used [OF assms(1) own_connD [OF assms(2) f'] n] Pair Inr f f'
      by (cases rc) (simp_all add: dispatchSentinel_def)
  qed
qed

text \<open>
  C36. Asking a sentinel leaves nothing behind. Whether the sentinel can be reached, answers, answers with an
  error or not at all before the context ends, and even if the question is asked on the client after it
  was closed, afterwards exactly the connections are open that were open before. Masters come only from
  an answer; an end of the context is an error unless it was cancelled.
\<close>

theorem sentinel_question_closes:
  assumes "redigo_laws L lv sn" "lv w \<subseteq> sn w" "ask_masters L StringMap ctx_error rc addr timeout w = ((ms, err), w')"
  shows "lv w' = lv w \<and> (ms \<noteq> None \<longrightarrow> rc = AnsweredFirst \<and> err = None)
    \<and> (rc = AskedThenDone DeadlineExceeded \<or> rc = DoneThenAsked DeadlineExceeded \<longrightarrow> ms = None \<and> err \<noteq> None)"
proof -
  obtain a where a: "dispatchSentinel L rc addr timeout (masters_question L StringMap) w = (a, w')" "mastersDispatch ctx_error a = (ms, err)"
    using assms(3) by (auto simp: ask_masters_def split: prod.splits)
  have "lv w' = lv w" using dispatch_closes [OF assms(1) own_masters [OF assms(1)] assms(2)] a(1) by (metis snd_conv)
  moreover have "a = NoClient e \<or> rc = AnsweredFirst \<or> a = CtxDone (case rc of AskedThenDone d \<Rightarrow> d | DoneThenAsked d \<Rightarrow> d)"
    if "\<And>e'. a = NoClient e' \<Longrightarrow> e' = e" for e
    using a(1) that by (auto simp: dispatchSentinel_def split: prod.splits sum.splits race.splits)
  then have "(\<exists>e. a = NoClient e) \<or> rc = AnsweredFirst \<or> a = CtxDone (case rc of AskedThenDone d \<Rightarrow> d | DoneThenAsked d \<Rightarrow> d)" by blast
  ultimately show ?thesis
    using a(2) by (auto simp: mastersDispatch_def split: asked.splits ctxerr.splits sum.splits if_splits)
qed

theorem sentinel_question_closes_witness:
  "\<exists>ms err w'. ask_masters demo_redigo (\<lambda>_. Inl (ErrNew [])) (\<lambda>_. ErrNew ''deadline'') (DoneThenAsked DeadlineExceeded) ''h:26379'' 5 (0, {})
       = ((ms, err), w') \<and> demo_live w' = {} \<and> ms = None \<and> err \<noteq> None"
proof -
  obtain ms err w' where a: "ask_masters demo_redigo (\<lambda>_. Inl (ErrNew [])) (\<lambda>_. ErrNew ''deadline'') (DoneThenAsked DeadlineExceeded)
      ''h:26379'' 5 (0, {}) = ((ms, err), w')" by (metis surj_pair)
  have "demo_live (0, {}) \<subseteq> demo_seen (0, {})" by (simp add: demo_live_def)
  from sentinel_question_closes [OF demo_laws this a] show ?thesis using a by (auto simp: demo_live_def)
qed

end
