(* ===== verification/Failover.thy ===== *)
theory Failover
  imports Router Sentinel
begin

section \<open>The zones of the router\<close>

text \<open>
  The rest of \<open>pkg/proxy/router.go\<close>: how the router gets its zones, follows the sentinels and
  closes. The state is the router and the pool its connections are in. \<open>ask\<close> is what
  \<open>Masters\<close> of the sentinels gives for a list of addresses, as the list of its entries in the
  order of the range; \<open>ord\<close> is the order of a range over the zones. \<open>None\<close> is a panic.
\<close>

type_synonym ask = "string list \<Rightarrow> goerror + (string \<times> string) list"

definition new_zone :: "router \<Rightarrow> mzone \<Rightarrow> nat \<Rightarrow> router" where
  "new_zone R z a = R\<lparr>rzones := (rzones R)(mzPrefix z \<mapsto>
     NewZone (mzId z) (Some a) (mzPrefix z) (mzIsSentinel z) (GetAddrs z) (mzMasterName z))\<rparr>"

primrec fill_masters :: "mzone \<Rightarrow> (string \<times> string) list \<Rightarrow> router \<Rightarrow> pool \<Rightarrow> (router \<times> pool) option" where
  "fill_masters z [] R p = Some (R, p)"
| "fill_masters z (m # ms) R p =
     (case PoolRetain (snd m) p of
        None \<Rightarrow> None
      | Some (a, p') \<Rightarrow> fill_masters z ms (if fst m = mzMasterName z then new_zone R z a else R) p')"

primrec fill_loop :: "ask \<Rightarrow> mzone list \<Rightarrow> router \<Rightarrow> pool \<Rightarrow> (goerror option \<times> router \<times> pool) option" where
  "fill_loop ask [] R p = Some (None, R, p)"
| "fill_loop ask (z # zs) R p =
     (if mzPrefix z = currentZonePrefix R \<and> rzones R (currentZonePrefix R) \<noteq> None then fill_loop ask zs R p
      else if mzIsSentinel z then
        (if \<not> monitor R then None
         else
           (case ask (GetAddrs z) of
              Inl e \<Rightarrow> Some (Some (ErrVar ErrGetMaster), R, p)
            | Inr masters \<Rightarrow>
                if length masters = 0 then Some (Some (ErrVar ErrGetMasterZoro), R, p)
                else
                  (case fill_masters z masters R p of
                     None \<Rightarrow> None
                   | Some (R', p') \<Rightarrow> fill_loop ask zs R' p')))
      else
        (case PoolRetain (mzAddrs z) p of
           None \<Rightarrow> None
         | Some (a, p') \<Rightarrow> fill_loop ask zs (new_zone R z a) p'))"

definition FillZone :: "ask \<Rightarrow> mzone list \<Rightarrow> router \<Rightarrow> pool \<Rightarrow> (goerror option \<times> router \<times> pool) option" where
  "FillZone ask pzones R p =
     (if rclosed R then Some (Some (ErrVar ErrClosedRouter), R, p) else fill_loop ask pzones R p)"

primrec close_zones :: "(string \<rightharpoonup> zone) \<Rightarrow> string list \<Rightarrow> pool \<Rightarrow> pool option" where
  "close_zones m [] p = Some p"
| "close_zones m (k # ks) p =
     (case m k of
        None \<Rightarrow> close_zones m ks p
      | Some z \<Rightarrow> (case ReleaseConn (zbc z) p of None \<Rightarrow> None | Some p' \<Rightarrow> close_zones m ks p'))"

definition CloseRouter :: "string list \<Rightarrow> router \<Rightarrow> pool \<Rightarrow> (router \<times> pool) option" where
  "CloseRouter ord R p =
     (if rclosed R then Some (R, p)
      else
        (case close_zones (rzones R) ord p of
           None \<Rightarrow> None
         | Some p' \<Rightarrow> Some (R\<lparr>rzones := Map.empty, rclosed := True\<rparr>, p')))"

definition GetZones :: "string list \<Rightarrow> (nat \<Rightarrow> bool) \<Rightarrow> router \<Rightarrow> pool \<Rightarrow> mzone option list" where
  "GetZones ord up R p = map (\<lambda>k. case rzones R k of None \<Rightarrow> None | Some z \<Rightarrow> snapshot p up z) ord"

primrec switch_loop :: "ask \<Rightarrow> string list \<Rightarrow> router \<Rightarrow> pool \<Rightarrow> (goerror option \<times> router \<times> pool) option" where
  "switch_loop ask [] R p = Some (None, R, p)"
| "switch_loop ask (k # ks) R p =
     (case rzones R k of
        None \<Rightarrow> switch_loop ask ks R p
      | Some z \<Rightarrow>
          if \<not> zsentinel z then switch_loop ask ks R p
          else if \<not> monitor R then None
          else
            (let res = ask (zaddrs z);
                 err = (case res of Inl e \<Rightarrow> Some e | Inr _ \<Rightarrow> None);
                 masters = (case res of Inl _ \<Rightarrow> Map.empty | Inr ms \<Rightarrow> map_of ms)
             in case masters (zmaster z) of
                  None \<Rightarrow> Some (err, R, p)
                | Some masterAddr \<Rightarrow>
                    (case shared_of p (zbc z) of
                       None \<Rightarrow> None
                     | Some s \<Rightarrow>
                         if saddr s \<noteq> masterAddr then
                           (case PoolRetain masterAddr p of
                              None \<Rightarrow> None
                            | Some (a, p1) \<Rightarrow>
                                (case ChangeConn (Some a) z p1 of
                                   None \<Rightarrow> None
                                 | Some (z', p2) \<Rightarrow> switch_loop ask ks (R\<lparr>rzones := (rzones R)(k \<mapsto> z')\<rparr>) p2))
                         else switch_loop ask ks R p)))"

definition SentinelSwitch :: "ask \<Rightarrow> string list \<Rightarrow> router \<Rightarrow> pool \<Rightarrow> (goerror option \<times> router \<times> pool) option" where
  "SentinelSwitch ask ord R p =
     (if rclosed R then Some (Some (ErrVar ErrClosedRouter), R, p) else switch_loop ask ord R p)"

text \<open>The list of zones is read from the current zone; \<open>ListZone\<close> is the library's JSON decoder.\<close>

definition loadZoneInfo :: "(bytes \<Rightarrow> goerror + mzone list) \<Rightarrow> 'w net \<Rightarrow> zone option \<Rightarrow> string \<Rightarrow> 'w
    \<Rightarrow> (goerror + mzone list) option \<times> 'w" where
  "loadZoneInfo ListZone n z key w =
     (case forward_to n z (GetRequest 0 key) w of
        (None, w1) \<Rightarrow> (None, w1)
      | (Some r, w1) \<Rightarrow>
          (case rResp r of
             None \<Rightarrow> (None, w1)
           | Some v \<Rightarrow>
               (case rvalue v of
                  None \<Rightarrow> (Some (Inr []), w1)
                | Some b \<Rightarrow> (Some (ListZone b), w1))))"

definition NewRouter :: "ask \<Rightarrow> (bytes \<Rightarrow> goerror + mzone list) \<Rightarrow> 'w net \<Rightarrow> config \<Rightarrow> 'w \<Rightarrow> (router \<times> pool) option \<times> 'w" where
  "NewRouter ask ListZone n c w =
     (let R0 = \<lparr>rzones = Map.empty, currentZonePrefix = CurrZonePrefix c, online = False, rclosed = False,
                zoneSpr = ZoneSpr4key c, monitor = SentinelMode c\<rparr>;
          p0 = NewSharedBackendConnPool (nat (BackendNumberDatabases c)) (BackendPrimaryParallel c);
          zonemA = \<lparr>mzId = 1, mzAddrs = CurrZoneAddr c, mzPrefix = CurrZonePrefix c, mzIsSentinel = SentinelMode c,
                    mzMasterName = ''mymaster'', mzIsConnected = False\<rparr>
      in case FillZone ask [zonemA] R0 p0 of
           None \<Rightarrow> (None, w)
         | Some (_, R1, p1) \<Rightarrow>
             (case loadZoneInfo ListZone (n\<lparr>npool := p1\<rparr>) (rzones R1 (CurrZonePrefix c)) (ZoneInfoKey c) w of
                (None, w1) \<Rightarrow> (None, w1)
              | (Some (Inl e), w1) \<Rightarrow> (Some (R1, p1), w1)
              | (Some (Inr zones), w1) \<Rightarrow>
                  (case FillZone ask zones R1 p1 of
                     None \<Rightarrow> (None, w1)
                   | Some (_, R2, p2) \<Rightarrow> (Some (R2, p2), w1))))"

subsection \<open>References held by the zones\<close>

definition zconn :: "(string \<rightharpoonup> zone) \<Rightarrow> string \<Rightarrow> nat option" where
  "zconn m k = (case m k of None \<Rightarrow> None | Some z \<Rightarrow> zbc z)"

definition zone_refs :: "(string \<rightharpoonup> zone) \<Rightarrow> nat \<Rightarrow> nat" where
  "zone_refs m a = card {k. zconn m k = Some a}"

lemma zconn_upd: "zconn (m(k \<mapsto> z)) = (zconn m)(k := zbc z)"
  by (simp add: zconn_def fun_eq_iff)

lemma zconn_finite: "finite (dom m) \<Longrightarrow> finite {k. zconn m k = Some a}"
  by (rule finite_subset [of _ "dom m"]) (auto simp: zconn_def split: option.splits)

lemma zone_refs_upd:
  assumes "finite (dom m)"
  shows "zone_refs (m(k \<mapsto> z)) a \<le> zone_refs m a + (if zbc z = Some a then 1 else 0)"
proof -
  have "{j. zconn (m(k \<mapsto> z)) j = Some a} \<subseteq> (if zbc z = Some a then insert k {j. zconn m j = Some a} else {j. zconn m j = Some a})"
    by (auto simp: zconn_upd)
  then have "zone_refs (m(k \<mapsto> z)) a \<le> card (if zbc z = Some a then insert k {j. zconn m j = Some a} else {j. zconn m j = Some a})"
    unfolding zone_refs_def using zconn_finite [OF assms] by (intro card_mono) auto
  also have "\<dots> \<le> zone_refs m a + (if zbc z = Some a then 1 else 0)"
    using card_insert_le_m1 by (auto simp: zone_refs_def card_insert_if zconn_finite [OF assms])
  finally show ?thesis .
qed

lemma zone_refs_replace:
  assumes "finite (dom m)" "zconn m k = Some o'" "zbc z \<noteq> Some o'"
  shows "Suc (zone_refs (m(k \<mapsto> z)) o') = zone_refs m o'"
proof -
  have "{j. zconn m j = Some o'} = insert k {j. zconn (m(k \<mapsto> z)) j = Some o'}" "k \<notin> {j. zconn (m(k \<mapsto> z)) j = Some o'}"
    using assms(2,3) by (auto simp: zconn_upd)
  moreover have "finite {j. zconn (m(k \<mapsto> z)) j = Some o'}" using zconn_finite [of "m(k \<mapsto> z)"] assms(1) by simp
  ultimately show ?thesis by (simp add: zone_refs_def)
qed

text \<open>
  The invariant: the pool's counts are exact for some count of references, and the zones, which
  all have a connection, hold no more than that. \<open>pool_shape\<close> is what every connection looks like.
\<close>

definition conn_shape :: "nat \<Rightarrow> nat \<Rightarrow> sharedConn \<Rightarrow> bool" where
  "conn_shape ndb par s \<longleftrightarrow> length (sconns s) = ndb \<and> (\<forall>row \<in> set (sconns s). row \<noteq> []) \<and>
     ssingle s = (if par = 1 then Some (map (\<lambda>row. row ! 0) (sconns s)) else None)"

definition pool_shape :: "nat \<Rightarrow> pool \<Rightarrow> bool" where
  "pool_shape ndb p \<longleftrightarrow> numDatabases p = ndb \<and> 0 < parallel p \<and>
     (\<forall>a s. heap p a = Some s \<longrightarrow> conn_shape ndb (parallel p) s)"

definition router_inv :: "nat \<Rightarrow> router \<times> pool \<Rightarrow> bool" where
  "router_inv ndb s \<longleftrightarrow> finite (dom (rzones (fst s))) \<and> pool_shape ndb (snd s) \<and>
     (\<forall>k z. rzones (fst s) k = Some z \<longrightarrow> zbc z \<noteq> None) \<and>
     (\<exists>refs. pool_inv refs (snd s) \<and> (\<forall>a. zone_refs (rzones (fst s)) a \<le> refs a))"

lemma retain_shape [inv_preserved]:
  assumes "pool_shape ndb p" "PoolRetain addr p = Some (a, p')"
  shows "pool_shape ndb p'"
proof (cases "ppool p addr")
  case None
  have "conn_shape ndb (parallel p) \<lparr>saddr = addr, sconns = conn_rows (nextBC p) (numDatabases p) (parallel p),
      ssingle = (if parallel p = 1 then Some (map (\<lambda>row. row ! 0) (conn_rows (nextBC p) (numDatabases p) (parallel p))) else None), refcnt = 1\<rparr>"
    using assms(1) by (auto simp: conn_shape_def pool_shape_def conn_rows_def)
  then show ?thesis using assms None
    by (auto simp: PoolRetain_def newSharedBackendConn_def Let_def pool_shape_def split: if_splits)
next
  case (Some b)
  then obtain s where s: "heap p b = Some s" "p' = p\<lparr>heap := (heap p)(b \<mapsto> s\<lparr>refcnt := refcnt s + 1\<rparr>)\<rparr>"
    using assms(2) by (auto simp: PoolRetain_def RetainConn_def split: option.splits if_splits)
  then show ?thesis using assms(1) by (auto simp: pool_shape_def conn_shape_def)
qed

lemma release_shape [inv_preserved]:
  assumes "pool_shape ndb p" "ReleaseConn c p = Some p'"
  shows "pool_shape ndb p'"
proof (cases c)
  case None
  then show ?thesis using assms by (simp add: ReleaseConn_def)
next
  case (Some a)
  then obtain s where s: "heap p a = Some s" "heap p' = (heap p)(a \<mapsto> s\<lparr>refcnt := refcnt s - 1\<rparr>)"
    "numDatabases p' = numDatabases p" "parallel p' = parallel p"
    using assms(2) by (auto simp: ReleaseConn_def Let_def split: option.splits if_splits)
  then show ?thesis using assms(1) by (auto simp: pool_shape_def conn_shape_def)
qed

lemma router_invI:
  assumes "finite (dom (rzones R))" "pool_shape ndb p" "\<forall>k z. rzones R k = Some z \<longrightarrow> zbc z \<noteq> None"
    "pool_inv refs p" "\<forall>a. zone_refs (rzones R) a \<le> refs a"
  shows "router_inv ndb (R, p)"
  using assms by (auto simp: router_inv_def)

lemma router_invE:
  assumes "router_inv ndb (R, p)"
  obtains refs where "finite (dom (rzones R))" "pool_shape ndb p" "\<forall>k z. rzones R k = Some z \<longrightarrow> zbc z \<noteq> None"
    "pool_inv refs p" "\<forall>a. zone_refs (rzones R) a \<le> refs a"
  using assms by (auto simp: router_inv_def)

text \<open>Taking a reference never panics, and it may be given to a new zone or kept by nobody.\<close>

lemma retain_inv:
  assumes "router_inv ndb (R, p)"
  obtains a p' where "PoolRetain addr p = Some (a, p')" "router_inv ndb (R, p')" "router_inv ndb (new_zone R z a, p')"
proof -
  obtain refs where i: "finite (dom (rzones R))" "pool_shape ndb p" "\<forall>k z. rzones R k = Some z \<longrightarrow> zbc z \<noteq> None"
    "pool_inv refs p" "\<forall>a. zone_refs (rzones R) a \<le> refs a"
    using assms by (rule router_invE)
  obtain a p' where r: "PoolRetain addr p = Some (a, p')" "pool_inv (refs(a := Suc (refs a))) p'"
    using PoolRetain_inv [OF i(4)] by blast
  have le: "zone_refs (rzones R) b \<le> (refs(a := Suc (refs a))) b" for b using i(5) by (simp add: le_SucI)
  have le': "zone_refs (rzones (new_zone R z a)) b \<le> (refs(a := Suc (refs a))) b" for b
    using zone_refs_upd [OF i(1), of "mzPrefix z" "NewZone (mzId z) (Some a) (mzPrefix z) (mzIsSentinel z) (GetAddrs z) (mzMasterName z)" b]
      spec [OF i(5), of b]
    by (auto simp: new_zone_def NewZone_def split: if_splits)
  have "router_inv ndb (R, p')"
    using i(1,3) retain_shape [OF i(2) r(1)] r(2) le by (intro router_invI) auto
  moreover have "router_inv ndb (new_zone R z a, p')"
    using i(1,3) retain_shape [OF i(2) r(1)] r(2) le'
    by (intro router_invI [of "new_zone R z a" ndb p' "refs(a := Suc (refs a))"]) (auto simp: new_zone_def NewZone_def)
  ultimately show ?thesis using that r(1) by blast
qed

lemma new_zone_fields [simp]:
  "monitor (new_zone R z a) = monitor R" "rclosed (new_zone R z a) = rclosed R"
  "currentZonePrefix (new_zone R z a) = currentZonePrefix R"
  by (simp_all add: new_zone_def)

text \<open>What filling in keeps of a router: its settings and the zones it has.\<close>

definition extends :: "router \<Rightarrow> router \<Rightarrow> bool" where
  "extends R R' \<longleftrightarrow> monitor R' = monitor R \<and> currentZonePrefix R' = currentZonePrefix R \<and>
     rclosed R' = rclosed R \<and> online R' = online R \<and> zoneSpr R' = zoneSpr R \<and> dom (rzones R) \<subseteq> dom (rzones R')"

lemma extends_refl [simp]: "extends R R"
  and extends_trans: "extends R R' \<Longrightarrow> extends R' R'' \<Longrightarrow> extends R R''"
  and extends_new [simp]: "extends R (new_zone R z a)"
  by (auto simp: extends_def new_zone_def)

lemma fill_masters_inv:
  "router_inv ndb (R, p) \<Longrightarrow> \<exists>R' p'. fill_masters z ms R p = Some (R', p') \<and> router_inv ndb (R', p') \<and> extends R R'"
proof (induction ms arbitrary: R p)
  case Nil
  then show ?case by simp
next
  case (Cons m ms)
  obtain a p' where r: "PoolRetain (snd m) p = Some (a, p')" "router_inv ndb (R, p')" "router_inv ndb (new_zone R z a, p')"
    by (rule retain_inv [OF Cons.prems])
  have "\<exists>R' p''. fill_masters z ms (new_zone R z a) p' = Some (R', p'') \<and> router_inv ndb (R', p'') \<and> extends R R'"
    using Cons.IH [OF r(3)] extends_trans [OF extends_new] by blast
  then show ?case using r Cons.IH [OF r(2)] by simp
qed

lemma fill_loop_inv [inv_preserved]:
  "router_inv ndb (R, p) \<Longrightarrow>
   (case fill_loop ask zs R p of
      None \<Rightarrow> \<not> monitor R \<and> (\<exists>z \<in> set zs. mzIsSentinel z)
    | Some (err, R', p') \<Rightarrow> router_inv ndb (R', p') \<and> extends R R')"
proof (induction zs arbitrary: R p)
  case Nil
  then show ?case by simp
next
  case (Cons z zs)
  have rest: "case fill_loop ask zs R1 p1 of
      None \<Rightarrow> \<not> monitor R \<and> (\<exists>z \<in> set zs. mzIsSentinel z)
    | Some (err, R', p') \<Rightarrow> router_inv ndb (R', p') \<and> extends R R'"
    if inv: "router_inv ndb (R1, p1)" and ext: "extends R R1" for R1 p1
    using Cons.IH [OF inv] extends_trans [OF ext] ext
    by (auto simp: extends_def split: option.splits)
  show ?case
  proof (cases "mzPrefix z = currentZonePrefix R \<and> rzones R (currentZonePrefix R) \<noteq> None")
    case True
    then show ?thesis using rest [OF Cons.prems] by (auto split: option.splits)
  next
    case other: False
    show ?thesis
    proof (cases "mzIsSentinel z")
      case True
      show ?thesis
      proof (cases "\<not> monitor R \<or> (\<exists>e. ask (GetAddrs z) = Inl e) \<or> ask (GetAddrs z) = Inr []")
        case True
        then show ?thesis using other \<open>mzIsSentinel z\<close> Cons.prems by auto
      next
        case False
        then obtain ms where ms: "ask (GetAddrs z) = Inr ms" "ms \<noteq> []" "monitor R" by (cases "ask (GetAddrs z)") auto
        obtain R1 p1 where f: "fill_masters z ms R p = Some (R1, p1)" "router_inv ndb (R1, p1)" "extends R R1"
          using fill_masters_inv [OF Cons.prems] by blast
        then show ?thesis using rest [OF f(2,3)] other True ms by (auto split: option.splits)
      qed
    next
      case False
      obtain a p' where r: "PoolRetain (mzAddrs z) p = Some (a, p')" "router_inv ndb (new_zone R z a, p')"
        by (rule retain_inv [OF Cons.prems])
      then show ?thesis using rest [OF r(2) extends_new] other False by (auto split: option.splits)
    qed
  qed
qed

text \<open>A switch takes the new reference before it gives the old one back.\<close>

lemma ChangeConn_inv:
  assumes "router_inv ndb (R, p)" "rzones R k = Some z" "shared_of p (zbc z) = Some s" "saddr s \<noteq> addr"
  shows "\<exists>a p1 z' p2. PoolRetain addr p = Some (a, p1) \<and> ChangeConn (Some a) z p1 = Some (z', p2) \<and>
    router_inv ndb (R\<lparr>rzones := (rzones R)(k \<mapsto> z')\<rparr>, p2)"
proof -
  obtain refs where i: "finite (dom (rzones R))" "pool_shape ndb p" "\<forall>k z. rzones R k = Some z \<longrightarrow> zbc z \<noteq> None"
    "pool_inv refs p" "\<forall>a. zone_refs (rzones R) a \<le> refs a"
    using assms(1) by (rule router_invE)
  obtain a p1 t where r: "PoolRetain addr p = Some (a, p1)" "pool_inv (refs(a := Suc (refs a))) p1" "heap p1 a = Some t" "saddr t = addr"
    using PoolRetain_inv [OF i(4)] by blast
  obtain o' where o': "zbc z = Some o'" "heap p o' = Some s"
    using assms(3) by (auto simp: shared_of_def split: option.splits)
  have ne: "a \<noteq> o'"
  proof
    assume "a = o'"
    have "\<exists>s'. heap p1 o' = Some s' \<and> saddr s' = saddr s"
    proof (cases "ppool p addr")
      case (Some b)
      then show ?thesis using r(1) o'(2) by (auto simp: PoolRetain_def RetainConn_def split: option.splits if_splits)
    next
      case None
      then have "a = nextPtr p" using r(1) by (auto simp: PoolRetain_def newSharedBackendConn_def Let_def)
      then show ?thesis using \<open>a = o'\<close> pool_ptr [OF i(4) o'(2)] by simp
    qed
    then show False using \<open>a = o'\<close> r(3,4) assms(4) by simp
  qed
  have zc: "zconn (rzones R) k = Some o'" using assms(2) o'(1) by (simp add: zconn_def)
  let ?z = "z\<lparr>zbc := Some a\<rparr>" and ?refs1 = "refs(a := Suc (refs a))"
  have cnt: "Suc (zone_refs ((rzones R)(k \<mapsto> ?z)) o') = zone_refs (rzones R) o'"
    using zone_refs_replace [OF i(1) zc, of ?z] ne by simp
  then have pos: "0 < ?refs1 o'" using spec [OF i(5), of o'] ne by simp
  obtain p2 where rel: "ReleaseConn (Some o') p1 = Some p2" "pool_inv (?refs1(o' := ?refs1 o' - 1)) p2"
    using ReleaseConn_inv [OF r(2) pos] by blast
  have c: "ChangeConn (Some a) z p1 = Some (?z, p2)" using o'(1) rel(1) by (simp add: ChangeConn_def)
  have le: "zone_refs ((rzones R)(k \<mapsto> ?z)) b \<le> (?refs1(o' := ?refs1 o' - 1)) b" for b
  proof (cases "b = o'")
    case True
    then show ?thesis using cnt spec [OF i(5), of o'] ne by simp
  next
    case False
    then show ?thesis using zone_refs_upd [OF i(1), of k ?z b] spec [OF i(5), of b] by (auto split: if_splits)
  qed
  have "router_inv ndb (R\<lparr>rzones := (rzones R)(k \<mapsto> ?z)\<rparr>, p2)"
  proof (rule router_invI [OF _ _ _ rel(2)])
    show "finite (dom (rzones (R\<lparr>rzones := (rzones R)(k \<mapsto> ?z)\<rparr>)))" using i(1) by simp
    show "pool_shape ndb p2" using release_shape [OF retain_shape [OF i(2) r(1)] rel(1)] .
    show "\<forall>k' z'. rzones (R\<lparr>rzones := (rzones R)(k \<mapsto> ?z)\<rparr>) k' = Some z' \<longrightarrow> zbc z' \<noteq> None" using i(3) by simp
    show "\<forall>b. zone_refs (rzones (R\<lparr>rzones := (rzones R)(k \<mapsto> ?z)\<rparr>)) b \<le> (?refs1(o' := ?refs1 o' - 1)) b"
      using le by (simp del: fun_upd_apply)
  qed
  then show ?thesis using r(1) c by blast
qed

lemma zone_connected:
  assumes "router_inv ndb (R, p)" "rzones R k = Some z"
  obtains a s where "zbc z = Some a" "heap p a = Some s" "conn_shape ndb (parallel p) s" "bcs s \<inter> bcClosed p = {}"
proof -
  obtain refs where i: "finite (dom (rzones R))" "pool_shape ndb p" "\<forall>k z. rzones R k = Some z \<longrightarrow> zbc z \<noteq> None"
    "pool_inv refs p" "\<forall>a. zone_refs (rzones R) a \<le> refs a"
    using assms(1) by (rule router_invE)
  obtain a where a: "zbc z = Some a" using i(3) assms(2) by blast
  have "k \<in> {k. zconn (rzones R) k = Some a}" using assms(2) a by (simp add: zconn_def)
  then have "0 < zone_refs (rzones R) a" unfolding zone_refs_def using zconn_finite [OF i(1)] card_gt_0_iff by blast
  then have pos: "0 < refs a" using spec [OF i(5), of a] by simp
  then obtain s where s: "heap p a = Some s" using pool_unheld [OF i(4), of a] by (cases "heap p a") auto
  have "conn_shape ndb (parallel p) s" using i(2) s by (simp add: pool_shape_def)
  then show ?thesis using that a s pool_open [OF i(4) s pos] by blast
qed

lemma switch_loop_inv [inv_preserved]:
  "router_inv ndb (R, p) \<Longrightarrow> (\<exists>z \<in> ran (rzones R). zsentinel z) \<longrightarrow> monitor R \<Longrightarrow>
   \<exists>err R' p'. switch_loop ask ks R p = Some (err, R', p') \<and> router_inv ndb (R', p')"
proof (induction ks arbitrary: R p)
  case Nil
  then show ?case by simp
next
  case (Cons k ks)
  show ?case
  proof (cases "rzones R k")
    case None
    then show ?thesis using Cons by simp
  next
    case (Some z)
    show ?thesis
    proof (cases "zsentinel z")
      case False
      then show ?thesis using Cons Some by simp
    next
      case True
      have mon: "monitor R" using True Some Cons.prems(2) ranI by metis
      let ?ms = "case ask (zaddrs z) of Inl _ \<Rightarrow> Map.empty | Inr ms \<Rightarrow> map_of ms"
      show ?thesis
      proof (cases "?ms (zmaster z)")
        case None
        then show ?thesis using Some True mon Cons.prems(1) by (simp add: Let_def)
      next
        case m: (Some addr)
        obtain a s where s: "zbc z = Some a" "heap p a = Some s" by (rule zone_connected [OF Cons.prems(1) Some])
        have sh: "shared_of p (zbc z) = Some s" using s by (simp add: shared_of_def)
        show ?thesis
        proof (cases "saddr s = addr")
          case same: True
          then show ?thesis using Some True mon m sh Cons by (simp add: Let_def)
        next
          case False
          obtain b p1 z' p2 where c: "PoolRetain addr p = Some (b, p1)" "ChangeConn (Some b) z p1 = Some (z', p2)"
            "router_inv ndb (R\<lparr>rzones := (rzones R)(k \<mapsto> z')\<rparr>, p2)"
            using ChangeConn_inv [OF Cons.prems(1) Some sh False] by blast
          have "(\<exists>z \<in> ran (rzones (R\<lparr>rzones := (rzones R)(k \<mapsto> z')\<rparr>)). zsentinel z) \<longrightarrow> monitor (R\<lparr>rzones := (rzones R)(k \<mapsto> z')\<rparr>)"
            using mon by simp
          from Cons.IH [OF c(3) this] show ?thesis using Some True mon m sh False c(1,2) by (simp add: Let_def)
        qed
      qed
    qed
  qed
qed

text \<open>Closing gives back one reference for every zone that is visited.\<close>

lemma close_zones_inv:
  assumes "distinct ks" "\<forall>k \<in> set ks. zconn m k \<noteq> None" "pool_inv refs p" "pool_shape ndb p"
    "\<forall>a. card {k \<in> set ks. zconn m k = Some a} \<le> refs a"
  shows "\<exists>p' refs'. close_zones m ks p = Some p' \<and> pool_inv refs' p' \<and> pool_shape ndb p'"
  using assms
proof (induction ks arbitrary: p refs)
  case Nil
  then show ?case by auto
next
  case (Cons k ks)
  obtain z a where z: "m k = Some z" "zbc z = Some a" using Cons.prems(2) by (auto simp: zconn_def split: option.splits)
  have zc: "zconn m k = Some a" using z by (simp add: zconn_def)
  have set: "{j \<in> set (k # ks). zconn m j = Some b} =
      (if b = a then insert k {j \<in> set ks. zconn m j = Some b} else {j \<in> set ks. zconn m j = Some b})" for b
    using zc by auto
  have cnt: "Suc (card {j \<in> set ks. zconn m j = Some a}) \<le> refs a"
    using spec [OF Cons.prems(5), of a] Cons.prems(1) unfolding set by simp
  obtain p1 where r: "ReleaseConn (Some a) p = Some p1" "pool_inv (refs(a := refs a - 1)) p1"
    using ReleaseConn_inv [OF Cons.prems(3), of a] cnt by auto
  have "\<forall>b. card {j \<in> set ks. zconn m j = Some b} \<le> (refs(a := refs a - 1)) b"
  proof
    fix b
    show "card {j \<in> set ks. zconn m j = Some b} \<le> (refs(a := refs a - 1)) b"
      using cnt spec [OF Cons.prems(5), of b] unfolding set by (cases "b = a") simp_all
  qed
  then show ?case using Cons.IH [OF _ _ r(2) release_shape [OF Cons.prems(4) r(1)]] Cons.prems(1,2) z r(1) by auto
qed

lemma CloseRouter_inv [inv_preserved]:
  assumes "router_inv ndb (R, p)" "map_order (rzones R) ord"
  shows "\<exists>R' p'. CloseRouter ord R p = Some (R', p') \<and> router_inv ndb (R', p')"
proof -
  obtain refs where i: "finite (dom (rzones R))" "pool_shape ndb p" "\<forall>k z. rzones R k = Some z \<longrightarrow> zbc z \<noteq> None"
    "pool_inv refs p" "\<forall>a. zone_refs (rzones R) a \<le> refs a"
    using assms(1) by (rule router_invE)
  have conn: "\<forall>k \<in> set ord. zconn (rzones R) k \<noteq> None"
  proof
    fix k assume "k \<in> set ord"
    then obtain z where "rzones R k = Some z" using map_orderD [OF assms(2)] by blast
    then show "zconn (rzones R) k \<noteq> None" using i(3) by (simp add: zconn_def)
  qed
  have "{k \<in> set ord. zconn (rzones R) k = Some a} \<subseteq> {k. zconn (rzones R) k = Some a}" for a by blast
  then have "card {k \<in> set ord. zconn (rzones R) k = Some a} \<le> refs a" for a
    using card_mono [OF zconn_finite [OF i(1)]] i(5) unfolding zone_refs_def by (meson order_trans)
  then obtain p' refs' where c: "close_zones (rzones R) ord p = Some p'" "pool_inv refs' p'" "pool_shape ndb p'"
    using close_zones_inv [OF map_order_distinct [OF assms(2)] conn i(4,2)] by blast
  have "router_inv ndb (R\<lparr>rzones := Map.empty, rclosed := True\<rparr>, p')"
    by (rule router_invI [OF _ c(3) _ c(2)]) (simp_all add: zone_refs_def zconn_def)
  then show ?thesis using c(1) assms(1) by (simp add: CloseRouter_def)
qed

subsection \<open>Every zone keeps its connection\<close>

text \<open>What happens to a router: zones are filled in, sentinels are followed, it is closed.\<close>

definition sentinels_watched :: "router \<Rightarrow> mzone list \<Rightarrow> bool" where
  "sentinels_watched R zs \<longleftrightarrow> ((\<exists>z \<in> set zs. mzIsSentinel z) \<or> (\<exists>z \<in> ran (rzones R). zsentinel z) \<longrightarrow> monitor R)"

inductive router_step :: "router \<times> pool \<Rightarrow> router \<times> pool \<Rightarrow> bool" where
  step_fill: "FillZone ask zs R p = Some (err, R', p') \<Longrightarrow> router_step (R, p) (R', p')"
| step_switch: "sentinels_watched R [] \<Longrightarrow> SentinelSwitch ask ord R p = Some (err, R', p') \<Longrightarrow> router_step (R, p) (R', p')"
| step_close_router: "map_order (rzones R) ord \<Longrightarrow> CloseRouter ord R p = Some (R', p') \<Longrightarrow> router_step (R, p) (R', p')"
| step_start_router: "router_step (R, p) (Start R, p)"

inductive_cases router_stepE: "router_step (R, p) s"

lemma FillZone_inv:
  assumes "router_inv ndb (R, p)"
  shows "FillZone ask zs R p = Some (err, R', p') \<Longrightarrow> router_inv ndb (R', p') \<and> extends R R'"
    and "sentinels_watched R zs \<Longrightarrow> FillZone ask zs R p \<noteq> None"
  using fill_loop_inv [OF assms, where ask = ask and zs = zs] assms by (auto simp: FillZone_def sentinels_watched_def split: if_splits option.splits)

lemma SentinelSwitch_inv:
  assumes "router_inv ndb (R, p)" "sentinels_watched R []"
  shows "\<exists>err R' p'. SentinelSwitch ask ord R p = Some (err, R', p') \<and> router_inv ndb (R', p')"
  using switch_loop_inv [OF assms(1), of ask ord] assms by (auto simp: SentinelSwitch_def sentinels_watched_def)

lemma router_step_inv [inv_preserved]: "router_step s s' \<Longrightarrow> router_inv ndb s \<Longrightarrow> router_inv ndb s'"
proof (induction rule: router_step.induct)
  case (step_fill ask zs R p err R' p')
  then show ?case using FillZone_inv(1) by blast
next
  case (step_switch R ask ord p err R' p')
  then show ?case using SentinelSwitch_inv [of ndb R p ask ord] by auto
next
  case (step_close_router R ord p R' p')
  then show ?case using CloseRouter_inv [of ndb R p ord] by auto
next
  case (step_start_router R p)
  then show ?case by (simp add: router_inv_def Start_def)
qed

definition new_router :: "nat \<Rightarrow> router \<times> pool \<Rightarrow> bool" where
  "new_router ndb s \<longleftrightarrow> rzones (fst s) = Map.empty \<and> (\<exists>par. snd s = NewSharedBackendConnPool ndb par)"

lemma new_router_inv: "new_router ndb s \<Longrightarrow> router_inv ndb s"
  unfolding new_router_def router_inv_def
  by (auto simp: pool_shape_def NewSharedBackendConnPool_def zone_refs_def zconn_def intro!: exI [of _ "\<lambda>_. 0"])
    (simp add: pool_inv_def)

interpretation zones: trans_sys "new_router ndb" router_step "router_inv ndb"
  by unfold_locales (fact new_router_inv, fact router_step_inv)

text \<open>
  C10. Every zone keeps an open connection. Whatever is filled in, switched over or closed, in
  whatever order, none of these operations panics, and forwarding a request for a database in
  range to any zone of the router finds an open backend connection: the reference that a zone
  holds is never given back by another.
\<close>

theorem zones_stay_connected:
  assumes "new_router ndb s0" "router_step\<^sup>*\<^sup>* s0 (R, p)" "npool n = p"
  shows "(sentinels_watched R zs \<longrightarrow> FillZone ask zs R p \<noteq> None)
    \<and> (sentinels_watched R [] \<longrightarrow> SentinelSwitch ask ord R p \<noteq> None)
    \<and> (map_order (rzones R) ord' \<longrightarrow> CloseRouter ord' R p \<noteq> None)
    \<and> (\<forall>k z r. rzones R k = Some z \<longrightarrow> 0 \<le> rDatabase r \<longrightarrow> rDatabase r < int ndb \<longrightarrow>
         (\<exists>bc. reaches n z r bc) \<and> fst (Forward n z r w) \<noteq> None)"
proof -
  have inv: "router_inv ndb (R, p)" by (rule zones.reach_inv [OF assms(1,2)])
  have "(\<exists>bc. reaches n z r bc) \<and> fst (Forward n z r w) \<noteq> None"
    if z: "rzones R k = Some z" and db: "0 \<le> rDatabase r" "rDatabase r < int ndb" for k z r
  proof -
    obtain a s where s: "zbc z = Some a" "heap p a = Some s" "conn_shape ndb (parallel p) s" "bcs s \<inter> bcClosed p = {}"
      by (rule zone_connected [OF inv z])
    have sh: "length (sconns s) = ndb" "\<forall>row \<in> set (sconns s). row \<noteq> []"
      "ssingle s = (if parallel p = 1 then Some (map (\<lambda>row. row ! 0) (sconns s)) else None)"
      using s(3) by (simp_all add: conn_shape_def)
    then obtain bc where bc: "BackendConn (rDatabase r) (nseed n r) True (nup n) (Some s) = Some (Some bc)"
      "bc \<in> set (sconns s ! nat (rDatabase r))"
      using BackendConn_must [OF db(1) _ sh(2,3)] db(2) by blast
    have "sconns s ! nat (rDatabase r) \<in> set (sconns s)" using db sh(1) by simp
    then have "bc \<in> bcs s" using bc(2) by (auto simp: bcs_def)
    then have "bc \<notin> bcClosed p" using s(4) by blast
    then have "reaches n z r bc" using bc(1) s(1,2) assms(3) by (simp add: reaches_def zprocess_def shared_of_def)
    then show ?thesis by (auto simp: Forward_def reaches_def split: prod.split)
  qed
  moreover have "sentinels_watched R zs \<longrightarrow> FillZone ask zs R p \<noteq> None" using FillZone_inv(2) [OF inv, where zs = zs and ask = ask] by simp
  moreover have "sentinels_watched R [] \<longrightarrow> SentinelSwitch ask ord R p \<noteq> None" using SentinelSwitch_inv [OF inv, of ask ord] by auto
  moreover have "map_order (rzones R) ord' \<longrightarrow> CloseRouter ord' R p \<noteq> None" using CloseRouter_inv [OF inv, of ord'] by auto
  ultimately show ?thesis by blast
qed

text \<open>One zone without sentinels.\<close>

definition plain_zone :: "string \<Rightarrow> string \<Rightarrow> mzone" where
  "plain_zone prefix addr = \<lparr>mzId = 1, mzAddrs = addr, mzPrefix = prefix, mzIsSentinel = False, mzMasterName = [], mzIsConnected = False\<rparr>"

definition empty_router :: "bool \<Rightarrow> router" where
  "empty_router mon = (tiny_router [])\<lparr>online := False, monitor := mon\<rparr>"

lemma empty_router_fields [simp]:
  "rzones (empty_router mon) = Map.empty" "monitor (empty_router mon) = mon" "rclosed (empty_router mon) = False"
  "currentZonePrefix (empty_router mon) = ''A''" "zoneSpr (empty_router mon) = ''::''"
  by (simp_all add: empty_router_def tiny_router_def)

theorem zones_stay_connected_witness:
  "\<exists>R p. FillZone (\<lambda>_. Inr []) [plain_zone ''A'' ''h:1''] (empty_router False) (NewSharedBackendConnPool 16 1) = Some (None, R, p) \<and>
     rzones R ''A'' \<noteq> None \<and> SentinelSwitch (\<lambda>_. Inr []) [''A''] R p \<noteq> None"
proof -
  let ?p = "NewSharedBackendConnPool 16 1"
  obtain R p where f: "FillZone (\<lambda>_. Inr []) [plain_zone ''A'' ''h:1''] (empty_router False) ?p = Some (None, R, p)"
    "R = new_zone (empty_router False) (plain_zone ''A'' ''h:1'') 0"
    by (simp add: FillZone_def plain_zone_def PoolRetain_def NewSharedBackendConnPool_def newSharedBackendConn_def Let_def)
  have "new_router 16 (empty_router False, ?p)" by (auto simp: new_router_def)
  moreover have "router_step\<^sup>*\<^sup>* (empty_router False, ?p) (R, p)" using step_fill [OF f(1)] by blast
  moreover have "sentinels_watched R []" using f(2)
    by (simp add: sentinels_watched_def new_zone_def NewZone_def plain_zone_def)
  ultimately have "SentinelSwitch (\<lambda>_. Inr []) [''A''] R p \<noteq> None"
    using zones_stay_connected [where n = "silent_net\<lparr>npool := p\<rparr>" and ask = "\<lambda>_. Inr []" and ord = "[''A'']" and p = p] by simp
  moreover have "rzones R ''A'' \<noteq> None" using f(2) by (simp add: new_zone_def plain_zone_def)
  ultimately show ?thesis using f(1) by blast
qed

subsection \<open>Starting\<close>

lemma NewRouter_inv:
  assumes "NewRouter ask ListZone n c w = (Some (R, p), w')"
  shows "router_inv (nat (BackendNumberDatabases c)) (R, p) \<and> rzones R (CurrZonePrefix c) \<noteq> None \<and>
    currentZonePrefix R = CurrZonePrefix c \<and> \<not> rclosed R \<and> \<not> online R \<and> monitor R = SentinelMode c"
proof -
  let ?R0 = "\<lparr>rzones = Map.empty, currentZonePrefix = CurrZonePrefix c, online = False, rclosed = False,
                zoneSpr = ZoneSpr4key c, monitor = SentinelMode c\<rparr>"
  let ?p0 = "NewSharedBackendConnPool (nat (BackendNumberDatabases c)) (BackendPrimaryParallel c)"
  let ?zA = "\<lparr>mzId = 1, mzAddrs = CurrZoneAddr c, mzPrefix = CurrZonePrefix c, mzIsSentinel = SentinelMode c,
                    mzMasterName = ''mymaster'', mzIsConnected = False\<rparr>"
  let ?ndb = "nat (BackendNumberDatabases c)"
  obtain e1 R1 p1 where f1: "FillZone ask [?zA] ?R0 ?p0 = Some (e1, R1, p1)"
    using assms by (auto simp: NewRouter_def Let_def split: option.splits)
  have "new_router ?ndb (?R0, ?p0)" by (auto simp: new_router_def)
  then have inv0: "router_inv ?ndb (?R0, ?p0)" by (rule new_router_inv)
  note i1 = FillZone_inv(1) [OF inv0 f1]
  let ?load = "loadZoneInfo ListZone (n\<lparr>npool := p1\<rparr>) (rzones R1 (CurrZonePrefix c)) (ZoneInfoKey c) w"
  have cur: "rzones R1 (CurrZonePrefix c) \<noteq> None"
    using assms f1 by (cases "rzones R1 (CurrZonePrefix c)") (simp_all add: NewRouter_def Let_def loadZoneInfo_def forward_to_def)
  have "router_inv ?ndb (R, p) \<and> extends R1 R"
  proof (cases ?load)
    case (Pair res w1)
    then consider e where "res = Some (Inl e)" | zs where "res = Some (Inr zs)"
      using assms f1 by (cases res) (auto simp: NewRouter_def Let_def split: sum.splits)
    then show ?thesis
    proof cases
      case 1
      then show ?thesis using assms f1 Pair i1 by (simp add: NewRouter_def Let_def)
    next
      case 2
      then obtain e2 where "FillZone ask zs R1 p1 = Some (e2, R, p)"
        using assms f1 Pair by (auto simp: NewRouter_def Let_def split: option.splits)
      then show ?thesis using FillZone_inv(1) i1 by blast
    qed
  qed
  then show ?thesis using i1 cur by (auto simp: extends_def)
qed

text \<open>
  A router that starts has its zones connected: if \<open>NewRouter\<close> returns, the current zone is
  there, every zone holds a connection, and the router is not closed and not yet online.
\<close>

theorem NewRouter_connected:
  assumes "NewRouter ask ListZone n c w = (Some (R, p), w')"
  shows "router_inv (nat (BackendNumberDatabases c)) (R, p) \<and> rzones R (CurrZonePrefix c) \<noteq> None \<and>
    currentZonePrefix R = CurrZonePrefix c \<and> \<not> rclosed R \<and> \<not> online R"
  using NewRouter_inv [OF assms] by simp

definition answering_net :: "outcome \<Rightarrow> unit net" where
  "answering_net out = \<lparr>npool = NewSharedBackendConnPool 1 1, nup = (\<lambda>_. True), nseed = (\<lambda>_. 0), nsrv = (\<lambda>_ _ w. (out, w))\<rparr>"

definition plain_config :: config where
  "plain_config = default_config\<lparr>SentinelMode := False, BackendNumberDatabases := 1\<rparr>"

lemma plain_config_fields [simp]:
  "SentinelMode plain_config = False" "BackendNumberDatabases plain_config = 1" "BackendPrimaryParallel plain_config = 1"
  "CurrZonePrefix plain_config = ''A''" "CurrZoneAddr plain_config = ''172.16.80.2:6379''" "ZoneSpr4key plain_config = ''::''"
  "ZoneInfoKey plain_config = ''RMR_ZONE_INFO''"
  by (simp_all add: plain_config_def default_config_def)

lemma plain_fill:
  "\<exists>R p. FillZone ask [\<lparr>mzId = 1, mzAddrs = ''172.16.80.2:6379'', mzPrefix = ''A'', mzIsSentinel = False, mzMasterName = ''mymaster'', mzIsConnected = False\<rparr>]
      \<lparr>rzones = Map.empty, currentZonePrefix = ''A'', online = False, rclosed = False, zoneSpr = ''::'', monitor = False\<rparr>
      (NewSharedBackendConnPool 1 1) = Some (None, R, p) \<and> rclosed R = False \<and>
      (\<exists>z. rzones R ''A'' = Some z \<and> (\<forall>q. rDatabase q = 0 \<longrightarrow> zprocess ((answering_net out)\<lparr>npool := p\<rparr>) z q = Some (Some 0))) \<and> bcClosed p = {} \<and> map_order (rzones R) [''A'']"
  by (simp add: map_order_def FillZone_def PoolRetain_def NewSharedBackendConnPool_def newSharedBackendConn_def Let_def new_zone_def NewZone_def
      zprocess_def shared_of_def BackendConn_def conn_rows_def)

lemma plain_NewRouter:
  "\<exists>R p. NewRouter (\<lambda>_. Inr []) (\<lambda>_. Inr []) (answering_net (Replied (NewBulkBytes None))) plain_config () = (Some (R, p), ()) \<and>
     map_order (rzones R) [''A'']"
proof -
  let ?n = "answering_net (Replied (NewBulkBytes None))"
  obtain R p z where f: "FillZone (\<lambda>_. Inr []) [\<lparr>mzId = 1, mzAddrs = ''172.16.80.2:6379'', mzPrefix = ''A'', mzIsSentinel = False, mzMasterName = ''mymaster'', mzIsConnected = False\<rparr>]
      \<lparr>rzones = Map.empty, currentZonePrefix = ''A'', online = False, rclosed = False, zoneSpr = ''::'', monitor = False\<rparr>
      (NewSharedBackendConnPool 1 1) = Some (None, R, p)" "rclosed R = False" "rzones R ''A'' = Some z"
    "\<forall>q. rDatabase q = 0 \<longrightarrow> zprocess (?n\<lparr>npool := p\<rparr>) z q = Some (Some 0)" "bcClosed p = {}" "map_order (rzones R) [''A'']"
    using plain_fill [where ask = "\<lambda>_. Inr []" and out = "Replied (NewBulkBytes None)"] by blast
  have "loadZoneInfo (\<lambda>_. Inr []) (?n\<lparr>npool := p\<rparr>) (Some z) ''RMR_ZONE_INFO'' () = (Some (Inr []), ())"
    using f(4,5) by (simp add: loadZoneInfo_def forward_to_def Forward_def request_fields answering_net_def deliver_def NewBulkBytes_def)
  then have "NewRouter (\<lambda>_. Inr []) (\<lambda>_. Inr []) ?n plain_config () = (Some (R, p), ())"
    using f(1-3) by (simp add: NewRouter_def Let_def FillZone_def [of _ "[]"])
  then show ?thesis using f(6) by blast
qed

theorem NewRouter_connected_witness:
  "\<exists>R p. NewRouter (\<lambda>_. Inr []) (\<lambda>_. Inr []) (answering_net (Replied (NewBulkBytes None))) plain_config () = (Some (R, p), ()) \<and>
     rzones R ''A'' \<noteq> None"
proof -
  obtain R p where r: "NewRouter (\<lambda>_. Inr []) (\<lambda>_. Inr []) (answering_net (Replied (NewBulkBytes None))) plain_config () = (Some (R, p), ())"
    using plain_NewRouter by blast
  moreover from NewRouter_connected [OF r] have "rzones R ''A'' \<noteq> None" by simp
  ultimately show ?thesis by blast
qed

text \<open>
  The proxy does not start without an answer to its first GET: when the request for the list
  of zones is dropped or fails (the backend is not up yet), \<open>loadZoneInfo\<close> reads the value of a
  reply that is not there, and \<open>NewRouter\<close> panics.
\<close>

theorem start_needs_an_answer:
  "fst (NewRouter ask ListZone (answering_net (Failed e)) plain_config ()) = None"
proof -
  obtain R p z where f: "FillZone ask [\<lparr>mzId = 1, mzAddrs = ''172.16.80.2:6379'', mzPrefix = ''A'', mzIsSentinel = False, mzMasterName = ''mymaster'', mzIsConnected = False\<rparr>]
      \<lparr>rzones = Map.empty, currentZonePrefix = ''A'', online = False, rclosed = False, zoneSpr = ''::'', monitor = False\<rparr>
      (NewSharedBackendConnPool 1 1) = Some (None, R, p)" "rclosed R = False" "rzones R ''A'' = Some z"
    "\<forall>q. rDatabase q = 0 \<longrightarrow> zprocess ((answering_net (Failed e))\<lparr>npool := p\<rparr>) z q = Some (Some 0)" "bcClosed p = {}"
    using plain_fill [where ask = ask and out = "Failed e"] by blast
  have "loadZoneInfo ListZone ((answering_net (Failed e))\<lparr>npool := p\<rparr>) (Some z) ''RMR_ZONE_INFO'' () = (None, ())"
    using f(4,5) by (simp add: loadZoneInfo_def forward_to_def Forward_def request_fields answering_net_def deliver_def)
  then show ?thesis using f(1-3) by (simp add: NewRouter_def Let_def)
qed

text \<open>
  A switch that does not find its master stops without an error: the zones that the range
  would visit next are not looked at, and the caller is told that all is well.
\<close>

theorem switch_gives_up:
  assumes "\<not> rclosed R" "rzones R k = Some z" "zsentinel z" "monitor R" "ask (zaddrs z) = Inr ms" "zmaster z \<notin> fst ` set ms"
  shows "SentinelSwitch ask (k # ks) R p = Some (None, R, p)"
proof -
  have "map_of ms (zmaster z) = None" using assms(6) by (simp add: map_of_eq_None_iff)
  then show ?thesis using assms(1-5) by (simp add: SentinelSwitch_def Let_def)
qed

text \<open>
  Filling a sentinel zone takes a reference to every master the sentinels know, and keeps
  only the zone's: the connections to the others stay open after the router has closed.
\<close>

definition two_masters :: ask where
  "two_masters _ = Inr [(''mymaster'', ''a:1''), (''other'', ''b:1'')]"

definition sentinel_zone :: mzone where
  "sentinel_zone = (plain_zone ''A'' ''s:1'')\<lparr>mzIsSentinel := True, mzMasterName := ''mymaster''\<rparr>"

theorem other_masters_leak:
  "\<exists>R p R' p'. FillZone two_masters [sentinel_zone] (empty_router True) (NewSharedBackendConnPool 1 1) = Some (None, R, p) \<and>
     dom (rzones R) = {''A''} \<and> CloseRouter [''A''] R p = Some (R', p') \<and>
     ppool p' ''a:1'' = None \<and> (\<exists>a s. ppool p' ''b:1'' = Some a \<and> heap p' a = Some s \<and> refcnt s = 1)"
  by (simp add: FillZone_def sentinel_zone_def plain_zone_def two_masters_def PoolRetain_def NewSharedBackendConnPool_def
      newSharedBackendConn_def Let_def new_zone_def NewZone_def CloseRouter_def ReleaseConn_def)

end
