(* ===== verification/Proxy.thy ===== *)
theory Proxy
  imports Failover Stats Delay Info
begin

section \<open>The proxy\<close>

text \<open>
  Models \<open>pkg/proxy/proxy.go\<close>, with \<open>ReplaceUnspecifiedIP\<close> of \<open>pkg/utils/resolver.go\<close> and
  \<open>ValidateProduct\<close> of \<open>pkg/models/models.go\<close>: how a proxy is made, started and closed, and the
  goroutines it runs, which are the steps of a relation. What the operating system says (listeners,
  names, resolved addresses) is the environment. \<open>None\<close> is a panic.
\<close>

subsection \<open>Flags of a report\<close>

definition HasBit :: "32 word \<Rightarrow> 32 word \<Rightarrow> bool" where
  "HasBit s m \<longleftrightarrow> and s m \<noteq> 0"

definition StatsCmds :: "32 word" where "StatsCmds = push_bit 0 1"
definition StatsZones :: "32 word" where "StatsZones = push_bit 1 1"
definition StatsRuntime :: "32 word" where "StatsRuntime = push_bit 2 1"
definition StatsFull :: "32 word" where "StatsFull = - 1"

lemma StatsFull_all: "HasBit StatsFull StatsCmds" "HasBit StatsFull StatsZones" "HasBit StatsFull StatsRuntime"
  by (simp_all add: HasBit_def StatsFull_def StatsCmds_def StatsZones_def StatsRuntime_def)

subsection \<open>The addresses a proxy is known by\<close>

text \<open>The host: its name, its addresses, and how the library resolves an address.\<close>

record tcpAddr =
  tcpUnspecified :: bool
  tcpPort :: int
  tcpString :: string

record hostEnv =
  Hostname :: string
  HostIPs :: "string list"
  InterfaceIPs :: "string list"
  ResolveTCPAddr :: "string \<Rightarrow> string \<Rightarrow> goerror + tcpAddr"

definition replaceUnspecifiedIP :: "hostEnv \<Rightarrow> string \<Rightarrow> string \<Rightarrow> bool \<Rightarrow> goerror + string" where
  "replaceUnspecifiedIP H network address replace =
     (if network \<in> {''unix'', ''unixpacket''} then Inr address
      else if network \<in> {''tcp'', ''tcp4'', ''tcp6''} then
        (case ResolveTCPAddr H network address of
           Inl e \<Rightarrow> Inl (Trace e)
         | Inr a \<Rightarrow>
             if tcpPort a \<noteq> 0 \<and> \<not> tcpUnspecified a then Inr address
             else if tcpPort a \<noteq> 0 \<and> replace \<and> HostIPs H \<noteq> [] then Inr (JoinHostPort (Hostname H) (Itoa (tcpPort a)))
             else if tcpPort a \<noteq> 0 \<and> replace \<and> InterfaceIPs H \<noteq> [] then
               Inr (JoinHostPort (InterfaceIPs H ! 0) (Itoa (tcpPort a)))
             else Inl (Errorf (''resolve address '' @ [CHR 0x27] @ address @ [CHR 0x27] @ '' to '' @ [CHR 0x27] @ tcpString a @ [CHR 0x27])))
      else Inl (Trace (ErrNew (''unknown network '' @ network))))"

definition ReplaceUnspecifiedIP :: "hostEnv \<Rightarrow> string \<Rightarrow> string \<Rightarrow> string \<Rightarrow> goerror + string" where
  "ReplaceUnspecifiedIP H network listenAddr globalAddr =
     (if globalAddr = [] then replaceUnspecifiedIP H network listenAddr True
      else replaceUnspecifiedIP H network globalAddr False)"

text \<open>\<open>^\w[\w\.\-]*$\<close>\<close>

definition word_char :: "byte \<Rightarrow> bool" where
  "word_char c \<longleftrightarrow> is_digit c \<or> is_lower c \<or> CHR ''A'' \<le> c \<and> c \<le> CHR ''Z'' \<or> c = CHR ''_''"

definition ValidateProduct :: "string \<Rightarrow> goerror option" where
  "ValidateProduct name =
     (if name \<noteq> [] \<and> word_char (hd name) \<and> list_all (\<lambda>c. word_char c \<or> c = CHR ''.'' \<or> c = CHR ''-'') (tl name) then None
      else Some (Errorf (''bad product name = '' @ name)))"

subsection \<open>The proxy and its operations\<close>

text \<open>What the proxy tells about itself; a listener accepts, or has been closed.\<close>

record proxyModel =
  mStartTime :: string
  mAdminAddr :: string
  mProtoType :: string
  mProxyAddr :: string
  mProductName :: string
  mDataCenter :: string
  mPid :: int
  mPwd :: string
  mSys :: string
  mHostname :: string

datatype listener = Listening | ListenerClosed

record proxy =
  ponline :: bool
  pclosed :: bool
  pexit :: bool
  prouter :: router
  ppool' :: pool
  pmodel :: proxyModel
  lproxy :: "listener option"
  ladmin :: "listener option"

definition IsClosed :: "proxy \<Rightarrow> bool" where
  "IsClosed s = pclosed s"

definition IsOnline :: "proxy \<Rightarrow> bool" where
  "IsOnline s \<longleftrightarrow> ponline s \<and> \<not> pclosed s"

definition StartProxy :: "proxy \<Rightarrow> goerror option \<times> proxy" where
  "StartProxy s =
     (if pclosed s then (Some (ErrVar ErrClosedProxy), s)
      else if ponline s then (None, s)
      else (None, s\<lparr>ponline := True, prouter := Start (prouter s)\<rparr>))"

text \<open>\<open>pexit\<close> is whether the channel \<open>exit.C\<close> is closed; closing it twice panics.\<close>

definition close_listener :: "listener option \<Rightarrow> listener option" where
  "close_listener l = map_option (\<lambda>_. ListenerClosed) l"

definition CloseProxy :: "string list \<Rightarrow> proxy \<Rightarrow> proxy option" where
  "CloseProxy ord s =
     (if pclosed s then Some s
      else if pexit s then None
      else
        (case CloseRouter ord (prouter s) (ppool' s) of
           None \<Rightarrow> None
         | Some (R, p) \<Rightarrow>
             Some (s\<lparr>pclosed := True, pexit := True, ladmin := close_listener (ladmin s),
                     lproxy := close_listener (lproxy s), prouter := R, ppool' := p\<rparr>)))"

text \<open>\<open>net.Listen\<close> gives the address it listens on, for the proxy and for the administration.\<close>

record startEnv =
  listenProxy :: "goerror + string"
  listenAdmin :: "goerror + string"
  startTime :: string
  pid :: int
  pwd :: string
  uname :: "goerror + string"

definition setup_listeners :: "hostEnv \<Rightarrow> startEnv \<Rightarrow> config \<Rightarrow> proxy \<Rightarrow> goerror option \<times> proxy" where
  "setup_listeners H E c s =
     (case listenProxy E of
        Inl e \<Rightarrow> (Some (Trace e), s)
      | Inr a1 \<Rightarrow>
          (let s1 = s\<lparr>lproxy := Some Listening\<rparr> in
           case ReplaceUnspecifiedIP H (ProtoType c) a1 (HostProxy c) of
             Inl e \<Rightarrow> (Some e, s1)
           | Inr x1 \<Rightarrow>
               (let s2 = s1\<lparr>pmodel := (pmodel s1)\<lparr>mProtoType := ProtoType c, mProxyAddr := x1\<rparr>\<rparr> in
                case listenAdmin E of
                  Inl e \<Rightarrow> (Some (Trace e), s2)
                | Inr a2 \<Rightarrow>
                    (let s3 = s2\<lparr>ladmin := Some Listening\<rparr> in
                     case ReplaceUnspecifiedIP H ''tcp'' a2 (HostAdmin c) of
                       Inl e \<Rightarrow> (Some e, s3)
                     | Inr x2 \<Rightarrow> (None, s3\<lparr>pmodel := (pmodel s3)\<lparr>mAdminAddr := x2\<rparr>\<rparr>)))))"

definition new_model :: "hostEnv \<Rightarrow> startEnv \<Rightarrow> config \<Rightarrow> proxyModel" where
  "new_model H E c =
     \<lparr>mStartTime = startTime E, mAdminAddr = [], mProtoType = [], mProxyAddr = [], mProductName = ProductName c,
      mDataCenter = ProxyDataCenter c, mPid = pid E, mPwd = pwd E,
      mSys = (case uname E of Inl _ \<Rightarrow> [] | Inr b \<Rightarrow> TrimSpace b), mHostname = Hostname H\<rparr>"

text \<open>
  \<open>New\<close>: the proxy, or the error. The proxy that a failing \<open>setup\<close> leaves behind, which \<open>New\<close> closes
  and drops, is kept beside the error.
\<close>

definition New :: "ask \<Rightarrow> (bytes \<Rightarrow> goerror + mzone list) \<Rightarrow> 'w net \<Rightarrow> hostEnv \<Rightarrow> startEnv \<Rightarrow> string list \<Rightarrow> config \<Rightarrow> 'w
    \<Rightarrow> ((goerror \<times> proxy option) + proxy) option \<times> 'w" where
  "New ask ListZone n H E ord c w =
     (case Validate c of
        Some e \<Rightarrow> (Some (Inl (Trace e, None)), w)
      | None \<Rightarrow>
          (case ValidateProduct (ProductName c) of
             Some e \<Rightarrow> (Some (Inl (Trace e, None)), w)
           | None \<Rightarrow>
               (case NewRouter ask ListZone n c w of
                  (None, w1) \<Rightarrow> (None, w1)
                | (Some (R, p), w1) \<Rightarrow>
                    (case setup_listeners H E c \<lparr>ponline = False, pclosed = False, pexit = False, prouter = R, ppool' = p,
                                       pmodel = new_model H E c, lproxy = None, ladmin = None\<rparr> of
                       (None, s) \<Rightarrow> (Some (Inr s), w1)
                     | (Some e, s) \<Rightarrow>
                         (case CloseProxy ord s of
                            None \<Rightarrow> (None, w1)
                          | Some s' \<Rightarrow> (Some (Inl (e, Some s')), w1))))))"

subsection \<open>Accepting\<close>

text \<open>
  \<open>acceptConn\<close> over the results of \<open>Accept\<close>: a connection, a temporary error, which is retried after
  a growing delay, or any other error. A script that ends leaves it waiting. The delays are kept.
\<close>

datatype accepted = Conn nat | Temporary goerror | Permanent goerror

definition accept_delay :: delayExp2 where
  "accept_delay = \<lparr>dMin = 10, dMax = 500, dValue = 0, dUnit = 1000000\<rparr>"

fun accept_loop :: "delayExp2 \<Rightarrow> accepted list \<Rightarrow> int list \<Rightarrow> ((goerror + nat) \<times> int list \<times> accepted list) option" where
  "accept_loop d [] slept = None"
| "accept_loop d (Conn n # rest) slept = Some (Inr n, slept, rest)"
| "accept_loop d (Permanent e # rest) slept = Some (Inl e, slept, rest)"
| "accept_loop d (Temporary e # rest) slept =
     (case SleepDelay d of None \<Rightarrow> None | Some (t, d1) \<Rightarrow> accept_loop d1 rest (slept @ [t]))"

definition acceptConn :: "accepted list \<Rightarrow> ((goerror + nat) \<times> int list \<times> accepted list) option" where
  "acceptConn script = accept_loop accept_delay script []"

text \<open>Temporary errors cost nothing but time: the first thing that is not one decides.\<close>

definition accept_delay_at :: "nat \<Rightarrow> delayExp2" where
  "accept_delay_at v = accept_delay\<lparr>dValue := int v\<rparr>"

lemma accept_sleep:
  assumes "v \<le> 500"
  shows "SleepDelay (accept_delay_at v) =
    Some (1000000 * min (max (2 * int v) 10) 500, accept_delay_at (min (max (2 * v) 10) 500))"
proof -
  have d: "delay_ok (accept_delay_at v)" "0 \<le> dValue (accept_delay_at v)" "dValue (accept_delay_at v) \<le> dMax (accept_delay_at v)"
    using assms by (simp_all add: delay_ok_def accept_delay_at_def accept_delay_def)
  have "int64 (1000000 * min (max (2 * int v) 10) 500)" by (auto simp: int64_def min_def max_def)
  moreover have "min (max (2 * int v) 10) 500 = int (min (max (2 * v) 10) 500)" by simp
  ultimately show ?thesis using NextValue_ok [OF d] by (simp add: SleepDelay_def accept_delay_at_def accept_delay_def)
qed

lemma accept_loop_skips:
  assumes "v \<le> 500" "list_all (\<lambda>a. \<exists>e. a = Temporary e) ts"
  shows "\<exists>v' ds. v' \<le> 500 \<and> length ds = length ts \<and> list_all (\<lambda>t. 10000000 \<le> t \<and> t \<le> 500000000) ds \<and>
    (\<forall>rest slept. accept_loop (accept_delay_at v) (ts @ rest) slept = accept_loop (accept_delay_at v') rest (slept @ ds))"
  using assms
proof (induction ts arbitrary: v)
  case Nil
  then show ?case by (intro exI [of _ v] exI [of _ "[]"]) simp
next
  case (Cons t ts)
  then obtain e where t: "t = Temporary e" by auto
  let ?v = "min (max (2 * v) 10) 500" and ?d = "1000000 * min (max (2 * int v) 10) 500"
  obtain v' ds where ih: "v' \<le> 500" "length ds = length ts" "list_all (\<lambda>t. 10000000 \<le> t \<and> t \<le> 500000000) ds"
    "\<forall>rest slept. accept_loop (accept_delay_at ?v) (ts @ rest) slept = accept_loop (accept_delay_at v') rest (slept @ ds)"
    using Cons.IH [of ?v] Cons.prems(2) by auto
  have "10000000 \<le> ?d" "?d \<le> 500000000" by auto
  then show ?case using ih accept_sleep [OF Cons.prems(1)] t
    by (intro exI [of _ v'] exI [of _ "?d # ds"]) simp
qed

text \<open>
  A temporary failure does not stop the proxy from accepting: after any number of them, with
  waits between 10 and 500 milliseconds, the connection that comes next is accepted, and an error
  of another kind ends the loop.
\<close>

theorem accept_survives:
  assumes "list_all (\<lambda>a. \<exists>e. a = Temporary e) ts"
  shows "\<exists>ds. length ds = length ts \<and> list_all (\<lambda>t. 10000000 \<le> t \<and> t \<le> 500000000) ds \<and>
    (\<forall>n rest. acceptConn (ts @ Conn n # rest) = Some (Inr n, ds, rest)) \<and>
    (\<forall>e rest. acceptConn (ts @ Permanent e # rest) = Some (Inl e, ds, rest))"
proof -
  have "accept_delay = accept_delay_at 0" by (simp add: accept_delay_at_def accept_delay_def)
  then show ?thesis using accept_loop_skips [of 0, OF _ assms] by (auto simp: acceptConn_def)
qed

theorem accept_survives_witness:
  "\<exists>ds. length ds = 2 \<and> acceptConn [Temporary (ErrNew []), Temporary (ErrNew []), Conn 7] = Some (Inr 7, ds, [])"
  using accept_survives [of "[Temporary (ErrNew []), Temporary (ErrNew [])]"] by (auto simp del: length_0_conv)

subsection \<open>The goroutines\<close>

text \<open>
  The goroutine of \<open>serveProxy\<close> and that of \<open>serveAdmin\<close>: not begun, in their \<open>select\<close>, gone. The one that
  accepts connections, and the HTTP server: running, or ended with an error on its channel. The two
  tickers run or do not. \<open>started\<close> counts the sessions.
\<close>

datatype sphase = SBegin | SSelect | SGone

record running =
  px :: proxy
  serveP :: sphase
  serveA :: sphase
  accepts :: bool
  acceptEnded :: bool
  httpEnded :: bool
  keeper :: bool
  switcher :: bool
  started :: nat

definition launched :: "proxy \<Rightarrow> running" where
  "launched s = \<lparr>px = s, serveP = SBegin, serveA = SBegin, accepts = False, acceptEnded = False, httpEnded = False,
     keeper = False, switcher = False, started = 0\<rparr>"

text \<open>\<open>serveProxy\<close> up to its \<open>select\<close>.\<close>

definition begin_proxy :: "config \<Rightarrow> running \<Rightarrow> running" where
  "begin_proxy c s =
     (if IsClosed (px s) then s\<lparr>serveP := SGone\<rparr>
      else s\<lparr>serveP := SSelect, accepts := True, keeper := BackendPingPeriod c \<noteq> 0,
             switcher := SentinelMode c \<and> SentinelSwitchPeriod c \<noteq> 0\<rparr>)"

definition begin_admin :: "running \<Rightarrow> running" where
  "begin_admin s = (if IsClosed (px s) then s\<lparr>serveA := SGone\<rparr> else s\<lparr>serveA := SSelect\<rparr>)"

text \<open>
  The steps. A listener that is closed makes \<open>Accept\<close> and \<open>Serve\<close> end; they may end before. The
  deferred \<open>Close\<close> runs when a \<open>select\<close> is over. A round of the keep-alive leaves router and pool as they
  are; one of the sentinels changes them. \<open>ask\<close> is what the sentinels say.
\<close>

inductive pstep :: "config \<Rightarrow> running \<Rightarrow> running \<Rightarrow> bool" for c :: config where
  call_start: "StartProxy (px s) = (err, p) \<Longrightarrow> pstep c s (s\<lparr>px := p\<rparr>)"
| call_close: "map_order (rzones (prouter (px s))) ord \<Longrightarrow> CloseProxy ord (px s) = Some p \<Longrightarrow> pstep c s (s\<lparr>px := p\<rparr>)"
| proxy_begins: "serveP s = SBegin \<Longrightarrow> pstep c s (begin_proxy c s)"
| admin_begins: "serveA s = SBegin \<Longrightarrow> pstep c s (begin_admin s)"
| accept_ok: "accepts s \<Longrightarrow> lproxy (px s) = Some Listening \<Longrightarrow> pstep c s (s\<lparr>started := Suc (started s)\<rparr>)"
| accept_ends: "accepts s \<Longrightarrow> pstep c s (s\<lparr>accepts := False, acceptEnded := True\<rparr>)"
| http_ends: "serveA s = SSelect \<Longrightarrow> \<not> httpEnded s \<Longrightarrow> pstep c s (s\<lparr>httpEnded := True\<rparr>)"
| proxy_ends: "serveP s = SSelect \<Longrightarrow> pexit (px s) \<or> acceptEnded s \<Longrightarrow> map_order (rzones (prouter (px s))) ord \<Longrightarrow>
    CloseProxy ord (px s) = Some p \<Longrightarrow> pstep c s (s\<lparr>px := p, serveP := SGone\<rparr>)"
| admin_ends: "serveA s = SSelect \<Longrightarrow> pexit (px s) \<or> httpEnded s \<Longrightarrow> map_order (rzones (prouter (px s))) ord \<Longrightarrow>
    CloseProxy ord (px s) = Some p \<Longrightarrow> pstep c s (s\<lparr>px := p, serveA := SGone\<rparr>)"
| keeper_ends: "keeper s \<Longrightarrow> pexit (px s) \<Longrightarrow> pstep c s (s\<lparr>keeper := False\<rparr>)"
| switch_round: "switcher s \<Longrightarrow> SentinelSwitch ask ord (prouter (px s)) (ppool' (px s)) = Some (err, R, p) \<Longrightarrow>
    pstep c s (s\<lparr>px := (px s)\<lparr>prouter := R, ppool' := p\<rparr>\<rparr>)"
| switcher_ends: "switcher s \<Longrightarrow> pexit (px s) \<Longrightarrow> pstep c s (s\<lparr>switcher := False\<rparr>)"

inductive_cases pstepE: "pstep c s s'"

text \<open>
  The flags agree with what they stand for: a closed proxy has its exit channel and both listeners
  closed, an open one serves on both, and its router is closed and online exactly when it is.
\<close>

definition proxy_inv :: "config \<Rightarrow> proxy \<Rightarrow> bool" where
  "proxy_inv c s \<longleftrightarrow>
     router_inv (nat (BackendNumberDatabases c)) (prouter s, ppool' s) \<and> monitor (prouter s) = SentinelMode c \<and>
     pexit s = pclosed s \<and> rclosed (prouter s) = pclosed s \<and> online (prouter s) = ponline s \<and>
     (if pclosed s then lproxy s \<noteq> Some Listening \<and> ladmin s \<noteq> Some Listening
      else lproxy s = Some Listening \<and> ladmin s = Some Listening)"

definition running_inv :: "config \<Rightarrow> running \<Rightarrow> bool" where
  "running_inv c s \<longleftrightarrow>
     proxy_inv c (px s) \<and> (serveP s = SGone \<or> serveA s = SGone \<longrightarrow> pclosed (px s)) \<and>
     (serveP s = SBegin \<longrightarrow> \<not> accepts s \<and> \<not> acceptEnded s \<and> \<not> keeper s \<and> \<not> switcher s) \<and>
     (serveP s = SSelect \<longrightarrow> accepts s \<or> acceptEnded s) \<and> (switcher s \<longrightarrow> SentinelMode c)"

lemma listener_closed [simp]: "close_listener l \<noteq> Some Listening"
  by (cases l) (simp_all add: close_listener_def)

text \<open>Closing a router keeps its settings; so does a round of the sentinels.\<close>

lemma CloseRouter_settings:
  "CloseRouter ord R p = Some (R', p') \<Longrightarrow> rclosed R' \<and> monitor R' = monitor R \<and> online R' = online R"
  by (auto simp: CloseRouter_def split: if_splits option.splits)

lemma switch_loop_settings:
  "switch_loop ask ks R p = Some (err, R', p') \<Longrightarrow> rclosed R' = rclosed R \<and> monitor R' = monitor R \<and> online R' = online R"
  by (induction ks arbitrary: R p) (force split: option.splits if_splits prod.splits simp: Let_def)+

lemma SentinelSwitch_settings:
  "SentinelSwitch ask ord R p = Some (err, R', p') \<Longrightarrow> rclosed R' = rclosed R \<and> monitor R' = monitor R \<and> online R' = online R"
  using switch_loop_settings by (auto simp: SentinelSwitch_def split: if_splits)

text \<open>Closing a proxy never panics, whatever state it is in.\<close>

lemma CloseProxy_inv:
  assumes "proxy_inv c s" "map_order (rzones (prouter s)) ord"
  shows "\<exists>s'. CloseProxy ord s = Some s' \<and> proxy_inv c s' \<and> pclosed s'"
proof (cases "pclosed s")
  case True
  then show ?thesis using assms(1) by (simp add: CloseProxy_def)
next
  case False
  have i: "router_inv (nat (BackendNumberDatabases c)) (prouter s, ppool' s)" "\<not> pexit s"
    using assms(1) False by (simp_all add: proxy_inv_def)
  obtain R p where r: "CloseRouter ord (prouter s) (ppool' s) = Some (R, p)"
    "router_inv (nat (BackendNumberDatabases c)) (R, p)" using CloseRouter_inv [OF i(1) assms(2)] by blast
  then show ?thesis using False i(2) assms(1) CloseRouter_settings [OF r(1)] by (simp add: CloseProxy_def proxy_inv_def)
qed

lemma CloseProxy_keeps:
  assumes "proxy_inv c s" "map_order (rzones (prouter s)) ord" "CloseProxy ord s = Some s'"
  shows "proxy_inv c s'" "pclosed s'"
  using CloseProxy_inv [OF assms(1,2)] assms(3) by simp_all

lemma StartProxy_inv: "proxy_inv c s \<Longrightarrow> StartProxy s = (err, s') \<Longrightarrow> proxy_inv c s' \<and> pclosed s' = pclosed s"
  by (auto simp: StartProxy_def proxy_inv_def Start_def router_inv_def split: if_splits)

lemma pstep_inv [inv_preserved]: "pstep c s s' \<Longrightarrow> running_inv c s \<Longrightarrow> running_inv c s'"
proof (induction rule: pstep.induct)
  case (call_start s err p)
  then show ?case using StartProxy_inv [of c "px s"] by (auto simp: running_inv_def)
next
  case (call_close s ord p)
  then show ?case using CloseProxy_keeps [of c "px s" ord p] by (auto simp: running_inv_def)
next
  case (proxy_begins s)
  then show ?case by (auto simp: running_inv_def begin_proxy_def IsClosed_def)
next
  case (admin_begins s)
  then show ?case by (auto simp: running_inv_def begin_admin_def IsClosed_def)
next
  case (proxy_ends s ord p)
  then show ?case using CloseProxy_keeps [of c "px s" ord p] by (auto simp: running_inv_def)
next
  case (admin_ends s ord p)
  then show ?case using CloseProxy_keeps [of c "px s" ord p] by (auto simp: running_inv_def)
next
  case (switch_round s ask ord err R p)
  then have i: "proxy_inv c (px s)" "SentinelMode c" by (simp_all add: running_inv_def)
  then have r: "router_inv (nat (BackendNumberDatabases c)) (prouter (px s), ppool' (px s))" "sentinels_watched (prouter (px s)) []"
    by (simp_all add: proxy_inv_def sentinels_watched_def)
  then have "router_inv (nat (BackendNumberDatabases c)) (R, p)" using SentinelSwitch_inv [OF r, of ask ord] switch_round(2) by simp
  then have "proxy_inv c ((px s)\<lparr>prouter := R, ppool' := p\<rparr>)"
    using i(1) SentinelSwitch_settings [OF switch_round(2)] by (simp add: proxy_inv_def)
  then show ?case using switch_round(3) by (auto simp: running_inv_def)
qed (auto simp: running_inv_def)

text \<open>What \<open>New\<close> leaves: a proxy ready to run, or one with nothing open.\<close>

lemma setup_listens:
  "setup_listeners H E c s = (None, s') \<Longrightarrow> lproxy s' = Some Listening \<and> ladmin s' = Some Listening \<and>
     prouter s' = prouter s \<and> ppool' s' = ppool' s \<and> ponline s' = ponline s \<and> pclosed s' = pclosed s \<and> pexit s' = pexit s"
  by (auto simp: setup_listeners_def Let_def split: sum.splits)

lemma setup_fields:
  "setup_listeners H E c s = (err, s') \<Longrightarrow>
     prouter s' = prouter s \<and> ppool' s' = ppool' s \<and> ponline s' = ponline s \<and> pclosed s' = pclosed s \<and> pexit s' = pexit s"
  by (auto simp: setup_listeners_def Let_def split: sum.splits)

lemma New_inv:
  assumes "New ask ListZone n H E ord c w = (Some (Inr s), w')"
  shows "proxy_inv c s \<and> \<not> pclosed s \<and> \<not> ponline s"
proof -
  obtain R p w1 where r: "NewRouter ask ListZone n c w = (Some (R, p), w1)"
    "setup_listeners H E c \<lparr>ponline = False, pclosed = False, pexit = False, prouter = R, ppool' = p,
       pmodel = new_model H E c, lproxy = None, ladmin = None\<rparr> = (None, s)"
    using assms by (auto simp: New_def split: option.splits prod.splits)
  from setup_listens [OF r(2)] NewRouter_inv [OF r(1)] show ?thesis by (simp add: proxy_inv_def)
qed

definition fresh_run :: "config \<Rightarrow> running \<Rightarrow> bool" where
  "fresh_run c s \<longleftrightarrow> (\<exists>p. s = launched p \<and> proxy_inv c p \<and> \<not> pclosed p)"

lemma fresh_run_inv: "fresh_run c s \<Longrightarrow> running_inv c s"
  by (auto simp: fresh_run_def launched_def running_inv_def)

interpretation proxies: trans_sys "fresh_run c" "pstep c" "running_inv c"
  by unfold_locales (fact fresh_run_inv, fact pstep_inv)

lemma New_fresh: "New ask ListZone n H E ord c w = (Some (Inr p), w') \<Longrightarrow> fresh_run c (launched p)"
  using New_inv [of ask ListZone n H E ord c w p w'] by (auto simp: fresh_run_def)


text \<open>All goroutines have ended.\<close>

definition all_ended :: "running \<Rightarrow> bool" where
  "all_ended s \<longleftrightarrow> serveP s = SGone \<and> serveA s = SGone \<and> \<not> accepts s \<and> \<not> keeper s \<and> \<not> switcher s"

text \<open>How much of a closed proxy is still running.\<close>

definition left_running :: "running \<Rightarrow> nat" where
  "left_running s =
     (case serveP s of SBegin \<Rightarrow> 2 | SSelect \<Rightarrow> 1 | SGone \<Rightarrow> 0) + (case serveA s of SBegin \<Rightarrow> 2 | SSelect \<Rightarrow> 1 | SGone \<Rightarrow> 0) +
     (if accepts s then 1 else 0) + (if keeper s then 1 else 0) + (if switcher s then 1 else 0)"

lemma left_running_zero: "left_running s = 0 \<Longrightarrow> all_ended s"
  by (auto simp: left_running_def all_ended_def split: sphase.splits if_splits)

lemma closing_step:
  assumes "running_inv c s" "pclosed (px s)" "left_running s \<noteq> 0"
  obtains s' where "pstep c s s'" "left_running s' < left_running s" "px s' = px s"
proof -
  have exit: "pexit (px s)" using assms(1,2) by (simp add: running_inv_def proxy_inv_def)
  have "finite (dom (rzones (prouter (px s))))" using assms(1) by (simp add: running_inv_def proxy_inv_def router_inv_def)
  then obtain ord where ord: "map_order (rzones (prouter (px s))) ord" by (metis finite_distinct_list map_order_def)
  have close: "CloseProxy ord (px s) = Some (px s)" using assms(2) by (simp add: CloseProxy_def)
  consider "serveP s = SBegin" | "serveP s = SSelect" | "serveA s = SBegin" | "serveA s = SSelect" | "accepts s" | "keeper s" | "switcher s"
    using assms(3) by (auto simp: left_running_def split: sphase.splits if_splits)
  then show ?thesis
  proof cases
    case 1
    then show ?thesis using that [OF proxy_begins [OF 1]] assms(2) by (simp add: begin_proxy_def IsClosed_def left_running_def)
  next
    case 2
    then show ?thesis using that [OF proxy_ends [OF 2 _ ord close]] exit by (simp add: left_running_def)
  next
    case 3
    then show ?thesis using that [OF admin_begins [OF 3]] assms(2) by (simp add: begin_admin_def IsClosed_def left_running_def)
  next
    case 4
    then show ?thesis using that [OF admin_ends [OF 4 _ ord close]] exit by (simp add: left_running_def)
  next
    case 5
    then show ?thesis using that [OF accept_ends [OF 5]] by (simp add: left_running_def)
  next
    case 6
    then show ?thesis using that [OF keeper_ends [OF 6 exit]] by (simp add: left_running_def)
  next
    case 7
    then show ?thesis using that [OF switcher_ends [OF 7 exit]] by (simp add: left_running_def)
  qed
qed


text \<open>
  C29. A proxy that cannot be made leaves nothing open. If \<open>New\<close> fails, then either nothing was opened
  yet, or the listeners that were are closed again, and so is the router with all its connections;
  if it succeeds, the proxy is offline and listens on both addresses.
\<close>

theorem New_leaves_nothing:
  assumes "New ask ListZone n H E ord c w = (Some r, w')"
    "\<And>R p w1. NewRouter ask ListZone n c w = (Some (R, p), w1) \<Longrightarrow> map_order (rzones R) ord"
  shows "case r of
      Inr s \<Rightarrow> \<not> IsOnline s \<and> \<not> IsClosed s \<and> lproxy s = Some Listening \<and> ladmin s = Some Listening
    | Inl (e, left) \<Rightarrow> (\<forall>s. left = Some s \<longrightarrow>
        IsClosed s \<and> lproxy s \<noteq> Some Listening \<and> ladmin s \<noteq> Some Listening \<and> rclosed (prouter s) \<and> rzones (prouter s) = Map.empty)"
proof (cases r)
  case (Inr s)
  then show ?thesis using New_inv [of ask ListZone n H E ord c w s w'] assms(1)
    by (simp add: proxy_inv_def IsOnline_def IsClosed_def)
next
  case (Inl x)
  obtain e left where x: "x = (e, left)" by (cases x)
  have "IsClosed s \<and> lproxy s \<noteq> Some Listening \<and> ladmin s \<noteq> Some Listening \<and> rclosed (prouter s) \<and> rzones (prouter s) = Map.empty"
    if l: "left = Some s" for s
  proof -
    obtain R p w1 s0 where r: "NewRouter ask ListZone n c w = (Some (R, p), w1)"
      "setup_listeners H E c \<lparr>ponline = False, pclosed = False, pexit = False, prouter = R, ppool' = p,
         pmodel = new_model H E c, lproxy = None, ladmin = None\<rparr> = (Some e, s0)" "CloseProxy ord s0 = Some s"
      using assms(1) Inl x l by (auto simp: New_def split: option.splits prod.splits)
    have f: "prouter s0 = R" "ppool' s0 = p" "pclosed s0 = False" "pexit s0 = False" using setup_fields [OF r(2)] by simp_all
    have "\<not> rclosed R" using NewRouter_inv [OF r(1)] by simp
    then show ?thesis using r(3) f by (auto simp: CloseProxy_def CloseRouter_def IsClosed_def split: option.splits)
  qed
  then show ?thesis using Inl x by simp
qed

subsection \<open>A proxy of one zone\<close>

definition plain_host :: hostEnv where
  "plain_host = \<lparr>Hostname = ''host'', HostIPs = [], InterfaceIPs = [],
     ResolveTCPAddr = (\<lambda>n a. Inr \<lparr>tcpUnspecified = False, tcpPort = 19000, tcpString = a\<rparr>)\<rparr>"

definition plain_start :: "goerror + string \<Rightarrow> startEnv" where
  "plain_start adm = \<lparr>listenProxy = Inr ''10.0.0.1:19000'', listenAdmin = adm, startTime = [], pid = 1, pwd = ''/'', uname = Inr ''Linux''\<rparr>"

abbreviation plain_New :: "goerror + string \<Rightarrow> ((goerror \<times> proxy option) + proxy) option \<times> unit" where
  "plain_New adm \<equiv> New (\<lambda>_. Inr []) (\<lambda>_. Inr []) (answering_net (Replied (NewBulkBytes None))) plain_host (plain_start adm) [''A''] plain_config ()"

lemma plain_valid: "Validate plain_config = None" "ValidateProduct (ProductName plain_config) = None"
  "ProtoType plain_config = ''tcp4''" "HostProxy plain_config = []" "HostAdmin plain_config = []"
  by (simp add: plain_config_def) code_simp+

lemma plain_runs: "\<exists>p. plain_New (Inr ''10.0.0.1:11080'') = (Some (Inr p), ())"
proof -
  obtain R p where "NewRouter (\<lambda>_. Inr []) (\<lambda>_. Inr []) (answering_net (Replied (NewBulkBytes None))) plain_config () = (Some (R, p), ())"
    using plain_NewRouter by blast
  then show ?thesis
    by (simp add: New_def plain_valid setup_listeners_def plain_start_def ReplaceUnspecifiedIP_def replaceUnspecifiedIP_def plain_host_def Let_def)
qed



theorem New_leaves_nothing_witness:
  "\<exists>e s. plain_New (Inl (ErrNew ''in use'')) = (Some (Inl (e, Some s)), ()) \<and> IsClosed s \<and> lproxy s \<noteq> Some Listening"
proof -
  obtain R p where r: "NewRouter (\<lambda>_. Inr []) (\<lambda>_. Inr []) (answering_net (Replied (NewBulkBytes None))) plain_config () = (Some (R, p), ())"
    and ord: "map_order (rzones R) [''A'']" using plain_NewRouter by blast
  obtain R' p' where c: "CloseRouter [''A''] R p = Some (R', p')"
    using CloseRouter_inv [OF _ ord] NewRouter_inv [OF r] by blast
  let ?m = "(new_model plain_host (plain_start (Inl (ErrNew ''in use''))) plain_config)\<lparr>mProtoType := ''tcp4'', mProxyAddr := ''10.0.0.1:19000''\<rparr>"
  let ?s = "\<lparr>ponline = False, pclosed = True, pexit = True, prouter = R', ppool' = p', pmodel = ?m,
    lproxy = Some ListenerClosed, ladmin = None\<rparr>"
  have n: "plain_New (Inl (ErrNew ''in use'')) = (Some (Inl (Trace (ErrNew ''in use''), Some ?s)), ())"
    using r c
    by (simp add: New_def plain_valid setup_listeners_def plain_start_def ReplaceUnspecifiedIP_def replaceUnspecifiedIP_def plain_host_def
        Let_def CloseProxy_def close_listener_def)
  have "IsClosed ?s \<and> lproxy ?s \<noteq> Some Listening"
    using New_leaves_nothing [OF n] r ord by simp
  then show ?thesis using n by blast
qed

end
