(* ===== verification/Log.thy ===== *)
theory Log
  imports Mapper
begin

section \<open>The log\<close>

text \<open>
  Models \<open>pkg/utils/log\<close> and \<open>pkg/utils/trace\<close>: levels and types of messages, the text of a message
  with its stack, the functions of a logger and those of the package, which work on \<open>StdLog\<close>, and
  the file that is changed with the time. How \<open>fmt\<close> formats operands, the header that the library
  puts before a text, and the call stack are parameters.
\<close>

unbundle bit_operations_syntax

subsection \<open>Types and levels\<close>

type_synonym logType = "64 word"
type_synonym logLevel = "64 word"

definition TYPE_ERROR :: logType where "TYPE_ERROR = push_bit 0 1"
definition TYPE_WARN :: logType where "TYPE_WARN = push_bit 1 1"
definition TYPE_INFO :: logType where "TYPE_INFO = push_bit 2 1"
definition TYPE_DEBUG :: logType where "TYPE_DEBUG = push_bit 3 1"
definition TYPE_PANIC :: logType where "TYPE_PANIC = NOT 0"

definition LevelNone :: logLevel where "LevelNone = push_bit 0 1 - 1"
definition LevelError :: logLevel where "LevelError = push_bit 1 1 - 1"
definition LevelWarn :: logLevel where "LevelWarn = push_bit 2 1 - 1"
definition LevelInfo :: logLevel where "LevelInfo = push_bit 3 1 - 1"
definition LevelDebug :: logLevel where "LevelDebug = push_bit 4 1 - 1"

lemmas log_bits = TYPE_ERROR_def TYPE_WARN_def TYPE_INFO_def TYPE_DEBUG_def TYPE_PANIC_def
  LevelNone_def LevelError_def LevelWarn_def LevelInfo_def LevelDebug_def

definition LogTypeString :: "logType \<Rightarrow> string" where
  "LogTypeString t =
     (if t = TYPE_PANIC then ''[PANIC]'' else if t = TYPE_ERROR then ''[ERROR]'' else if t = TYPE_WARN then ''[WARN]''
      else if t = TYPE_INFO then ''[INFO]'' else if t = TYPE_DEBUG then ''[DEBUG]'' else ''[LOG]'')"

definition LevelString :: "logLevel \<Rightarrow> string" where
  "LevelString l =
     (if l = LevelDebug then ''DEBUG'' else if l = LevelInfo then ''INFO'' else if l = LevelWarn then ''WARN''
      else if l = LevelError then ''ERROR'' else if l = LevelNone then ''NONE'' else ''UNKNOWN'')"

text \<open>\<open>ParseFromString\<close>: the level is left as it is when the name is unknown.\<close>

definition ParseFromString :: "(string \<Rightarrow> string) \<Rightarrow> string \<Rightarrow> logLevel \<Rightarrow> bool \<times> logLevel" where
  "ParseFromString uni s l =
     (let u = to_upper uni s in
      if u = ''ERROR'' then (True, LevelError)
      else if u = ''DEBUG'' then (True, LevelDebug)
      else if u = ''WARN'' \<or> u = ''WARNING'' then (True, LevelWarn)
      else if u = ''INFO'' then (True, LevelInfo)
      else if u = ''NONE'' then (True, LevelNone)
      else (False, l))"

definition TestLevel :: "logLevel \<Rightarrow> logType \<Rightarrow> bool" where
  "TestLevel v m \<longleftrightarrow> v AND m \<noteq> 0"

subsection \<open>Severities\<close>

text \<open>
  What the bits stand for: five severities in a row. The level of one is the mask of all types up
  to it.
\<close>

datatype severity = SNone | SError | SWarn | SInfo | SDebug

fun severity_rank :: "severity \<Rightarrow> nat" where
  "severity_rank SNone = 0"
| "severity_rank SError = 1"
| "severity_rank SWarn = 2"
| "severity_rank SInfo = 3"
| "severity_rank SDebug = 4"

lemma severity_rank_inj: "severity_rank a = severity_rank b \<Longrightarrow> a = b"
  by (cases a; cases b) simp_all

instantiation severity :: linorder
begin

definition less_eq_severity :: "severity \<Rightarrow> severity \<Rightarrow> bool" where
  "less_eq_severity a b \<longleftrightarrow> severity_rank a \<le> severity_rank b"

definition less_severity :: "severity \<Rightarrow> severity \<Rightarrow> bool" where
  "less_severity a b \<longleftrightarrow> severity_rank a < severity_rank b"

instance
  by standard (auto simp: less_eq_severity_def less_severity_def intro: severity_rank_inj)

end

fun level_of :: "severity \<Rightarrow> logLevel" where
  "level_of SNone = LevelNone"
| "level_of SError = LevelError"
| "level_of SWarn = LevelWarn"
| "level_of SInfo = LevelInfo"
| "level_of SDebug = LevelDebug"

fun type_of :: "severity \<Rightarrow> logType" where
  "type_of SNone = 0"
| "type_of SError = TYPE_ERROR"
| "type_of SWarn = TYPE_WARN"
| "type_of SInfo = TYPE_INFO"
| "type_of SDebug = TYPE_DEBUG"

lemma Test_severity: "TestLevel (level_of v) (type_of m) \<longleftrightarrow> m \<noteq> SNone \<and> m \<le> v"
  by (cases v; cases m) (simp_all add: TestLevel_def log_bits less_eq_severity_def push_bit_eq_mult)

lemma type_not_panic: "type_of m \<noteq> TYPE_PANIC"
  by (cases m) (simp_all add: log_bits push_bit_eq_mult)

text \<open>Every name of a level is read back, in either case.\<close>

lemma level_names:
  "is_ascii s \<Longrightarrow> map ascii_upper s = LevelString (level_of v) \<Longrightarrow> ParseFromString uni s l = (True, level_of v)"
  by (cases v) (simp_all add: ParseFromString_def to_upper_def LevelString_def log_bits push_bit_eq_mult)

subsection \<open>Stacks\<close>

record traceRecord =
  recName :: string
  recFile :: string
  recLine :: int

definition tab :: string where "tab = ''    ''"

definition indent_by :: "nat \<Rightarrow> string" where
  "indent_by n = concat (replicate n tab)"

text \<open>\<open>%-3d\<close>: to the left in three columns.\<close>

definition pad3 :: "string \<Rightarrow> string" where
  "pad3 s = s @ replicate (3 - length s) (CHR '' '')"

definition record_text :: "nat \<Rightarrow> nat \<Rightarrow> traceRecord \<Rightarrow> string" where
  "record_text n depth r =
     indent_by n @ pad3 (Itoa (int depth)) @ '' '' @ recFile r @ '':'' @ Itoa (recLine r) @ [LF] @
     indent_by n @ tab @ tab @ recName r @ [LF]"

primrec stack_loop :: "nat \<Rightarrow> traceRecord list \<Rightarrow> string" where
  "stack_loop n [] = []"
| "stack_loop n (r # rs) = record_text n (length rs) r @ stack_loop n rs"

definition StringWithIndent :: "nat \<Rightarrow> traceRecord list \<Rightarrow> string" where
  "StringWithIndent n s = stack_loop n s @ (if s \<noteq> [] then indent_by n @ tab @ ''... ...'' @ [LF] else [])"

definition recordString :: "traceRecord option \<Rightarrow> string" where
  "recordString r = (case r of None \<Rightarrow> ''[nil-record]'' | Some x \<Rightarrow> recFile x @ '':'' @ Itoa (recLine x) @ '' '' @ recName x)"

definition StackString :: "traceRecord list \<Rightarrow> string" where
  "StackString s = StringWithIndent 0 s"

text \<open>
  \<open>Caller\<close>: what the runtime knows of a frame, with the name of its function if it has one; frames of
  the runtime itself are not shown. \<open>runtime.Caller\<close> counts \<open>Caller\<close> as one frame more.
\<close>

definition Caller :: "(nat \<Rightarrow> (string option \<times> string \<times> int) option) \<Rightarrow> nat \<Rightarrow> traceRecord option" where
  "Caller runtime skip =
     (case runtime (skip + 1) of
        None \<Rightarrow> None
      | Some (fn, file, line) \<Rightarrow>
          (case fn of
             None \<Rightarrow> None
           | Some name \<Rightarrow> if has_prefix name ''runtime.'' then None else Some \<lparr>recName = name, recFile = file, recLine = line\<rparr>))"

text \<open>\<open>TraceN\<close>: \<open>caller i\<close> is the record of the frame, none at the end or in the runtime.\<close>

primrec trace_loop :: "(nat \<Rightarrow> traceRecord option) \<Rightarrow> nat \<Rightarrow> nat \<Rightarrow> traceRecord list" where
  "trace_loop caller i 0 = []"
| "trace_loop caller i (Suc k) = (case caller i of None \<Rightarrow> [] | Some r \<Rightarrow> r # trace_loop caller (Suc i) k)"

definition TraceN :: "(nat \<Rightarrow> traceRecord option) \<Rightarrow> nat \<Rightarrow> nat \<Rightarrow> traceRecord list" where
  "TraceN caller skip depth = trace_loop caller (skip + 1) depth"

lemma TraceN_length: "length (TraceN caller skip depth) \<le> depth"
proof -
  have "length (trace_loop caller i depth) \<le> depth" for i
    by (induction depth arbitrary: i) (auto split: option.split)
  then show ?thesis by (simp add: TraceN_def)
qed

text \<open>A stack ends at the first frame of the runtime: none of its records is one.\<close>

lemma TraceN_no_runtime: "r \<in> set (TraceN (Caller runtime) skip depth) \<Longrightarrow> \<not> has_prefix (recName r) ''runtime.''"
proof -
  have c: "Caller runtime i = Some r \<Longrightarrow> \<not> has_prefix (recName r) ''runtime.''" for i r
    by (auto simp: Caller_def split: option.splits if_splits)
  have "\<forall>r \<in> set (trace_loop (Caller runtime) i depth). \<not> has_prefix (recName r) ''runtime.''" for i
    by (induction depth arbitrary: i) (auto dest: c c [OF sym] split: option.splits)
  then show "r \<in> set (TraceN (Caller runtime) skip depth) \<Longrightarrow> \<not> has_prefix (recName r) ''runtime.''" by (simp add: TraceN_def)
qed

subsection \<open>A logger\<close>

text \<open>Operands \<open>'a\<close> are printed by \<open>fmt\<close>; errors have a text and perhaps a stack; \<open>frames\<close> is the call stack.\<close>

record 'a logEnv =
  sprint :: "'a list \<Rightarrow> string"
  sprintf :: "string \<Rightarrow> 'a list \<Rightarrow> string"
  sprintln :: "'a list \<Rightarrow> string"
  errText :: "goerror \<Rightarrow> string"
  errStack :: "goerror \<Rightarrow> traceRecord list option"
  frames :: "nat \<Rightarrow> traceRecord option"

datatype 'a message = Plain "'a list" | Format string "'a list" | Line "'a list"

definition message_text :: "'a logEnv \<Rightarrow> 'a message \<Rightarrow> string" where
  "message_text E m = (case m of Plain v \<Rightarrow> sprint E v | Format f v \<Rightarrow> sprintf E f v | Line v \<Rightarrow> sprintln E v)"

text \<open>\<open>printed\<close> are the texts handed to the library's logger, in order.\<close>

record logger =
  logPrefix :: string
  logFlags :: int
  logLevelOf :: logLevel
  logTrace :: logLevel
  outClosed :: bool
  printed :: "string list"

definition LstdFlags :: int where "LstdFlags = 3"
definition Lshortfile :: int where "Lshortfile = 16"

definition NewLogger :: "string \<Rightarrow> logger" where
  "NewLogger pre = \<lparr>logPrefix = pre, logFlags = or LstdFlags Lshortfile, logLevelOf = LevelDebug, logTrace = LevelError,
     outClosed = False, printed = []\<rparr>"

definition SetLevel :: "logLevel \<Rightarrow> logger \<Rightarrow> logger" where
  "SetLevel v l = l\<lparr>logLevelOf := v\<rparr>"

definition SetTraceLevel :: "logLevel \<Rightarrow> logger \<Rightarrow> logger" where
  "SetTraceLevel v l = l\<lparr>logTrace := v\<rparr>"

definition SetLevelString :: "(string \<Rightarrow> string) \<Rightarrow> string \<Rightarrow> logger \<Rightarrow> bool \<times> logger" where
  "SetLevelString uni s l =
     (case ParseFromString uni s 0 of
        (False, _) \<Rightarrow> (False, l)
      | (True, v) \<Rightarrow> (True, SetLevel v l))"

definition SetFlags :: "int \<Rightarrow> logger \<Rightarrow> logger" where
  "SetFlags f l = l\<lparr>logFlags := f\<rparr>"

definition SetPrefix :: "string \<Rightarrow> logger \<Rightarrow> logger" where
  "SetPrefix p l = l\<lparr>logPrefix := p\<rparr>"

text \<open>What \<open>NopCloser\<close> wraps stays open.\<close>

definition CloseLogger :: "bool \<Rightarrow> logger \<Rightarrow> logger" where
  "CloseLogger nop l = (if nop then l else l\<lparr>outClosed := True\<rparr>)"

definition isDisabled :: "logType \<Rightarrow> logger \<Rightarrow> bool" where
  "isDisabled t l \<longleftrightarrow> t \<noteq> TYPE_PANIC \<and> \<not> TestLevel (logLevelOf l) t"

definition isTraceEnabled :: "logType \<Rightarrow> logger \<Rightarrow> bool" where
  "isTraceEnabled t l \<longleftrightarrow> t = TYPE_PANIC \<or> TestLevel (logTrace l) t"

definition log_text :: "'a logEnv \<Rightarrow> traceRecord list \<Rightarrow> logType \<Rightarrow> goerror option \<Rightarrow> string \<Rightarrow> string" where
  "log_text E stack t err s =
     LogTypeString t @ '' '' @ s @ (if s = [] \<or> last s \<noteq> LF then [LF] else []) @
     (case err of
        None \<Rightarrow> []
      | Some e \<Rightarrow> ''[error]: '' @ errText E e @ [LF] @
          (case errStack E e of None \<Rightarrow> [] | Some st \<Rightarrow> StringWithIndent 1 st)) @
     (if stack \<noteq> [] then ''[stack]: '' @ [LF] @ StringWithIndent 1 stack else [])"

definition output_log :: "'a logEnv \<Rightarrow> nat \<Rightarrow> goerror option \<Rightarrow> logType \<Rightarrow> string \<Rightarrow> logger \<Rightarrow> logger" where
  "output_log E traceskip err t s l =
     (let stack = (if isTraceEnabled t l then TraceN (frames E) (traceskip + 1) 32 else [])
      in l\<lparr>printed := printed l @ [log_text E stack t err s]\<rparr>)"

text \<open>
  The functions of a logger, one per severity: \<open>Panic\<close>, \<open>Panicf\<close>, \<open>PanicError\<close> and \<open>PanicErrorf\<close> differ in
  the message and in whether there is an error, and so do the others. A panic ends the process.
\<close>

definition LoggerPanic :: "'a logEnv \<Rightarrow> goerror option \<Rightarrow> 'a message \<Rightarrow> logger \<Rightarrow> bool \<times> logger" where
  "LoggerPanic E err m l = (True, output_log E 1 err TYPE_PANIC (message_text E m) l)"

definition LoggerError :: "'a logEnv \<Rightarrow> goerror option \<Rightarrow> 'a message \<Rightarrow> logger \<Rightarrow> bool \<times> logger" where
  "LoggerError E err m l = (False, if isDisabled TYPE_ERROR l then l else output_log E 1 err TYPE_ERROR (message_text E m) l)"

definition LoggerWarn :: "'a logEnv \<Rightarrow> goerror option \<Rightarrow> 'a message \<Rightarrow> logger \<Rightarrow> bool \<times> logger" where
  "LoggerWarn E err m l = (False, if isDisabled TYPE_WARN l then l else output_log E 1 err TYPE_WARN (message_text E m) l)"

definition LoggerInfo :: "'a logEnv \<Rightarrow> goerror option \<Rightarrow> 'a message \<Rightarrow> logger \<Rightarrow> bool \<times> logger" where
  "LoggerInfo E err m l = (False, if isDisabled TYPE_INFO l then l else output_log E 1 err TYPE_INFO (message_text E m) l)"

definition LoggerDebug :: "'a logEnv \<Rightarrow> goerror option \<Rightarrow> 'a message \<Rightarrow> logger \<Rightarrow> bool \<times> logger" where
  "LoggerDebug E err m l = (False, if isDisabled TYPE_DEBUG l then l else output_log E 1 err TYPE_DEBUG (message_text E m) l)"

definition LoggerPrint :: "'a logEnv \<Rightarrow> 'a message \<Rightarrow> logger \<Rightarrow> bool \<times> logger" where
  "LoggerPrint E m l = (False, output_log E 1 None 0 (message_text E m) l)"

text \<open>The functions of the package repeat them on the logger \<open>StdLog\<close>, its only state.\<close>

record logPackage =
  StdLog :: logger

definition on_std :: "(logger \<Rightarrow> bool \<times> logger) \<Rightarrow> logPackage \<Rightarrow> bool \<times> logPackage" where
  "on_std f g = (case f (StdLog g) of (x, l) \<Rightarrow> (x, g\<lparr>StdLog := l\<rparr>))"

definition PkgSetFlags :: "int \<Rightarrow> logPackage \<Rightarrow> logPackage" where
  "PkgSetFlags f g = g\<lparr>StdLog := SetFlags f (StdLog g)\<rparr>"

definition PkgSetPrefix :: "string \<Rightarrow> logPackage \<Rightarrow> logPackage" where
  "PkgSetPrefix p g = g\<lparr>StdLog := SetPrefix p (StdLog g)\<rparr>"

definition PkgSetLevel :: "logLevel \<Rightarrow> logPackage \<Rightarrow> logPackage" where
  "PkgSetLevel v g = g\<lparr>StdLog := SetLevel v (StdLog g)\<rparr>"

definition PkgSetLevelString :: "(string \<Rightarrow> string) \<Rightarrow> string \<Rightarrow> logPackage \<Rightarrow> bool \<times> logPackage" where
  "PkgSetLevelString uni s = on_std (SetLevelString uni s)"

definition PkgSetTrace :: "logLevel \<Rightarrow> logPackage \<Rightarrow> logPackage" where
  "PkgSetTrace v g = g\<lparr>StdLog := SetTraceLevel v (StdLog g)\<rparr>"

definition LogPanic :: "'a logEnv \<Rightarrow> goerror option \<Rightarrow> 'a message \<Rightarrow> logPackage \<Rightarrow> bool \<times> logPackage" where
  "LogPanic E err m = on_std (\<lambda>std. (True, output_log E 1 err TYPE_PANIC (message_text E m) std))"

definition LogError :: "'a logEnv \<Rightarrow> goerror option \<Rightarrow> 'a message \<Rightarrow> logPackage \<Rightarrow> bool \<times> logPackage" where
  "LogError E err m = on_std (\<lambda>std. (False, if isDisabled TYPE_ERROR std then std else output_log E 1 err TYPE_ERROR (message_text E m) std))"

definition LogWarn :: "'a logEnv \<Rightarrow> goerror option \<Rightarrow> 'a message \<Rightarrow> logPackage \<Rightarrow> bool \<times> logPackage" where
  "LogWarn E err m = on_std (\<lambda>std. (False, if isDisabled TYPE_WARN std then std else output_log E 1 err TYPE_WARN (message_text E m) std))"

definition LogInfo :: "'a logEnv \<Rightarrow> goerror option \<Rightarrow> 'a message \<Rightarrow> logPackage \<Rightarrow> bool \<times> logPackage" where
  "LogInfo E err m = on_std (\<lambda>std. (False, if isDisabled TYPE_INFO std then std else output_log E 1 err TYPE_INFO (message_text E m) std))"

definition LogDebug :: "'a logEnv \<Rightarrow> goerror option \<Rightarrow> 'a message \<Rightarrow> logPackage \<Rightarrow> bool \<times> logPackage" where
  "LogDebug E err m = on_std (\<lambda>std. (False, if isDisabled TYPE_DEBUG std then std else output_log E 1 err TYPE_DEBUG (message_text E m) std))"

definition LogPrint :: "'a logEnv \<Rightarrow> 'a message \<Rightarrow> logPackage \<Rightarrow> bool \<times> logPackage" where
  "LogPrint E m = on_std (\<lambda>std. (False, output_log E 1 None 0 (message_text E m) std))"

text \<open>The assertions of \<open>pkg/utils/assert\<close>: the flag says that the process ends.\<close>

definition AssertMust :: "string logEnv \<Rightarrow> bool \<Rightarrow> logPackage \<Rightarrow> bool \<times> logPackage" where
  "AssertMust E b g = (if b then (False, g) else LogPanic E None (Plain [''assertion failed'']) g)"

definition MustNoError :: "string logEnv \<Rightarrow> goerror option \<Rightarrow> logPackage \<Rightarrow> bool \<times> logPackage" where
  "MustNoError E err g = (if err = None then (False, g) else LogPanic E err (Plain [''error happens, assertion failed'']) g)"

text \<open>They end the process exactly when what they assert is false, and leave no trace otherwise.\<close>

lemma Must_ends: "fst (AssertMust E b g) = (\<not> b)" "fst (MustNoError E err g) = (err \<noteq> None)"
    "b \<Longrightarrow> snd (AssertMust E b g) = g" "snd (MustNoError E None g) = g"
  by (simp_all add: AssertMust_def MustNoError_def LogPanic_def on_std_def)

subsection \<open>What gets printed\<close>

fun log_at :: "severity \<Rightarrow> 'a logEnv \<Rightarrow> goerror option \<Rightarrow> 'a message \<Rightarrow> logger \<Rightarrow> bool \<times> logger" where
  "log_at SNone = LoggerPanic"
| "log_at SError = LoggerError"
| "log_at SWarn = LoggerWarn"
| "log_at SInfo = LoggerInfo"
| "log_at SDebug = LoggerDebug"

fun pkg_at :: "severity \<Rightarrow> 'a logEnv \<Rightarrow> goerror option \<Rightarrow> 'a message \<Rightarrow> logPackage \<Rightarrow> bool \<times> logPackage" where
  "pkg_at SNone = LogPanic"
| "pkg_at SError = LogError"
| "pkg_at SWarn = LogWarn"
| "pkg_at SInfo = LogInfo"
| "pkg_at SDebug = LogDebug"

fun tag_of :: "severity \<Rightarrow> logType" where
  "tag_of SNone = TYPE_PANIC"
| "tag_of v = type_of v"

lemma StringWithIndent_ends: "StringWithIndent n s = [] \<or> last (StringWithIndent n s) = LF"
  by (simp add: StringWithIndent_def)

lemma log_text_ends: "last (log_text E stack t err s) = LF"
proof -
  have e: "xs = [] \<or> last xs = LF \<Longrightarrow> ys \<noteq> [] \<and> last ys = LF \<Longrightarrow> last (ys @ xs) = LF" for xs ys :: string by (cases xs) simp_all
  have "last (s @ (if s = [] \<or> last s \<noteq> LF then [LF] else [])) = LF" by auto
  then show ?thesis using StringWithIndent_ends [of 1] by (auto simp: log_text_def last_append split: option.split)
qed

lemma pkg_is_logger: "pkg_at v E err m g = on_std (log_at v E err m) g"
  by (cases v) (simp_all add: LogPanic_def LoggerPanic_def LogError_def LoggerError_def LogWarn_def LoggerWarn_def
      LogInfo_def LoggerInfo_def LogDebug_def LoggerDebug_def on_std_def)

lemma log_at_level:
  assumes "logLevelOf l = level_of v"
  shows "log_at m E err msg l = (m = SNone, if m \<le> v then output_log E 1 err (tag_of m) (message_text E msg) l else l)"
proof -
  have "SNone \<le> v" by (simp add: less_eq_severity_def)
  then show ?thesis using assms Test_severity [of v m] type_not_panic [of m]
    by (cases m) (auto simp: LoggerPanic_def LoggerError_def LoggerWarn_def LoggerInfo_def LoggerDebug_def isDisabled_def)
qed

text \<open>
  The bits are an order. With the level set to a severity, by its constant or by its name in
  any case, through a logger or through the package, a message is printed exactly when its severity
  is not beyond the level: as one text with its tag in front and a line feed at its end. A panic is
  always printed, and ends the process; nothing else does.
\<close>

theorem printed_by_severity:
  assumes "is_ascii name" "map ascii_upper name = LevelString (level_of v)" "SetLevelString uni name l = (ok, l1)"
  shows "ok \<and> PkgSetLevelString uni name \<lparr>StdLog = l\<rparr> = (True, \<lparr>StdLog = l1\<rparr>) \<and> log_at m E err msg l1 = (m = SNone, l1\<lparr>printed := printed l1 @ (if m \<le> v then
      [log_text E (if isTraceEnabled (tag_of m) l1 then TraceN (frames E) 2 32 else []) (tag_of m) err (message_text E msg)] else [])\<rparr>)
    \<and> pkg_at m E err msg \<lparr>StdLog = l1\<rparr> = (m = SNone, \<lparr>StdLog = snd (log_at m E err msg l1)\<rparr>)
    \<and> last (log_text E stack (tag_of m) err text) = LF"
proof -
  have l1: "ok" "l1 = SetLevel (level_of v) l" using assms(3) level_names [OF assms(1,2)] by (auto simp: SetLevelString_def)
  then have "logLevelOf l1 = level_of v" by (simp add: SetLevel_def)
  from log_at_level [OF this, of m E err msg]
  have at: "log_at m E err msg l1 = (m = SNone, l1\<lparr>printed := printed l1 @ (if m \<le> v then
      [log_text E (if isTraceEnabled (tag_of m) l1 then TraceN (frames E) 2 32 else []) (tag_of m) err (message_text E msg)] else [])\<rparr>)"
    by (simp add: output_log_def Let_def numeral_2_eq_2)
  then show ?thesis using l1(1) assms(3) by (simp add: pkg_is_logger on_std_def log_text_ends PkgSetLevelString_def)
qed

definition bare_env :: "string logEnv" where
  "bare_env = \<lparr>sprint = concat, sprintf = (\<lambda>f v. f @ concat v), sprintln = (\<lambda>v. concat v @ [LF]), errText = (\<lambda>_. ''boom''),
     errStack = (\<lambda>_. None), frames = (\<lambda>_. None)\<rparr>"

theorem printed_by_severity_witness:
  "\<exists>l1. SetLevelString (\<lambda>s. s) ''wArn'' (NewLogger []) = (True, l1)
     \<and> log_at SError bare_env (Some (ErrVar EOF)) (Plain [''down'']) l1
         = (False, l1\<lparr>printed := [''[ERROR] down'' @ [LF] @ ''[error]: boom'' @ [LF]]\<rparr>)
     \<and> log_at SInfo bare_env None (Plain [''up'']) l1 = (False, l1)"
proof -
  let ?s = "''wArn''"
  have a: "is_ascii ?s" "map ascii_upper ?s = LevelString (level_of SWarn)"
    by (simp add: is_ascii_def) (simp add: LevelString_def log_bits push_bit_eq_mult; code_simp)
  obtain ok l1 where l1: "SetLevelString (\<lambda>s. s) ?s (NewLogger []) = (ok, l1)" by (cases "SetLevelString (\<lambda>s. s) ?s (NewLogger [])") auto
  then have p: "printed l1 = []" by (auto simp: SetLevelString_def SetLevel_def NewLogger_def split: prod.splits bool.splits)
  have st: "TraceN (\<lambda>_. None) k (Suc j) = []" for k j by (simp add: TraceN_def)
  have st: "TraceN (\<lambda>_. None) 2 32 = []" using st [of 2 31] by simp
  note * = printed_by_severity [OF a l1, of _ bare_env]
  have "ok" using * by blast
  moreover have "log_at SError bare_env (Some (ErrVar EOF)) (Plain [''down'']) l1
         = (False, l1\<lparr>printed := [''[ERROR] down'' @ [LF] @ ''[error]: boom'' @ [LF]]\<rparr>)"
    using * [of SError "Some (ErrVar EOF)" "Plain [''down'']"] p
    by (simp add: st less_eq_severity_def log_text_def message_text_def LogTypeString_def log_bits push_bit_eq_mult bare_env_def)
  moreover have "log_at SInfo bare_env None (Plain [''up'']) l1 = (False, l1)"
    using * [of SInfo None "Plain [''up'']"] by (simp add: less_eq_severity_def)
  ultimately show ?thesis using l1 by auto
qed

end
