(* ===== verification/Rolling.thy ===== *)
theory Rolling
  imports GoErrors
begin

section \<open>The rolling log file\<close>

text \<open>
  Models \<open>pkg/utils/log/rolling.go\<close>: a writer that appends to a file named after the time and
  changes the file when the time's text changes. The clock and the answers of the file system are
  parameters of each call; the disk is a map from paths to contents, written by this writer only,
  and an open file is its path.
\<close>

subsection \<open>The file system\<close>

type_synonym disk = "string \<rightharpoonup> string"

text \<open>\<open>nowIn\<close> is \<open>time.Now().Format\<close>; \<open>shortWrite\<close> is a write that fails after some bytes.\<close>

record osEnv =
  nowIn :: "string \<Rightarrow> string"
  mkdirFails :: "goerror option"
  openFails :: "goerror option"
  shortWrite :: "(nat \<times> goerror) option"
  closeFails :: "goerror option"

definition open_append :: "string \<Rightarrow> disk \<Rightarrow> disk" where
  "open_append p d = (case d p of None \<Rightarrow> d(p \<mapsto> []) | Some _ \<Rightarrow> d)"

definition content :: "disk \<Rightarrow> string \<Rightarrow> string" where
  "content d p = (case d p of None \<Rightarrow> [] | Some s \<Rightarrow> s)"

lemma content_upd [simp]: "content (d(p \<mapsto> s)) = (content d)(p := s)"
  by (simp add: content_def fun_eq_iff)

text \<open>\<open>filepath.Split\<close>: the part up to the last slash, and the rest.\<close>

definition split_path :: "string \<Rightarrow> string \<times> string" where
  "split_path s = (rev (dropWhile (\<lambda>c. c \<noteq> CHR ''/'') (rev s)), rev (takeWhile (\<lambda>c. c \<noteq> CHR ''/'') (rev s)))"

lemma content_open [simp]: "content (open_append p d) = content d"
  by (simp add: content_def open_append_def fun_eq_iff split: option.split)

lemma split_path_join: "fst (split_path s) @ snd (split_path s) = s"
  by (simp add: split_path_def flip: rev_append)

subsection \<open>The writer\<close>

record rollingFile =
  rfClosed :: bool
  rfFile :: "string option"
  basePath :: string
  filePath :: string
  fileFrag :: string
  rolling :: string

definition stamped :: "osEnv \<Rightarrow> rollingFile \<Rightarrow> string" where
  "stamped E r = basePath r @ ''.'' @ nowIn E (rolling r)"

definition open_next :: "osEnv \<Rightarrow> rollingFile \<Rightarrow> disk \<Rightarrow> goerror option \<times> rollingFile \<times> disk" where
  "open_next E r d =
     (let r1 = r\<lparr>fileFrag := nowIn E (rolling r), filePath := stamped E r\<rparr>;
          dir = fst (split_path (basePath r));
          open_it = (case openFails E of
             Some e \<Rightarrow> (Some (Trace e), r1, d)
           | None \<Rightarrow> (None, r1\<lparr>rfFile := Some (filePath r1)\<rparr>, open_append (filePath r1) d))
      in if dir \<noteq> [] \<and> dir \<noteq> ''.'' then
           (case mkdirFails E of Some e \<Rightarrow> (Some (Trace e), r1, d) | None \<Rightarrow> open_it)
         else open_it)"

definition roll :: "osEnv \<Rightarrow> rollingFile \<Rightarrow> disk \<Rightarrow> goerror option \<times> rollingFile \<times> disk" where
  "roll E r d =
     (if rfFile r \<noteq> None then
        (if nowIn E (rolling r) = fileFrag r then (None, r, d) else open_next E (r\<lparr>rfFile := None\<rparr>) d)
      else open_next E r d)"

definition CloseRolling :: "osEnv \<Rightarrow> rollingFile \<Rightarrow> goerror option \<times> rollingFile" where
  "CloseRolling E r =
     (if rfClosed r then (None, r)
      else
        (let r1 = r\<lparr>rfClosed := True\<rparr>
         in if rfFile r1 \<noteq> None then (TraceOpt (closeFails E), r1\<lparr>rfFile := None\<rparr>) else (None, r1)))"

definition append_file :: "osEnv \<Rightarrow> string \<Rightarrow> string \<Rightarrow> disk \<Rightarrow> nat \<times> goerror option \<times> disk" where
  "append_file E p b d =
     (case shortWrite E of
        None \<Rightarrow> (length b, None, d(p \<mapsto> content d p @ b))
      | Some (n, e) \<Rightarrow> (min n (length b), Some e, d(p \<mapsto> content d p @ take n b)))"

definition WriteRolling :: "osEnv \<Rightarrow> string \<Rightarrow> rollingFile \<Rightarrow> disk \<Rightarrow> nat \<times> goerror option \<times> rollingFile \<times> disk" where
  "WriteRolling E b r d =
     (if rfClosed r then (0, Some (Trace (ErrVar ErrClosedRollingFile)), r, d)
      else
        (case roll E r d of
           (Some e, r1, d1) \<Rightarrow> (0, Some e, r1, d1)
         | (None, r1, d1) \<Rightarrow>
             (case append_file E (the (rfFile r1)) b d1 of (n, err, d2) \<Rightarrow> (n, TraceOpt err, r1, d2))))"

definition NewRollingFile :: "string \<Rightarrow> string \<Rightarrow> goerror + rollingFile" where
  "NewRollingFile base fmt =
     (if snd (split_path base) = [] then Inl (Errorf (''invalid base-path = '' @ base @ '', file name is required''))
      else Inr \<lparr>rfClosed = False, rfFile = None, basePath = base, filePath = [], fileFrag = [], rolling = fmt\<rparr>)"

subsection \<open>Writing through it\<close>

text \<open>An open file is the one of the recorded time.\<close>

definition rolling_ok :: "rollingFile \<Rightarrow> bool" where
  "rolling_ok r \<longleftrightarrow> (case rfFile r of None \<Rightarrow> True | Some p \<Rightarrow> \<not> rfClosed r \<and> p = basePath r @ ''.'' @ fileFrag r)"

lemma open_next_ok:
  assumes "\<not> rfClosed r" "rfFile r = None" "open_next E r d = (err, r1, d1)"
  shows "rolling_ok r1 \<and> basePath r1 = basePath r \<and> rolling r1 = rolling r \<and> rfClosed r1 = rfClosed r \<and>
    content d1 = content d \<and> (err = None \<longrightarrow> rfFile r1 = Some (stamped E r))"
  using assms by (auto simp: open_next_def rolling_ok_def stamped_def Let_def split: option.splits if_splits)

lemma roll_ok:
  assumes "\<not> rfClosed r" "rolling_ok r" "roll E r d = (err, r1, d1)"
  shows "rolling_ok r1 \<and> basePath r1 = basePath r \<and> rolling r1 = rolling r \<and> rfClosed r1 = rfClosed r \<and>
    content d1 = content d \<and> (err = None \<longrightarrow> rfFile r1 = Some (stamped E r))"
proof (cases "rfFile r \<noteq> None \<and> nowIn E (rolling r) = fileFrag r")
  case True
  then show ?thesis using assms by (auto simp: roll_def rolling_ok_def stamped_def)
next
  case False
  have same: "rfFile r = None \<Longrightarrow> open_next E (r\<lparr>rfFile := None\<rparr>) d = open_next E r d" by (cases r) simp
  have "open_next E (r\<lparr>rfFile := None\<rparr>) d = (err, r1, d1)"
  proof (cases "rfFile r")
    case None
    then show ?thesis using assms(3) same by (simp add: roll_def)
  next
    case (Some p)
    then show ?thesis using assms(3) False by (simp add: roll_def)
  qed
  from open_next_ok [OF _ _ this] assms(1) show ?thesis by (simp add: stamped_def)
qed

lemma WriteRolling_ok:
  assumes "rolling_ok r" "WriteRolling E b r d = (n, err, r1, d1)"
  shows "rolling_ok r1 \<and> basePath r1 = basePath r \<and> rolling r1 = rolling r \<and> rfClosed r1 = rfClosed r \<and>
    content d1 = (content d)(stamped E r := content d (stamped E r) @ take n b) \<and> n \<le> length b \<and>
    (err = None \<longrightarrow> n = length b) \<and> (rfClosed r \<longrightarrow> err = Some (Trace (ErrVar ErrClosedRollingFile)) \<and> n = 0 \<and> r1 = r \<and> d1 = d)"
proof (cases "rfClosed r")
  case True
  then show ?thesis using assms by (auto simp: WriteRolling_def)
next
  case live: False
  obtain e1 r' d' where roll: "roll E r d = (e1, r', d')" by (cases "roll E r d") auto
  note ok = roll_ok [OF live assms(1) roll]
  show ?thesis
  proof (cases e1)
    case None
    then have "rfFile r' = Some (stamped E r)" using ok by simp
    then show ?thesis using assms(2) live ok None roll
      by (auto simp: WriteRolling_def append_file_def TraceOpt_def min_def split: option.splits prod.splits)
  next
    case (Some e)
    then show ?thesis using assms(2) live ok roll by (auto simp: WriteRolling_def)
  qed
qed

datatype fileOp = FWrite osEnv string | FClose osEnv

text \<open>A run, and for each write the file it is meant for, the bytes accepted and the error.\<close>

fun run_file :: "fileOp list \<Rightarrow> rollingFile \<Rightarrow> disk \<Rightarrow> (string \<times> string \<times> goerror option) list \<times> rollingFile \<times> disk" where
  "run_file [] r d = ([], r, d)"
| "run_file (FWrite E b # ops) r d =
     (case WriteRolling E b r d of (n, err, r1, d1) \<Rightarrow>
        (case run_file ops r1 d1 of (evs, r2, d2) \<Rightarrow> ((stamped E r, take n b, err) # evs, r2, d2)))"
| "run_file (FClose E # ops) r d = run_file ops (snd (CloseRolling E r)) d"

definition sent_to :: "string \<Rightarrow> (string \<times> string \<times> goerror option) list \<Rightarrow> string" where
  "sent_to p evs = concat (map (\<lambda>(q, s, _). s) (filter (\<lambda>(q, _). q = p) evs))"

lemma CloseRolling_ok: "rolling_ok r \<Longrightarrow> rolling_ok (snd (CloseRolling E r)) \<and> rfClosed (snd (CloseRolling E r))"
  by (auto simp: CloseRolling_def rolling_ok_def Let_def split: option.splits)

lemma run_file_ok:
  "rolling_ok r \<Longrightarrow> run_file ops r d = (evs, r1, d1) \<Longrightarrow>
     rolling_ok r1 \<and> content d1 p = content d p @ sent_to p evs \<and>
     (rfClosed r \<or> (\<exists>E. FClose E \<in> set ops) \<longrightarrow> rfClosed r1)"
proof (induction ops r d arbitrary: evs r1 d1 rule: run_file.induct)
  case (1 r d)
  then show ?case by (auto simp: sent_to_def)
next
  case (2 E b ops r d)
  obtain n err r' d' where w: "WriteRolling E b r d = (n, err, r', d')" by (cases "WriteRolling E b r d") auto
  obtain evs' where run: "run_file ops r' d' = (evs', r1, d1)" "evs = (stamped E r, take n b, err) # evs'"
    using 2(3) w by (auto split: prod.splits)
  note ok = WriteRolling_ok [OF 2(2) w]
  from 2(1) [OF w [symmetric] refl refl _ run(1)] ok show ?case by (auto simp: run(2) sent_to_def)
next
  case (3 E ops r d)
  then show ?case using CloseRolling_ok [of r E] by auto
qed

text \<open>
  C40. Whatever is written through a rolling file, with files changing, short writes, failing calls
  and closing in between: the file of each time has grown by exactly the bytes accepted while that
  time's text was current, in order, and no other file has changed. A write without an error is
  accepted whole. After a close every write is refused and changes nothing.
\<close>

theorem rolled_by_time:
  assumes "NewRollingFile base fmt = Inr r0" "run_file ops r0 d0 = (evs, r, d)" "WriteRolling E b r d = (n, err, r1, d1)"
  shows "content d p = content d0 p @ sent_to p evs
    \<and> content d1 = (content d)(stamped E r := content d (stamped E r) @ take n b)
    \<and> (err = None \<longrightarrow> n = length b)
    \<and> (FClose E' \<in> set ops \<longrightarrow> n = 0 \<and> err = Some (Trace (ErrVar ErrClosedRollingFile)) \<and> r1 = r \<and> d1 = d)"
proof -
  have "rolling_ok r0" using assms(1) by (auto simp: NewRollingFile_def rolling_ok_def split: if_splits)
  note run = run_file_ok [OF this assms(2)]
  from WriteRolling_ok [OF _ assms(3)] run [of p] show ?thesis by auto
qed

definition day_env :: "string \<Rightarrow> osEnv" where
  "day_env s = \<lparr>nowIn = (\<lambda>_. s), mkdirFails = None, openFails = None, shortWrite = None, closeFails = None\<rparr>"

lemmas rolling_eval = day_env_def stamped_def open_next_def roll_def CloseRolling_def append_file_def WriteRolling_def
  NewRollingFile_def split_path_def open_append_def content_def sent_to_def Let_def

theorem rolled_by_time_witness:
  "\<exists>r0 evs r d. NewRollingFile ''log/p'' ''2006-01-02'' = Inr r0
     \<and> run_file [FWrite (day_env ''1'') ''a'', FWrite (day_env ''2'') ''b'', FWrite (day_env ''2'') ''c'', FClose (day_env ''2'')]
         r0 Map.empty = (evs, r, d)
     \<and> content d ''log/p.2'' = sent_to ''log/p.2'' evs \<and> sent_to ''log/p.2'' evs = ''bc''
     \<and> WriteRolling (day_env ''3'') ''d'' r d = (0, Some (TracedError (ErrVar ErrClosedRollingFile)), r, d)"
proof -
  let ?ops = "[FWrite (day_env ''1'') ''a'', FWrite (day_env ''2'') ''b'', FWrite (day_env ''2'') ''c'', FClose (day_env ''2'')]"
  let ?r0 = "\<lparr>rfClosed = False, rfFile = None, basePath = ''log/p'', filePath = [], fileFrag = [], rolling = ''2006-01-02''\<rparr>"
  have n: "NewRollingFile ''log/p'' ''2006-01-02'' = Inr ?r0" by (simp add: rolling_eval)
  obtain evs r d where run: "run_file ?ops ?r0 Map.empty = (evs, r, d)" by (cases "run_file ?ops ?r0 Map.empty") auto
  then have "sent_to ''log/p.2'' evs = ''bc''" by (auto simp: rolling_eval)
  moreover obtain n err r1 d1 where w: "WriteRolling (day_env ''3'') ''d'' r d = (n, err, r1, d1)"
    by (cases "WriteRolling (day_env ''3'') ''d'' r d") auto
  moreover note rolled_by_time [OF n run w, where p = "''log/p.2''" and E' = "day_env ''2''"]
  ultimately show ?thesis using n run by (auto simp: content_def)
qed

end
