(* ===== verification/Startup.thy ===== *)
theory Startup
  imports Proxy Log Rolling Config
begin

section \<open>The program\<close>

text \<open>
  Models \<open>cmd/proxy/main.go\<close> and \<open>pkg/utils/args.go\<close>: the options, what is done with them before the
  proxy is made, starting it, and the goroutine that follows the load of the machine. A panic of the
  log ends the process: it is the left side of a result, with its message.
\<close>

subsection \<open>Options\<close>

text \<open>What \<open>docopt\<close> found for each option; an absent one and nil are the same.\<close>

datatype optValue = OptString string | OptOther

type_synonym options = "string \<rightharpoonup> optValue"
type_synonym 'a run = "string + 'a"

definition and_so :: "'a run \<Rightarrow> ('a \<Rightarrow> 'b run) \<Rightarrow> 'b run" where
  "and_so m f = (case m of Inl e \<Rightarrow> Inl e | Inr a \<Rightarrow> f a)"

lemma and_so_Inr: "and_so m f = Inr b \<longleftrightarrow> (\<exists>a. m = Inr a \<and> f a = Inr b)"
  by (cases m) (simp_all add: and_so_def)

definition Argument :: "options \<Rightarrow> string \<Rightarrow> (string \<times> bool) run" where
  "Argument d name =
     (case d name of
        None \<Rightarrow> Inr ([], False)
      | Some (OptString s) \<Rightarrow> if s \<noteq> [] then Inr (s, True) else Inl (''option '' @ name @ '' requires an argument'')
      | Some OptOther \<Rightarrow> Inl (''option '' @ name @ '' isn'' @ [CHR 0x27] @ ''t a valid string''))"

definition ArgumentMust :: "options \<Rightarrow> string \<Rightarrow> string run" where
  "ArgumentMust d name = and_so (Argument d name) (\<lambda>(s, ok). if ok then Inr s else Inl (''option '' @ name @ '' is required''))"

definition ArgumentInteger :: "options \<Rightarrow> string \<Rightarrow> (int \<times> bool) run" where
  "ArgumentInteger d name =
     and_so (Argument d name) (\<lambda>(s, ok).
       if ok then
         (case ParseInt s of
            Inl _ \<Rightarrow> Inl (''option '' @ name @ '' isn'' @ [CHR 0x27] @ ''t a valid integer'')
          | Inr n \<Rightarrow> Inr (n, True))
       else Inr (0, False))"

definition ArgumentIntegerMust :: "options \<Rightarrow> string \<Rightarrow> int run" where
  "ArgumentIntegerMust d name = and_so (ArgumentInteger d name) (\<lambda>(n, ok). if ok then Inr n else Inl (''option '' @ name @ '' is required''))"

text \<open>Every integer that is printed is read back as it is.\<close>

lemma ArgumentInteger_Itoa: "int64 n \<Longrightarrow> d name = Some (OptString (Itoa n)) \<Longrightarrow> ArgumentInteger d name = Inr (n, True)"
  using ParseInt_FormatInt [of n] by (auto simp: ArgumentInteger_def Argument_def and_so_def Itoa_def ParseInt_def split: list.splits)

subsection \<open>Before the proxy\<close>

text \<open>What the machine says: the output of \<open>ulimit -n\<close>, its processors, and the answers about the pid file.\<close>

record machine =
  ulimitOut :: "goerror + string"
  NumCPU :: int
  absPath :: "string \<Rightarrow> goerror + string"
  writePid :: "string \<Rightarrow> goerror option"
  tomlFile :: "string \<Rightarrow> config \<Rightarrow> goerror option \<times> config"

text \<open>The log: to standard error or to a rolling file, and its level.\<close>

definition DailyRolling :: string where "DailyRolling = ''2006-01-02''"

definition open_log :: "options \<Rightarrow> logPackage \<Rightarrow> (rollingFile option \<times> logPackage) run" where
  "open_log d g =
     and_so (Argument d ''--log'') (\<lambda>(s, ok).
       if ok then
         (case NewRollingFile s DailyRolling of
            Inl _ \<Rightarrow> Inl (''open log file '' @ s @ '' failed'')
          | Inr f \<Rightarrow> Inr (Some f, g\<lparr>StdLog := NewLogger []\<rparr>))
       else Inr (None, g))"

definition set_level :: "(string \<Rightarrow> string) \<Rightarrow> options \<Rightarrow> logPackage \<Rightarrow> logPackage run" where
  "set_level uni d g =
     and_so (Argument d ''--log-level'') (\<lambda>(s, ok).
       if ok then
         (case PkgSetLevelString uni s (PkgSetLevel LevelInfo g) of
            (False, _) \<Rightarrow> Inl (''option --log-level = '' @ s)
          | (True, g1) \<Rightarrow> Inr g1)
       else Inr (PkgSetLevel LevelInfo g))"

definition check_ulimit :: "machine \<Rightarrow> options \<Rightarrow> unit run" where
  "check_ulimit M d =
     and_so (ArgumentInteger d ''--ulimit'') (\<lambda>(n, ok).
       if ok then
         (case ulimitOut M of
            Inl _ \<Rightarrow> Inl ''run ulimit -n failed''
          | Inr b \<Rightarrow>
              (let v = Atoi_value (TrimSpace b) in
               if (\<exists>e. ParseInt (TrimSpace b) = Inl e) \<or> v < n
               then Inl (''ulimit too small: '' @ Itoa v @ '', should be at least '' @ Itoa n) else Inr ()))
       else Inr ())"

definition cpu_options :: "machine \<Rightarrow> options \<Rightarrow> (int \<times> int) run" where
  "cpu_options M d =
     and_so (ArgumentInteger d ''--ncpu'') (\<lambda>(n, ok).
       (let ncpu = (if ok then n else 4) in
        and_so (ArgumentInteger d ''--max-ncpu'') (\<lambda>(m, ok').
          Inr (ncpu, if ok' then MaxInt ncpu m else MaxInt ncpu (NumCPU M)))))"

text \<open>The second panic is that of \<open>NewDefaultConfig\<close>.\<close>

definition load_config :: "machine \<Rightarrow> options \<Rightarrow> config run" where
  "load_config M d =
     (case NewDefaultConfig of
        None \<Rightarrow> Inl ''validate config failed''
      | Some c \<Rightarrow>
          and_so (Argument d ''--config'') (\<lambda>(s, ok).
            if ok then
              (case LoadFromFile (tomlFile M) s c of
                 (Some _, _) \<Rightarrow> Inl (''load config '' @ s @ '' failed'')
               | (None, c1) \<Rightarrow> Inr c1)
            else Inr c))"

text \<open>A pid file that cannot be written is only warned about; the one written is removed at the end.\<close>

definition pid_file :: "machine \<Rightarrow> options \<Rightarrow> string option run" where
  "pid_file M d =
     and_so (Argument d ''--pidfile'') (\<lambda>(s, ok).
       if ok then
         (case absPath M s of
            Inl _ \<Rightarrow> Inr None
          | Inr p \<Rightarrow> (case writePid M p of Some _ \<Rightarrow> Inr None | None \<Rightarrow> Inr (Some p)))
       else Inr None)"

record settings =
  sLogFile :: "rollingFile option"
  sLog :: logPackage
  sNcpu :: int
  sMaxNcpu :: int
  sAuto :: bool
  sConfig :: config
  sPidFile :: "string option"

definition read_settings :: "(string \<Rightarrow> string) \<Rightarrow> machine \<Rightarrow> options \<Rightarrow> logPackage \<Rightarrow> settings run" where
  "read_settings uni M d g =
     and_so (open_log d g) (\<lambda>(f, g1).
     and_so (set_level uni d g1) (\<lambda>g2.
     and_so (check_ulimit M d) (\<lambda>_.
     and_so (cpu_options M d) (\<lambda>(ncpu, maxncpu).
     and_so (load_config M d) (\<lambda>c.
     and_so (pid_file M d) (\<lambda>p.
       Inr \<lparr>sLogFile = f, sLog = g2, sNcpu = ncpu, sMaxNcpu = maxncpu, sAuto = (ncpu < maxncpu), sConfig = c, sPidFile = p\<rparr>))))))"

subsection \<open>Starting\<close>

definition start_proxy :: "proxy \<Rightarrow> proxy run" where
  "start_proxy s = (case StartProxy s of (Some _, _) \<Rightarrow> Inl ''start proxy failed'' | (None, s1) \<Rightarrow> Inr s1)"

text \<open>None is a panic of Go, a crash; \<open>ord\<close> is the order in which a proxy that cannot be made closes its zones.\<close>

definition run_main :: "(string \<Rightarrow> string) \<Rightarrow> machine \<Rightarrow> options \<Rightarrow> logPackage
    \<Rightarrow> ask \<Rightarrow> (bytes \<Rightarrow> goerror + mzone list) \<Rightarrow> 'w net \<Rightarrow> hostEnv \<Rightarrow> startEnv \<Rightarrow> string list \<Rightarrow> 'w
    \<Rightarrow> (settings \<times> proxy) run option" where
  "run_main uni M d g ask ListZone n H E ord w =
     (case read_settings uni M d g of
        Inl e \<Rightarrow> Some (Inl e)
      | Inr S \<Rightarrow>
          (case New ask ListZone n H E ord (sConfig S) w of
             (None, _) \<Rightarrow> None
           | (Some (Inl _), _) \<Rightarrow> Some (Inl ''create proxy with config file failed'')
           | (Some (Inr p), _) \<Rightarrow> Some (and_so (start_proxy p) (\<lambda>p1. Inr (S, p1)))))"

lemma load_config_valid: "load_config M d = Inr c \<Longrightarrow> Validate c = None"
  by (auto simp: load_config_def NewDefaultConfig_def and_so_Inr LoadFromFile_def split: option.splits prod.splits if_splits)

lemma set_level_named:
  assumes "set_level uni d g = Inr g1"
  shows "logLevelOf (StdLog g1) =
    (case d ''--log-level'' of Some (OptString s) \<Rightarrow> snd (ParseFromString uni s 0) | _ \<Rightarrow> LevelInfo)"
  using assms
  by (auto simp: set_level_def Argument_def and_so_Inr PkgSetLevelString_def PkgSetLevel_def on_std_def SetLevelString_def SetLevel_def
      split: option.splits optValue.splits prod.splits if_splits bool.splits)

lemma cpu_options_order: "cpu_options M d = Inr (a, b) \<Longrightarrow> a \<le> b"
  by (auto simp: cpu_options_def and_so_Inr Let_def split: if_splits)

text \<open>
  C30. If the program comes up, it serves. Whatever the options, the files and the machine: when
  \<open>main\<close> reaches its wait without a panic, the proxy is online and open and listens on both addresses,
  every zone of its router has an open connection, its configuration is valid, the log level is the
  one named or INFO, and the load is followed exactly when there are processors to add.
\<close>

theorem main_serves:
  assumes "run_main uni M d g ask ListZone n H E ord w = Some (Inr (S, p))"
  shows "IsOnline p \<and> \<not> IsClosed p \<and> lproxy p = Some Listening \<and> ladmin p = Some Listening
    \<and> router_inv (nat (BackendNumberDatabases (sConfig S))) (prouter p, ppool' p) \<and> online (prouter p)
    \<and> Validate (sConfig S) = None
    \<and> logLevelOf (StdLog (sLog S)) = (case d ''--log-level'' of Some (OptString s) \<Rightarrow> snd (ParseFromString uni s 0) | _ \<Rightarrow> LevelInfo)
    \<and> sNcpu S \<le> sMaxNcpu S \<and> (sAuto S \<longleftrightarrow> sNcpu S < sMaxNcpu S)"
proof -
  from assms obtain q w' where S: "read_settings uni M d g = Inr S"
    and q: "New ask ListZone n H E ord (sConfig S) w = (Some (Inr q), w')" and p: "start_proxy q = Inr p"
    by (auto simp: run_main_def and_so_Inr split: sum.splits option.splits prod.splits)
  note inv = New_inv [OF q]
  have st: "StartProxy q = (None, p)" using p by (auto simp: start_proxy_def split: prod.splits option.splits)
  then have i: "proxy_inv (sConfig S) p" "\<not> pclosed p" "ponline p"
    using StartProxy_inv [of "sConfig S" q None p] inv by (auto simp: StartProxy_def split: if_splits)
  from S obtain f g1 where l: "set_level uni d g1 = Inr (sLog S)" "cpu_options M d = Inr (sNcpu S, sMaxNcpu S)"
    "load_config M d = Inr (sConfig S)" "sAuto S = (sNcpu S < sMaxNcpu S)"
    by (auto simp: read_settings_def and_so_Inr)
  then show ?thesis using i load_config_valid [OF l(3)] set_level_named [OF l(1)] cpu_options_order [OF l(2)]
    by (simp add: proxy_inv_def IsOnline_def IsClosed_def)
qed

definition plain_machine :: machine where
  "plain_machine = \<lparr>ulimitOut = Inr (''4096'' @ [LF]), NumCPU = 8, absPath = Inr, writePid = (\<lambda>_. None),
     tomlFile = (\<lambda>_ _. (None, plain_config))\<rparr>"

definition plain_options :: options where
  "plain_options = [''--log-level'' \<mapsto> OptString ''warn'', ''--ncpu'' \<mapsto> OptString ''2'', ''--config'' \<mapsto> OptString ''proxy.conf'']"

lemma plain_settings:
  "\<exists>S. read_settings (\<lambda>s. s) plain_machine plain_options \<lparr>StdLog = NewLogger []\<rparr> = Inr S \<and> sConfig S = plain_config \<and> sAuto S"
proof -
  have c: "load_config plain_machine plain_options = Inr plain_config"
    by (simp add: load_config_def NewDefaultConfig_eq plain_options_def Argument_def and_so_def LoadFromFile_def plain_machine_def plain_valid)
  have n: "ParseInt ''2'' = Inr 2" by code_simp
  have u: "to_upper (\<lambda>s. s) ''warn'' = ''WARN''" by code_simp
  let ?g = "\<lparr>StdLog = NewLogger []\<rparr>"
  have "open_log plain_options g = Inr (None, g)" for g
    by (simp add: open_log_def plain_options_def Argument_def and_so_def)
  moreover obtain g1 where "set_level (\<lambda>s. s) plain_options \<lparr>StdLog = NewLogger []\<rparr> = Inr g1"
    by (simp add: set_level_def plain_options_def Argument_def and_so_def PkgSetLevelString_def on_std_def SetLevelString_def ParseFromString_def u)
  moreover have "check_ulimit plain_machine plain_options = Inr ()"
    by (simp add: check_ulimit_def ArgumentInteger_def plain_options_def Argument_def and_so_def)
  moreover have "cpu_options plain_machine plain_options = Inr (2, 8)"
    by (simp add: cpu_options_def ArgumentInteger_def plain_options_def Argument_def and_so_def n plain_machine_def)
  moreover have "pid_file plain_machine plain_options = Inr None"
    by (simp add: pid_file_def plain_options_def Argument_def and_so_def)
  ultimately show ?thesis using c by (simp add: read_settings_def and_so_def)
qed

theorem main_serves_witness:
  "\<exists>S p. run_main (\<lambda>s. s) plain_machine plain_options \<lparr>StdLog = NewLogger []\<rparr> (\<lambda>_. Inr []) (\<lambda>_. Inr [])
      (answering_net (Replied (NewBulkBytes None))) plain_host (plain_start (Inr ''10.0.0.1:11080'')) [''A''] () = Some (Inr (S, p))
     \<and> IsOnline p \<and> lproxy p = Some Listening \<and> logLevelOf (StdLog (sLog S)) = LevelWarn"
proof -
  obtain S where S: "read_settings (\<lambda>s. s) plain_machine plain_options \<lparr>StdLog = NewLogger []\<rparr> = Inr S" "sConfig S = plain_config"
    using plain_settings by blast
  obtain q where q: "plain_New (Inr ''10.0.0.1:11080'') = (Some (Inr q), ())" using plain_runs by blast
  have "\<not> pclosed q" using New_inv [OF q] by simp
  then obtain p where "start_proxy q = Inr p" by (cases "ponline q") (auto simp: start_proxy_def StartProxy_def)
  then have r: "run_main (\<lambda>s. s) plain_machine plain_options \<lparr>StdLog = NewLogger []\<rparr> (\<lambda>_. Inr []) (\<lambda>_. Inr [])
      (answering_net (Replied (NewBulkBytes None))) plain_host (plain_start (Inr ''10.0.0.1:11080'')) [''A''] () = Some (Inr (S, p))"
    using S q by (simp add: run_main_def and_so_def)
  have "snd (ParseFromString (\<lambda>s. s) ''warn'' 0) = LevelWarn"
  proof -
    have "to_upper (\<lambda>s. s) ''warn'' = ''WARN''" by code_simp
    then show ?thesis by (simp add: ParseFromString_def)
  qed
  with main_serves [OF r] r show ?thesis by (simp add: plain_options_def)
qed

subsection \<open>Following the load\<close>

text \<open>
  \<open>AutoGOMAXPROCS\<close>. A sample is a usage, or None when it could not be read; whether it is low or high
  for so many processors is floating point, a parameter. A round takes ten samples, fewer when one is
  high.
\<close>

record 'f loadOps =
  lowUse :: "'f \<Rightarrow> int \<Rightarrow> bool"
  highUse :: "'f \<Rightarrow> int \<Rightarrow> bool"

definition GOMAXPROCS :: "int \<Rightarrow> int \<Rightarrow> int" where
  "GOMAXPROCS n procs = (if n > 0 then n else procs)"

fun sample_loop :: "'f loadOps \<Rightarrow> int \<Rightarrow> int \<Rightarrow> int \<Rightarrow> 'f option list \<Rightarrow> nat \<Rightarrow> nat \<Rightarrow> nat \<times> nat" where
  "sample_loop F lo hi ncpu [] fewer extra = (fewer, extra)"
| "sample_loop F lo hi ncpu (u # us) fewer extra =
     (if extra \<noteq> 0 then (fewer, extra)
      else
        (case u of
           None \<Rightarrow> sample_loop F lo hi ncpu us fewer extra
         | Some x \<Rightarrow>
             if lowUse F x ncpu \<and> ncpu > lo then sample_loop F lo hi ncpu us (fewer + 1) extra
             else if highUse F x ncpu \<and> ncpu < hi then sample_loop F lo hi ncpu us fewer (extra + 1)
             else sample_loop F lo hi ncpu us fewer extra))"

definition auto_round :: "'f loadOps \<Rightarrow> int \<Rightarrow> int \<Rightarrow> 'f option list \<Rightarrow> int \<Rightarrow> int" where
  "auto_round F lo hi us procs =
     (let ncpu = GOMAXPROCS 0 procs;
          (fewer, extra) = sample_loop F lo hi ncpu us 0 0;
          nn = (if extra \<noteq> 0 then ncpu + go_div (hi - ncpu + 3) 4 else if fewer = 10 then ncpu - 1 else ncpu)
      in if nn \<noteq> ncpu then GOMAXPROCS nn procs else procs)"

primrec auto_rounds :: "'f loadOps \<Rightarrow> int \<Rightarrow> int \<Rightarrow> 'f option list list \<Rightarrow> int \<Rightarrow> int" where
  "auto_rounds F lo hi [] procs = procs"
| "auto_rounds F lo hi (us # uss) procs = auto_rounds F lo hi uss (auto_round F lo hi us procs)"

lemma sample_loop_counts:
  "sample_loop F lo hi n us fewer extra = (l, m) \<Longrightarrow> extra \<noteq> 0 \<longrightarrow> n < hi \<Longrightarrow> 0 < fewer \<longrightarrow> lo < n \<Longrightarrow>
     (m \<noteq> 0 \<longrightarrow> n < hi) \<and> (0 < l \<longrightarrow> lo < n)"
  by (induction F lo hi n us fewer extra rule: sample_loop.induct) (auto split: option.splits if_splits)

lemma auto_round_cases:
  assumes "1 \<le> procs"
  shows "auto_round F lo hi us procs = procs
    \<or> procs < hi \<and> auto_round F lo hi us procs = procs + (hi - procs + 3) div 4
    \<or> lo < procs \<and> auto_round F lo hi us procs = (if procs = 1 then 1 else procs - 1)"
proof -
  obtain l m where s: "sample_loop F lo hi procs us 0 0 = (l, m)" by (cases "sample_loop F lo hi procs us 0 0")
  note c = sample_loop_counts [OF s]
  show ?thesis using s c assms by (auto simp: auto_round_def GOMAXPROCS_def Let_def)
qed

definition all_high :: "'f loadOps \<Rightarrow> 'f option list \<Rightarrow> bool" where
  "all_high F us \<longleftrightarrow> us \<noteq> [] \<and> (\<forall>u \<in> set us. \<exists>x. u = Some x \<and> (\<forall>n. highUse F x n \<and> \<not> lowUse F x n))"

definition all_low :: "'f loadOps \<Rightarrow> 'f option list \<Rightarrow> bool" where
  "all_low F us \<longleftrightarrow> length us = 10 \<and> (\<forall>u \<in> set us. \<exists>x. u = Some x \<and> (\<forall>n. lowUse F x n \<and> \<not> highUse F x n))"

lemma sample_low:
  "\<forall>u \<in> set us. \<exists>x. u = Some x \<and> (\<forall>n. lowUse F x n \<and> \<not> highUse F x n) \<Longrightarrow> lo < n \<Longrightarrow>
     sample_loop F lo hi n us l 0 = (l + length us, 0)"
proof (induction us arbitrary: l)
  case Nil
  then show ?case by simp
next
  case (Cons u us)
  then obtain x where "u = Some x" "lowUse F x n" by auto
  then show ?case using Cons by simp
qed

lemma round_low: "all_low F us \<Longrightarrow> lo < procs \<Longrightarrow> 1 \<le> lo \<Longrightarrow> auto_round F lo hi us procs = procs - 1"
  using sample_low [of us F lo procs hi 0] by (auto simp: all_low_def auto_round_def GOMAXPROCS_def Let_def)

lemma sample_stops: "extra \<noteq> 0 \<Longrightarrow> sample_loop F lo hi n us l extra = (l, extra)"
  by (cases us) simp_all

lemma sample_full:
  "\<forall>u \<in> set us. \<exists>x. u = Some x \<and> (\<forall>n. highUse F x n \<and> \<not> lowUse F x n) \<Longrightarrow> \<not> n < hi \<Longrightarrow>
     sample_loop F lo hi n us l 0 = (l, 0)"
proof (induction us)
  case Nil
  then show ?case by simp
next
  case (Cons u us)
  then obtain x where "u = Some x" "\<not> lowUse F x n" by auto
  then show ?case using Cons by simp
qed

lemma round_high:
  assumes "all_high F us" "procs \<le> hi" "1 \<le> procs"
  shows "auto_round F lo hi us procs = procs + (hi - procs + 3) div 4"
proof (cases "procs < hi")
  case True
  obtain u vs x where "us = u # vs" "u = Some x" "highUse F x procs" "\<not> lowUse F x procs"
    using assms(1) by (cases us) (auto simp: all_high_def)
  then have "sample_loop F lo hi procs us 0 0 = (0, 1)" using True by (simp add: sample_stops)
  then show ?thesis using True assms(3) by (simp add: auto_round_def GOMAXPROCS_def)
next
  case False
  then have "sample_loop F lo hi procs us 0 0 = (0, 0)" using sample_full [of us F procs hi lo 0] assms(1) by (auto simp: all_high_def)
  then show ?thesis using False assms(2) by (simp add: auto_round_def GOMAXPROCS_def)
qed

lemma round_range: "1 \<le> lo \<Longrightarrow> lo \<le> procs \<Longrightarrow> procs \<le> hi \<Longrightarrow> lo \<le> auto_round F lo hi us procs \<and> auto_round F lo hi us procs \<le> hi"
  using auto_round_cases [of procs F lo hi us] by (auto split: if_splits)

lemma rounds_range: "1 \<le> lo \<Longrightarrow> lo \<le> procs \<Longrightarrow> procs \<le> hi \<Longrightarrow> lo \<le> auto_rounds F lo hi uss procs \<and> auto_rounds F lo hi uss procs \<le> hi"
proof (induction uss arbitrary: procs)
  case Nil
  then show ?case by simp
next
  case (Cons us uss)
  then show ?case using round_range [of lo procs hi F us] by simp
qed

lemma rounds_high:
  "list_all (all_high F) uss \<Longrightarrow> 1 \<le> lo \<Longrightarrow> lo \<le> procs \<Longrightarrow> procs \<le> hi \<Longrightarrow> hi - procs \<le> int (length uss) \<Longrightarrow>
     auto_rounds F lo hi uss procs = hi"
proof (induction uss arbitrary: procs)
  case Nil
  then show ?case by simp
next
  case (Cons us uss)
  let ?p = "auto_round F lo hi us procs"
  have p: "?p = procs + (hi - procs + 3) div 4" using round_high [of F us procs hi lo] Cons.prems by simp
  then have "lo \<le> ?p" "?p \<le> hi" "hi - ?p \<le> int (length uss)" using Cons.prems by auto
  then show ?case using Cons by simp
qed

lemma rounds_low:
  "list_all (all_low F) uss \<Longrightarrow> 1 \<le> lo \<Longrightarrow> lo \<le> procs \<Longrightarrow> procs - lo = int (length uss) \<Longrightarrow>
     auto_rounds F lo hi uss procs = lo"
proof (induction uss arbitrary: procs)
  case Nil
  then show ?case by simp
next
  case (Cons us uss)
  then show ?case using round_low [of F us lo procs hi] by simp
qed

text \<open>
  The number of processors follows the load within its bounds. After any rounds of any samples,
  those that failed included, it lies between the two limits; rounds of high use bring it to the
  upper one, in no more rounds than there are processors to add, and as many rounds of low use as
  there are processors to give back bring it down to the lower one.
\<close>

theorem cpus_follow_load:
  assumes "1 \<le> lo" "lo \<le> procs" "procs \<le> hi"
  shows "lo \<le> auto_rounds F lo hi uss procs \<and> auto_rounds F lo hi uss procs \<le> hi
    \<and> (list_all (all_high F) uss \<and> hi - procs \<le> int (length uss) \<longrightarrow> auto_rounds F lo hi uss procs = hi)
    \<and> (list_all (all_low F) uss \<and> procs - lo = int (length uss) \<longrightarrow> auto_rounds F lo hi uss procs = lo)"
  using rounds_range [OF assms] rounds_high [OF _ assms] rounds_low [OF _ assms(1,2)] by blast

definition percent :: "nat loadOps" where
  "percent = \<lparr>lowUse = (\<lambda>x _. x < 30), highUse = (\<lambda>x _. x > 70)\<rparr>"

theorem cpus_follow_load_witness:
  "auto_rounds percent 2 8 (replicate 6 (replicate 10 (Some 90))) 2 = 8"
  using cpus_follow_load [of 2 2 8 percent "replicate 6 (replicate 10 (Some 90))"]
  by (simp add: percent_def all_high_def list_all_iff)

end
