(* ===== verification/KeepAlive.thy ===== *)
theory KeepAlive
  imports Backend Failover Info Handshake
begin

section \<open>Keeping backends alive\<close>

text \<open>
  Models \<open>BackendConn.KeepAlive\<close> of \<open>pkg/proxy/pool.go\<close> with its callback, the state of a
  connection (disconnected, connected, data stale), and the \<open>KeepAlive\<close> of a shared connection, of
  the pool and of \<open>pkg/proxy/router.go\<close>. A request pushed by it is a number like every other.
\<close>

subsection \<open>One connection\<close>

text \<open>Which request is sent: none while the queue is not empty, INFO to find out about stale data.\<close>

datatype probe = Ping | AskInfo

definition probe_of :: "backend \<Rightarrow> probe option" where
  "probe_of b = (if input b \<noteq> [] then None else if bstate b = stateDataStale then Some AskInfo else Some Ping)"

text \<open>The probes: only INFO has a wait group, whose address is \<open>g\<close>.\<close>

definition probe_request :: "nat \<Rightarrow> probe \<Rightarrow> request" where
  "probe_request g k =
     (case k of
        Ping \<Rightarrow> zero_request\<lparr>rMulti := [bulk ''PING'']\<rparr>
      | AskInfo \<Rightarrow> zero_request\<lparr>rMulti := [bulk ''INFO''], rBatch := Some g\<rparr>)"

text \<open>\<open>PushBack\<close> of a request without a wait group: a full channel is a nil dereference.\<close>

definition push_request :: "request \<Rightarrow> nat \<Rightarrow> backend \<Rightarrow> backend option" where
  "push_request q r b =
     (if rBatch q = None \<and> \<not> inclosed b \<and> \<not> length (input b) < input_cap then None else PushBack r b)"

text \<open>The result of \<open>KeepAlive\<close>, whether a callback was registered, and the connection.\<close>

definition KeepAlive :: "nat \<Rightarrow> nat \<Rightarrow> backend \<Rightarrow> (bool \<times> bool \<times> backend) option" where
  "KeepAlive g r b =
     (case probe_of b of
        None \<Rightarrow> Some (False, False, b)
      | Some k \<Rightarrow>
          (case push_request (probe_request g k) r b of
             None \<Rightarrow> None
           | Some b' \<Rightarrow> Some (True, k = AskInfo, b')))"

text \<open>What the callback makes of the answer to INFO.\<close>

definition healthy :: "resp \<Rightarrow> bool" where
  "healthy resp \<longleftrightarrow>
     (let info = parse_info (text_of (rvalue resp)) in
      lookup info ''master_link_status'' \<noteq> ''down'' \<and> lookup info ''loading'' \<noteq> ''1'')"

definition keepAliveCallback :: "answer \<Rightarrow> backend \<Rightarrow> goerror option \<times> backend" where
  "keepAliveCallback ans b =
     (case ans of
        (_, Some e) \<Rightarrow> (Some e, b)
      | (None, None) \<Rightarrow> (Some (ErrVar ErrRespIsRequired), b)
      | (Some resp, None) \<Rightarrow>
          if IsError resp then (Some (ErrNew (''bad info resp: '' @ text_of (rvalue resp))), b)
          else if IsBulkBytes resp then
            (if healthy resp then (None, b\<lparr>bstate := snd (CompareAndSwap (bstate b) stateDataStale stateConnected)\<rparr>)
             else (None, b))
          else (Some (ErrNew (''bad info resp: should be string, but got '' @ RespType_String (rtype resp))), b))"

subsection \<open>The connection with its probes\<close>

text \<open>
  The callbacks run one after another in the order they were registered, each when its INFO has
  been answered.
\<close>

record kstate =
  kb :: backend
  infos :: "nat list"

definition kstart :: kstate where
  "kstart = \<lparr>kb = NewBackendConn, infos = []\<rparr>"

inductive kstep :: "nat \<Rightarrow> (nat \<Rightarrow> request) \<Rightarrow> (nat \<Rightarrow> bool) \<Rightarrow> (goerror \<Rightarrow> string) \<Rightarrow> kstate \<Rightarrow> kstate \<Rightarrow> bool"
  for cap :: nat and reqs :: "nat \<Rightarrow> request" and brk :: "nat \<Rightarrow> bool" and etxt :: "goerror \<Rightarrow> string" where
  inner: "bstep cap reqs brk etxt (kb s) b' \<Longrightarrow> kstep cap reqs brk etxt s (s\<lparr>kb := b'\<rparr>)"
| probe: "r \<notin> set (accepted (kb s)) \<Longrightarrow> KeepAlive g r (kb s) = Some (ok, cb, b') \<Longrightarrow>
    kstep cap reqs brk etxt s \<lparr>kb = b', infos = infos s @ (if cb then [r] else [])\<rparr>"
| callback: "infos s = r # rs \<Longrightarrow> (r, ans) \<in> set (answered (kb s)) \<Longrightarrow>
    kstep cap reqs brk etxt s \<lparr>kb = snd (keepAliveCallback ans (kb s)), infos = rs\<rparr>"

inductive_cases kstepE: "kstep cap reqs brk etxt s s'"

lemma KeepAlive_push:
  "KeepAlive g r b = Some (ok, cb, b') \<Longrightarrow> b' = b \<or> PushBack r b = Some b'"
  by (auto simp: KeepAlive_def push_request_def split: option.splits if_splits)

lemma KeepAlive_total:
  assumes "\<not> inclosed b"
  shows "KeepAlive g r b = Some (input b = [], input b = [] \<and> bstate b = stateDataStale,
    if input b = [] then b\<lparr>input := [r], accepted := accepted b @ [r]\<rparr> else b)"
  using assms by (simp add: KeepAlive_def probe_of_def push_request_def PushBack_def input_cap_def)

lemma callback_state:
  "snd (keepAliveCallback ans b) = b \<or>
   (\<exists>resp. ans = (Some resp, None) \<and> IsBulkBytes resp \<and> healthy resp \<and>
      bstate b = stateDataStale \<and> snd (keepAliveCallback ans b) = b\<lparr>bstate := stateConnected\<rparr>)"
proof -
  obtain x e where "ans = (x, e)" by (cases ans)
  moreover have "b\<lparr>bstate := bstate b\<rparr> = b" by simp
  ultimately show ?thesis
    by (cases x; cases e) (auto simp: keepAliveCallback_def CompareAndSwap_def split: if_splits)
qed

subsection \<open>The state follows the connection\<close>

text \<open>A connection that is not at 0 has a writer in its loop, which has an open channel to a reader.\<close>

definition state_inv :: "backend \<Rightarrow> bool" where
  "state_inv b \<longleftrightarrow> bstate b \<in> {0, stateConnected, stateDataStale} \<and> (bstate b \<noteq> 0 \<longleftrightarrow> writing (wph b))"

lemmas state_values = stateConnected_def stateDataStale_def

lemma note_state_values:
  "bstate (note_state x b) = bstate b \<or>
   stale_reply x \<and> bstate b = stateConnected \<and> bstate (note_state x b) = stateDataStale"
  by (auto simp: note_state_def CompareAndSwap_def)

text \<open>How a step of the connection changes the state, and whether the writer is in its loop.\<close>

lemma write_one_state:
  assumes "write_one cap reqs brk etxt out r b = b'" "writing (wph b)"
  shows "bstate b' = bstate b \<and> writing (wph b') \<or> bstate b' = 0 \<and> \<not> writing (wph b')"
proof -
  have "bstate (writer_exit err c) = 0" "\<not> writing (wph (writer_exit err c))" for err c
    by (simp_all add: writer_exit_def)
  then show ?thesis using assms by (auto simp: write_one_def Let_def split: if_splits wire_out.splits)
qed

lemma bstep_state:
  assumes "bstep cap reqs brk etxt b b'"
  shows "bstate b' = bstate b \<and> writing (wph b') = writing (wph b)
    \<or> wph b = WDial \<and> bstate b' = stateConnected \<and> writing (wph b')
    \<or> writing (wph b) \<and> bstate b' = 0 \<and> \<not> writing (wph b')
    \<or> bstate b = stateConnected \<and> bstate b' = stateDataStale \<and> writing (wph b') = writing (wph b)
      \<and> (\<exists>r resp. stale_reply resp \<and> answered b' = answered b @ [(r, (Some resp, None))])"
  using assms
proof cases
  case (write_req r rest out)
  then show ?thesis using write_one_state [of cap reqs brk etxt out r "b\<lparr>input := rest\<rparr>"] by auto
next
  case (read_ok j r resp)
  let ?b1 = "b\<lparr>rdrs := (rdrs b)[j := (rdrs b ! j)\<lparr>rcur := None, got := got (rdrs b ! j) @ [(r, resp)]\<rparr>]\<rparr>"
  have "bstate b' = bstate (note_state resp ?b1)" "wph b' = wph b" "answered b' = answered b @ [(r, (Some resp, None))]"
    using read_ok(1) by (simp_all add: reader_got_def)
  then show ?thesis using note_state_values [of resp ?b1] by auto
next
  case (push r)
  then show ?thesis by (auto simp: PushBack_def split: if_splits)
next
  case drain_err
  then show ?thesis by (auto simp: delayBeforeRetry_def Let_def split: if_splits option.splits prod.splits)
qed (auto simp: dialled_def dial_failed_def writer_exit_def send_task_def reader_failed_def)

lemma bstep_state_inv [inv_preserved]: "bstep cap reqs brk etxt b b' \<Longrightarrow> state_inv b \<Longrightarrow> state_inv b'"
  using bstep_state [of cap reqs brk etxt b b'] by (auto simp: state_inv_def state_values)

definition kinv :: "kstate \<Rightarrow> bool" where
  "kinv s \<longleftrightarrow> shape (kb s) \<and> state_inv (kb s)"

lemma probe_is_push:
  assumes "r \<notin> set (accepted b)" "KeepAlive g r b = Some (ok, cb, b')"
  shows "b' = b \<or> bstep cap reqs brk etxt b b'"
  using KeepAlive_push [OF assms(2)] assms(1) by (auto intro: bstep.push)

lemma kinv_state: "shape b \<Longrightarrow> bstate b \<noteq> 0 \<Longrightarrow> state_inv b \<Longrightarrow> v \<in> {stateConnected, stateDataStale} \<Longrightarrow>
    shape (b\<lparr>bstate := v\<rparr>) \<and> state_inv (b\<lparr>bstate := v\<rparr>)"
  by (auto simp: shape_def state_inv_def state_values)

lemma kstep_inv [inv_preserved]: "kstep cap reqs brk etxt s s' \<Longrightarrow> kinv s \<Longrightarrow> kinv s'"
proof (induction rule: kstep.induct)
  case (inner s b')
  then show ?case by (auto simp: kinv_def intro: bstep_shape bstep_state_inv)
next
  case (probe r s g ok cb b')
  then show ?case using probe_is_push [OF probe(1,2), of cap reqs brk etxt]
    by (auto simp: kinv_def intro: bstep_shape bstep_state_inv)
next
  case (callback s r rs ans)
  then show ?case
    using callback_state [of ans "kb s"] kinv_state [of "kb s" stateConnected]
    by (auto simp: kinv_def state_values)
qed

lemma kstart_inv: "kinv kstart"
  using shape_start by (simp add: kinv_def kstart_def state_inv_def NewBackendConn_def)

interpretation probed: trans_sys "\<lambda>s. s = kstart" "kstep cap reqs brk etxt" kinv
  by unfold_locales (simp_all add: kstart_inv kstep_inv)

text \<open>
  C15. What the state of a backend connection says is so. Whatever sessions, probes, the network
  and the callbacks do, a connection that reports to be connected, and one with stale data, has a
  writer in its loop, whose channel to the reader of the last dialled connection is open.
\<close>

theorem connected_is_connected:
  assumes "(kstep cap reqs brk etxt)\<^sup>*\<^sup>* kstart s" "bstate (kb s) \<noteq> 0"
  shows "writing (wph (kb s)) \<and> rdrs (kb s) \<noteq> [] \<and> \<not> tclosed (last (rdrs (kb s))) \<and> rphase (last (rdrs (kb s))) \<noteq> RDone"
proof -
  have "kinv s" by (rule probed.reach_inv [OF refl assms(1)])
  then have "shape (kb s)" "writing (wph (kb s))" using assms(2) by (simp_all add: kinv_def state_inv_def)
  then show ?thesis using shape_writing [of "kb s"] by auto
qed

text \<open>The connection after its first dial.\<close>

definition dialled_state :: kstate where
  "dialled_state = kstart\<lparr>kb := dialled (NewBackendConn\<lparr>wph := WDial\<rparr>)\<rparr>"

lemma dialled_run:
  "kstep cap reqs brk etxt kstart (kstart\<lparr>kb := NewBackendConn\<lparr>wph := WDial\<rparr>\<rparr>)"
  "kstep cap reqs brk etxt (kstart\<lparr>kb := NewBackendConn\<lparr>wph := WDial\<rparr>\<rparr>) dialled_state"
proof -
  have "bstep cap reqs brk etxt NewBackendConn (NewBackendConn\<lparr>wph := WDial\<rparr>)"
    by (rule bstep.run_round) (simp_all add: NewBackendConn_def)
  then show "kstep cap reqs brk etxt kstart (kstart\<lparr>kb := NewBackendConn\<lparr>wph := WDial\<rparr>\<rparr>)"
    using kstep.inner [of cap reqs brk etxt kstart] by (simp add: kstart_def)
  have "bstep cap reqs brk etxt (NewBackendConn\<lparr>wph := WDial\<rparr>) (dialled (NewBackendConn\<lparr>wph := WDial\<rparr>))"
    by (rule bstep.dial_ok) simp
  then show "kstep cap reqs brk etxt (kstart\<lparr>kb := NewBackendConn\<lparr>wph := WDial\<rparr>\<rparr>) dialled_state"
    using kstep.inner [of cap reqs brk etxt "kstart\<lparr>kb := NewBackendConn\<lparr>wph := WDial\<rparr>\<rparr>"]
    by (simp add: kstart_def dialled_state_def)
qed

lemma dialled_reached: "(kstep cap reqs brk etxt)\<^sup>*\<^sup>* kstart dialled_state"
  using dialled_run [of cap reqs brk etxt] by (meson r_into_rtranclp rtranclp_trans)

lemma dialled_state_value: "bstate (kb dialled_state) = stateConnected"
  by (simp add: dialled_state_def kstart_def dialled_def)

theorem connected_is_connected_witness:
  "writing (wph (kb dialled_state)) \<and> rdrs (kb dialled_state) \<noteq> [] \<and> \<not> tclosed (last (rdrs (kb dialled_state))) \<and>
     rphase (last (rdrs (kb dialled_state))) \<noteq> RDone"
  using dialled_state_value
  by (intro connected_is_connected [OF dialled_reached [of 1 "\<lambda>_. zero_request" "\<lambda>_. False" "\<lambda>_. []"]]) (simp add: state_values)

text \<open>
  C16. The life of the state. It becomes connected from nothing only by a dial that succeeded, data
  becomes stale only by a reply that says MASTERDOWN or LOADING, and stale data is forgiven only by
  the answer to an INFO that tells neither that the link to the master is down nor that data is
  being loaded.
\<close>

theorem stale_until_info:
  assumes "(kstep cap reqs brk etxt)\<^sup>*\<^sup>* kstart s" "kstep cap reqs brk etxt s s'"
  shows "(bstate (kb s) = 0 \<and> bstate (kb s') \<noteq> 0 \<longrightarrow> wph (kb s) = WDial \<and> bstate (kb s') = stateConnected)
    \<and> (bstate (kb s) \<noteq> stateDataStale \<and> bstate (kb s') = stateDataStale \<longrightarrow> bstate (kb s) = stateConnected \<and>
        (\<exists>r resp. stale_reply resp \<and> answered (kb s') = answered (kb s) @ [(r, (Some resp, None))]))
    \<and> (bstate (kb s) = stateDataStale \<and> bstate (kb s') = stateConnected \<longrightarrow>
        (\<exists>r resp. r \<in> set (infos s) \<and> (r, (Some resp, None)) \<in> set (answered (kb s)) \<and> IsBulkBytes resp \<and>
          lookup (parse_info (text_of (rvalue resp))) ''master_link_status'' \<noteq> ''down'' \<and>
          lookup (parse_info (text_of (rvalue resp))) ''loading'' \<noteq> ''1''))"
proof -
  have i: "state_inv (kb s)" using probed.reach_inv [OF refl assms(1)] by (simp add: kinv_def)
  from assms(2) show ?thesis
  proof (rule kstepE)
    fix b' assume "s' = s\<lparr>kb := b'\<rparr>" "bstep cap reqs brk etxt (kb s) b'"
    then show ?thesis using bstep_state [of cap reqs brk etxt "kb s" b'] i by (auto simp: state_inv_def state_values)
  next
    fix r g ok cb b'
    assume a: "s' = \<lparr>kb = b', infos = infos s @ (if cb then [r] else [])\<rparr>"
      "r \<notin> set (accepted (kb s))" "KeepAlive g r (kb s) = Some (ok, cb, b')"
    then have "bstate b' = bstate (kb s)" using KeepAlive_push [OF a(3)] by (auto simp: PushBack_def split: if_splits)
    then show ?thesis using a(1) by (auto simp: state_values)
  next
    fix r rs ans
    assume "s' = \<lparr>kb = snd (keepAliveCallback ans (kb s)), infos = rs\<rparr>" "infos s = r # rs" "(r, ans) \<in> set (answered (kb s))"
    then show ?thesis using callback_state [of ans "kb s"] by (auto simp: state_values healthy_def Let_def)
  qed
qed

text \<open>
  A connection whose data went stale, with the answer to an INFO at hand: the callback is the step.
\<close>

definition first_dial :: kstate where
  "first_dial = kstart\<lparr>kb := NewBackendConn\<lparr>wph := WDial\<rparr>\<rparr>"

theorem stale_until_info_witness:
  "bstate (kb first_dial) = 0 \<and> wph (kb first_dial) = WDial \<and> bstate (kb dialled_state) = stateConnected"
proof -
  let ?k = "kstep 1 (\<lambda>_. zero_request) (\<lambda>_. False) (\<lambda>_. [])"
  have "?k\<^sup>*\<^sup>* kstart first_dial" "?k first_dial dialled_state"
    using dialled_run [of 1 "\<lambda>_. zero_request" "\<lambda>_. False" "\<lambda>_. []"] by (simp_all add: first_dial_def)
  moreover have "bstate (kb first_dial) = 0" by (simp add: first_dial_def NewBackendConn_def)
  ultimately show ?thesis using stale_until_info [of 1 "\<lambda>_. zero_request" "\<lambda>_. False" "\<lambda>_. []" first_dial dialled_state] dialled_state_value
    by (simp add: state_values)
qed

subsection \<open>The pool\<close>

text \<open>
  The backend connections are a store \<open>bes\<close>; \<open>n\<close> is the first number no request has. Sending on
  the channel of callbacks waits while 128 of them are pending, which takes no part in the result.
\<close>

primrec keep_conns :: "nat list \<Rightarrow> nat \<Rightarrow> (nat \<Rightarrow> backend) \<Rightarrow> (nat \<times> (nat \<Rightarrow> backend)) option" where
  "keep_conns [] n bes = Some (n, bes)"
| "keep_conns (c # cs) n bes =
     (case KeepAlive n n (bes c) of
        None \<Rightarrow> None
      | Some (ok, cb, b) \<Rightarrow> keep_conns cs (if ok then Suc n else n) (bes(c := b)))"

definition SharedKeepAlive :: "sharedConn option \<Rightarrow> nat \<Rightarrow> (nat \<Rightarrow> backend) \<Rightarrow> (nat \<times> (nat \<Rightarrow> backend)) option" where
  "SharedKeepAlive s n bes = (case s of None \<Rightarrow> Some (n, bes) | Some c \<Rightarrow> keep_conns (concat (sconns c)) n bes)"

primrec PoolKeepAlive :: "pool \<Rightarrow> string list \<Rightarrow> nat \<Rightarrow> (nat \<Rightarrow> backend) \<Rightarrow> (nat \<times> (nat \<Rightarrow> backend)) option" where
  "PoolKeepAlive p [] n bes = Some (n, bes)"
| "PoolKeepAlive p (addr # as) n bes =
     (case SharedKeepAlive (shared_of p (ppool p addr)) n bes of
        None \<Rightarrow> None
      | Some (n1, bes1) \<Rightarrow> PoolKeepAlive p as n1 bes1)"

definition RouterKeepAlive :: "router \<Rightarrow> pool \<Rightarrow> string list \<Rightarrow> nat \<Rightarrow> (nat \<Rightarrow> backend)
    \<Rightarrow> (goerror option \<times> nat \<times> (nat \<Rightarrow> backend)) option" where
  "RouterKeepAlive R p ord n bes =
     (if rclosed R then Some (Some (ErrVar ErrClosedRouter), n, bes)
      else map_option (\<lambda>r. (None, r)) (PoolKeepAlive p ord n bes))"

text \<open>What a round of probes does: each idle connection of a set gets one request.\<close>

definition probed_by :: "nat set \<Rightarrow> nat \<Rightarrow> (nat \<Rightarrow> backend) \<Rightarrow> nat \<Rightarrow> (nat \<Rightarrow> backend) \<Rightarrow> bool" where
  "probed_by A n bes n' bes' \<longleftrightarrow> n \<le> n' \<and>
     (\<forall>c. if c \<in> A \<and> input (bes c) = []
          then \<exists>r \<in> {n ..< n'}. bes' c = (bes c)\<lparr>input := [r], accepted := accepted (bes c) @ [r]\<rparr>
          else bes' c = bes c)"

lemma probed_by_none [simp]: "probed_by {} n bes n bes"
  by (simp add: probed_by_def)

lemma probed_by_idle: "probed_by A n bes n' bes' \<Longrightarrow> c \<in> A \<Longrightarrow> input (bes c) = [] \<Longrightarrow>
    \<exists>r \<in> {n ..< n'}. bes' c = (bes c)\<lparr>input := [r], accepted := accepted (bes c) @ [r]\<rparr>"
  and probed_by_other: "probed_by A n bes n' bes' \<Longrightarrow> c \<notin> A \<or> input (bes c) \<noteq> [] \<Longrightarrow> bes' c = bes c"
  and probed_by_le: "probed_by A n bes n' bes' \<Longrightarrow> n \<le> n'"
proof -
  assume "probed_by A n bes n' bes'"
  then have a: "if c \<in> A \<and> input (bes c) = []
    then \<exists>r \<in> {n ..< n'}. bes' c = (bes c)\<lparr>input := [r], accepted := accepted (bes c) @ [r]\<rparr> else bes' c = bes c"
    unfolding probed_by_def by blast
  show "c \<in> A \<Longrightarrow> input (bes c) = [] \<Longrightarrow>
    \<exists>r \<in> {n ..< n'}. bes' c = (bes c)\<lparr>input := [r], accepted := accepted (bes c) @ [r]\<rparr>" using a by simp
  show "c \<notin> A \<or> input (bes c) \<noteq> [] \<Longrightarrow> bes' c = bes c" using a by auto
qed (simp add: probed_by_def)

lemma probed_by_inclosed: "probed_by A n bes n' bes' \<Longrightarrow> inclosed (bes' c) = inclosed (bes c)"
  using probed_by_idle [of A n bes n' bes' c] probed_by_other [of A n bes n' bes' c]
  by (cases "c \<in> A \<and> input (bes c) = []") auto

lemma probed_by_trans:
  assumes "probed_by A n bes m bes1" "probed_by B m bes1 k bes2"
  shows "probed_by (A \<union> B) n bes k bes2"
proof -
  have le: "n \<le> m" "m \<le> k" using assms by (simp_all add: probed_by_def)
  have "if c \<in> A \<union> B \<and> input (bes c) = []
          then \<exists>r \<in> {n ..< k}. bes2 c = (bes c)\<lparr>input := [r], accepted := accepted (bes c) @ [r]\<rparr>
          else bes2 c = bes c" for c
  proof (cases "c \<in> A \<and> input (bes c) = []")
    case True
    then obtain r where r: "r \<in> {n ..< m}" "bes1 c = (bes c)\<lparr>input := [r], accepted := accepted (bes c) @ [r]\<rparr>"
      using probed_by_idle [OF assms(1)] by blast
    then have "bes2 c = bes1 c" using probed_by_other [OF assms(2), of c] by simp
    then show ?thesis using r le(2) True by (auto intro!: bexI [of _ r])
  next
    case False
    then have same: "bes1 c = bes c" using probed_by_other [OF assms(1), of c] by blast
    show ?thesis
    proof (cases "c \<in> B \<and> input (bes1 c) = []")
      case True
      with probed_by_idle [OF assms(2), of c] same le(1) show ?thesis by fastforce
    next
      case other: False
      then show ?thesis using probed_by_other [OF assms(2), of c] same False by auto
    qed
  qed
  then show ?thesis using le by (simp add: probed_by_def)
qed

lemma KeepAlive_probes:
  assumes "\<not> inclosed (bes c)"
  obtains ok cb b where "KeepAlive n n (bes c) = Some (ok, cb, b)"
    "probed_by {c} n bes (if ok then Suc n else n) (bes(c := b))"
  using KeepAlive_total [OF assms, of n n] that by (auto simp: probed_by_def)

lemma keep_conns_probes:
  "\<forall>c \<in> set cs. \<not> inclosed (bes c) \<Longrightarrow>
     \<exists>n' bes'. keep_conns cs n bes = Some (n', bes') \<and> probed_by (set cs) n bes n' bes'"
proof (induction cs arbitrary: n bes)
  case Nil
  then show ?case by simp
next
  case (Cons c cs)
  then have "\<not> inclosed (bes c)" by simp
  then obtain ok cb b where k: "KeepAlive n n (bes c) = Some (ok, cb, b)"
    "probed_by {c} n bes (if ok then Suc n else n) (bes(c := b))"
    by (rule KeepAlive_probes [where n = n])
  then have "\<forall>d \<in> set cs. \<not> inclosed ((bes(c := b)) d)" using Cons.prems probed_by_inclosed [OF k(2)] by simp
  from Cons.IH [OF this] obtain n' bes' where
    "keep_conns cs (if ok then Suc n else n) (bes(c := b)) = Some (n', bes')"
    "probed_by (set cs) (if ok then Suc n else n) (bes(c := b)) n' bes'" by blast
  then show ?case using k(1) probed_by_trans [OF k(2)] by simp
qed

text \<open>The connections of the addresses in a list.\<close>

definition conns_of :: "pool \<Rightarrow> string list \<Rightarrow> nat set" where
  "conns_of p as = \<Union> {bcs s | s. \<exists>addr \<in> set as. shared_of p (ppool p addr) = Some s}"

lemma conns_of_Cons:
  "conns_of p (addr # as) = (case shared_of p (ppool p addr) of None \<Rightarrow> {} | Some s \<Rightarrow> bcs s) \<union> conns_of p as"
  by (auto simp: conns_of_def split: option.splits)

lemma PoolKeepAlive_probes:
  "\<forall>c \<in> conns_of p as. \<not> inclosed (bes c) \<Longrightarrow>
     \<exists>n' bes'. PoolKeepAlive p as n bes = Some (n', bes') \<and> probed_by (conns_of p as) n bes n' bes'"
proof (induction as arbitrary: n bes)
  case Nil
  then show ?case by (simp add: conns_of_def)
next
  case (Cons addr as)
  let ?s = "shared_of p (ppool p addr)" and ?A = "case shared_of p (ppool p addr) of None \<Rightarrow> {} | Some s \<Rightarrow> bcs s"
  have "\<exists>n1 bes1. SharedKeepAlive ?s n bes = Some (n1, bes1) \<and> probed_by ?A n bes n1 bes1"
  proof (cases ?s)
    case None
    then show ?thesis by (simp add: SharedKeepAlive_def)
  next
    case (Some s)
    then have "\<forall>c \<in> set (concat (sconns s)). \<not> inclosed (bes c)" using Cons.prems by (simp add: conns_of_Cons bcs_def)
    from keep_conns_probes [OF this] show ?thesis using Some by (simp add: SharedKeepAlive_def bcs_def)
  qed
  then obtain n1 bes1 where s: "SharedKeepAlive ?s n bes = Some (n1, bes1)" "probed_by ?A n bes n1 bes1" by blast
  then have "\<forall>c \<in> conns_of p as. \<not> inclosed (bes1 c)" using Cons.prems probed_by_inclosed [OF s(2)] by (simp add: conns_of_Cons)
  from Cons.IH [OF this] obtain n' bes' where "PoolKeepAlive p as n1 bes1 = Some (n', bes')" "probed_by (conns_of p as) n1 bes1 n' bes'"
    by blast
  then show ?case using s(1) probed_by_trans [OF s(2)] by (auto simp: conns_of_Cons)
qed

lemma pool_conns_open:
  assumes "pool_inv refs p" "c \<in> conns_of p as"
  shows "c \<notin> bcClosed p"
proof -
  obtain s addr where s: "c \<in> bcs s" "shared_of p (ppool p addr) = Some s" using assms(2) by (auto simp: conns_of_def)
  then obtain a where a: "ppool p addr = Some a" "heap p a = Some s" by (auto simp: shared_of_def split: option.splits)
  then have "0 < refs a" using pool_map [OF assms(1)] by auto
  then show ?thesis using pool_open [OF assms(1) a(2)] s(1) by blast
qed

text \<open>
  A round of keep-alive reaches every idle connection. For every state that filling, switching
  and closing can bring a router and its pool to, \<open>KeepAlive\<close> of an open router never panics, gives each
  idle connection of the pool one new request, PING or INFO, and touches no other connection; a
  closed router refuses.
\<close>

theorem idle_conns_probed:
  assumes "new_router ndb s0" "router_step\<^sup>*\<^sup>* s0 (R, p)" "\<forall>c. inclosed (bes c) \<longrightarrow> c \<in> bcClosed p"
  shows "\<exists>err n' bes'. RouterKeepAlive R p ord n bes = Some (err, n', bes') \<and>
    (if rclosed R then err = Some (ErrVar ErrClosedRouter) \<and> bes' = bes
     else err = None \<and> probed_by (conns_of p ord) n bes n' bes')"
proof -
  have "router_inv ndb (R, p)" by (rule zones.reach_inv [OF assms(1,2)])
  then obtain refs where "pool_inv refs p" by (rule router_invE)
  then have "\<forall>c \<in> conns_of p ord. \<not> inclosed (bes c)" using pool_conns_open assms(3) by blast
  from PoolKeepAlive_probes [OF this] show ?thesis unfolding RouterKeepAlive_def by fastforce
qed

theorem idle_conns_probed_witness:
  "\<exists>R p n' bes'. FillZone (\<lambda>_. Inr []) [plain_zone ''A'' ''h:1''] (empty_router False) (NewSharedBackendConnPool 1 1) = Some (None, R, p) \<and>
     RouterKeepAlive R p [''h:1''] 7 (\<lambda>_. NewBackendConn) = Some (None, n', bes') \<and> (\<exists>r \<ge> 7. input (bes' 0) = [r])"
proof -
  let ?p = "NewSharedBackendConnPool 1 1"
  obtain R p where f: "FillZone (\<lambda>_. Inr []) [plain_zone ''A'' ''h:1''] (empty_router False) ?p = Some (None, R, p)"
    "rclosed R = False" "bcClosed p = {}" "conns_of p [''h:1''] = {0}"
    by (simp add: FillZone_def plain_zone_def PoolRetain_def NewSharedBackendConnPool_def newSharedBackendConn_def Let_def
        new_zone_def conns_of_def shared_of_def bcs_def conn_rows_def empty_router_def tiny_router_def)
  have new: "new_router 1 (empty_router False, ?p)" by (auto simp: new_router_def)
  have steps: "router_step\<^sup>*\<^sup>* (empty_router False, ?p) (R, p)" using step_fill [OF f(1)] by blast
  have open_input: "\<forall>c. inclosed NewBackendConn \<longrightarrow> c \<in> bcClosed p" by (simp add: NewBackendConn_def)
  from idle_conns_probed [OF new steps open_input, of "[''h:1'']" 7] obtain n' bes' where k: "RouterKeepAlive R p [''h:1''] 7 (\<lambda>_. NewBackendConn) = Some (None, n', bes')"
    "probed_by {0} 7 (\<lambda>_. NewBackendConn) n' bes'"
    unfolding f(2,4) by auto
  have "\<exists>r \<ge> 7. input (bes' 0) = [r]" using probed_by_idle [OF k(2), of 0] by (auto simp: NewBackendConn_def)
  then show ?thesis using f(1) k(1) by blast
qed

text \<open>
  Between the check that the queue is empty and the push, sessions may fill it: the PING has no
  wait group, and \<open>PushBack\<close> of it on a full queue panics.
\<close>

lemma ping_on_full_queue:
  "\<not> inclosed b \<Longrightarrow> input_cap \<le> length (input b) \<Longrightarrow> push_request (probe_request g Ping) r b = None"
  by (simp add: push_request_def probe_request_def zero_request_def)

text \<open>An answer of a healthy server brings a stale connection back at once; any other leaves it.\<close>

lemma info_brings_back:
  assumes "bstate b = stateDataStale"
  shows "bstate (snd (keepAliveCallback (Some (NewBulkBytes (Some text)), None) b)) =
    (if lookup (parse_info text) ''master_link_status'' \<noteq> ''down'' \<and> lookup (parse_info text) ''loading'' \<noteq> ''1''
     then stateConnected else stateDataStale)"
  using assms
  by (simp add: keepAliveCallback_def NewBulkBytes_def IsError_def IsBulkBytes_def resp_types healthy_def text_of_def
      CompareAndSwap_def Let_def)

end
