(* ===== verification/Waiting.thy ===== *)
theory Waiting
  imports Startup KeepAlive ClientPool
begin

section \<open>Loops that wait\<close>

text \<open>
  Models the loops that a clock drives: the end of \<open>main\<close> in \<open>cmd/proxy/main.go\<close>, the two tickers of
  \<open>pkg/proxy/proxy.go\<close>, and the ticker of a pool of clients in \<open>pkg/utils/redis/client.go\<close>. What a loop meets
  is a list: the states of the proxy it reads second after second, or the ticks until the exit channel is
  closed. A list that ends leaves the loop waiting.
\<close>

subsection \<open>The end of main\<close>

text \<open>\<open>for cond { sleep }\<close> over the states it reads: how often it slept, and the states after it.\<close>

fun sleep_while :: "(proxy \<Rightarrow> bool) \<Rightarrow> proxy list \<Rightarrow> (nat \<times> proxy list) option" where
  "sleep_while cond [] = None"
| "sleep_while cond (s # ss) = (if cond s then map_option (\<lambda>(n, r). (Suc n, r)) (sleep_while cond ss) else Some (0, ss))"

text \<open>Waiting to be online, then to be closed; main returns with the seconds it slept in each.\<close>

definition main_waits :: "proxy list \<Rightarrow> (nat \<times> nat) option" where
  "main_waits obs =
     (case sleep_while (\<lambda>s. \<not> IsClosed s \<and> \<not> IsOnline s) obs of
        None \<Rightarrow> None
      | Some (n, obs') \<Rightarrow>
          (case sleep_while (\<lambda>s. \<not> IsClosed s) obs' of
             None \<Rightarrow> None
           | Some (m, _) \<Rightarrow> Some (n, m)))"

lemma sleep_while_Some:
  "sleep_while cond ss = Some (n, r) \<Longrightarrow> n < length ss \<and> \<not> cond (ss ! n) \<and> (\<forall>i < n. cond (ss ! i)) \<and> r = drop (Suc n) ss"
proof (induction ss arbitrary: n)
  case Nil
  then show ?case by simp
next
  case (Cons s ss)
  show ?case
  proof (cases "cond s")
    case True
    then obtain m where "sleep_while cond ss = Some (m, r)" "n = Suc m" using Cons.prems by auto
    then show ?thesis using Cons.IH True by (auto simp: nth_Cons split: nat.split)
  next
    case False
    then show ?thesis using Cons.prems by simp
  qed
qed

lemma sleep_while_ends: "k < length ss \<Longrightarrow> \<not> cond (ss ! k) \<Longrightarrow> \<exists>n r. n \<le> k \<and> sleep_while cond ss = Some (n, r)"
proof (induction ss arbitrary: k)
  case Nil
  then show ?case by simp
next
  case (Cons s ss)
  show ?case
  proof (cases "cond s")
    case True
    then obtain j where j: "k = Suc j" using Cons.prems(2) by (cases k) auto
    then obtain n r where "n \<le> j" "sleep_while cond ss = Some (n, r)" using Cons.IH [of j] Cons.prems by auto
    then show ?thesis using True j by auto
  next
    case False
    then show ?thesis by simp
  qed
qed

text \<open>The states a running proxy goes through: once closed it stays closed.\<close>

definition stays_closed :: "proxy list \<Rightarrow> bool" where
  "stays_closed obs \<longleftrightarrow> (\<forall>i j. i \<le> j \<longrightarrow> j < length obs \<longrightarrow> IsClosed (obs ! i) \<longrightarrow> IsClosed (obs ! j))"

text \<open>
  C33. The program ends when the proxy does, and not before. While the proxy is neither online nor closed, \<open>main\<close>
  waits; it returns only after it read that the proxy is closed, and at the latest with the second reading
  of a closed proxy, whether the proxy was ever online or was closed at once.
\<close>

theorem main_ends_with_proxy:
  assumes "stays_closed obs"
  shows "(\<forall>n m. main_waits obs = Some (n, m) \<longrightarrow>
      n + m + 1 < length obs \<and> IsClosed (obs ! (n + m + 1)) \<and> (\<forall>i < n. \<not> IsClosed (obs ! i) \<and> \<not> IsOnline (obs ! i)))
    \<and> (\<forall>k. k + 1 < length obs \<longrightarrow> IsClosed (obs ! k) \<longrightarrow> (\<exists>n m. main_waits obs = Some (n, m) \<and> n + m \<le> k))"
proof (intro conjI allI impI)
  let ?c1 = "\<lambda>s. \<not> IsClosed s \<and> \<not> IsOnline s" and ?c2 = "\<lambda>s. \<not> IsClosed s"
  fix n m assume "main_waits obs = Some (n, m)"
  then obtain obs' r where w: "sleep_while ?c1 obs = Some (n, obs')" "sleep_while ?c2 obs' = Some (m, r)"
    by (auto simp: main_waits_def split: option.splits)
  note s1 = sleep_while_Some [OF w(1)] and s2 = sleep_while_Some [OF w(2)]
  have d: "obs' = drop (Suc n) obs" using s1 by simp
  then have "m < length obs - Suc n" using s2 by simp
  then show l: "n + m + 1 < length obs" by linarith
  show "IsClosed (obs ! (n + m + 1))" using s2 d l by simp
  show "\<not> IsClosed (obs ! i)" "\<not> IsOnline (obs ! i)" if "i < n" for i using s1 that by simp_all
next
  let ?c1 = "\<lambda>s. \<not> IsClosed s \<and> \<not> IsOnline s" and ?c2 = "\<lambda>s. \<not> IsClosed s"
  fix k assume k: "k + 1 < length obs" "IsClosed (obs ! k)"
  then obtain n obs' where n: "n \<le> k" "sleep_while ?c1 obs = Some (n, obs')"
    using sleep_while_ends [of k obs ?c1] by auto
  have d: "obs' = drop (Suc n) obs" using sleep_while_Some [OF n(2)] by simp
  have "IsClosed (obs ! (k + 1))" using assms k unfolding stays_closed_def by (meson le_add1)
  then have "k - n < length obs'" "IsClosed (obs' ! (k - n))" using d n(1) k(1) by auto
  then obtain m r where "m \<le> k - n" "sleep_while ?c2 obs' = Some (m, r)" using sleep_while_ends [of "k - n" obs' ?c2] by auto
  then show "\<exists>n m. main_waits obs = Some (n, m) \<and> n + m \<le> k" using n by (auto simp: main_waits_def)
qed

theorem main_ends_with_proxy_witness:
  "\<exists>p. \<not> IsClosed p \<and> \<not> IsOnline p \<and>
     (\<exists>n m. main_waits [p, p\<lparr>ponline := True\<rparr>, p\<lparr>pclosed := True\<rparr>, p\<lparr>pclosed := True\<rparr>] = Some (n, m) \<and> n + m \<le> 2)"
proof -
  obtain p where n: "plain_New (Inr ''10.0.0.1:11080'') = (Some (Inr p), ())" using plain_runs by blast
  have p: "\<not> IsClosed p" "\<not> IsOnline p" using New_inv [OF n] by (simp_all add: IsClosed_def IsOnline_def)
  let ?obs = "[p, p\<lparr>ponline := True\<rparr>, p\<lparr>pclosed := True\<rparr>, p\<lparr>pclosed := True\<rparr>]"
  have "stays_closed ?obs"
    using p(1) by (auto simp: stays_closed_def IsClosed_def nth_Cons split: nat.splits)
  from conjunct2 [OF main_ends_with_proxy [OF this], rule_format, of 2] have "\<exists>n m. main_waits ?obs = Some (n, m) \<and> n + m \<le> 2"
    by (simp add: IsClosed_def)
  then show ?thesis using p by blast
qed

subsection \<open>Tickers of the proxy\<close>

text \<open>The period is at least a second.\<close>

definition ticker_period :: "int \<Rightarrow> int" where
  "ticker_period d = MaxDuration d 1000000000"

text \<open>A tick finds the router and the pool as they are then; \<open>bes\<close> are the backend connections.\<close>

datatype ktick = KTick router pool "string list" | KExit

fun keepAlive :: "ktick list \<Rightarrow> nat \<Rightarrow> (nat \<Rightarrow> backend) \<Rightarrow> (nat \<times> (nat \<Rightarrow> backend)) option" where
  "keepAlive [] n bes = Some (n, bes)"
| "keepAlive (KExit # es) n bes = Some (n, bes)"
| "keepAlive (KTick R p ord # es) n bes =
     (case RouterKeepAlive R p ord n bes of None \<Rightarrow> None | Some (err, n', bes') \<Rightarrow> keepAlive es n' bes')"

datatype stick = STick ask "string list" | SExit

fun sentinelSwitch :: "stick list \<Rightarrow> router \<Rightarrow> pool \<Rightarrow> (router \<times> pool) option" where
  "sentinelSwitch [] R p = Some (R, p)"
| "sentinelSwitch (SExit # es) R p = Some (R, p)"
| "sentinelSwitch (STick ask ord # es) R p =
     (case SentinelSwitch ask ord R p of None \<Rightarrow> None | Some (err, R', p') \<Rightarrow> sentinelSwitch es R' p')"

lemma ticker_period_least: "1000000000 \<le> ticker_period d" "d \<le> ticker_period d"
  by (simp_all add: ticker_period_def MaxDuration_def)

lemma switch_loop_monitor: "switch_loop ask ks R p = Some (err, R', p') \<Longrightarrow> monitor R' = monitor R"
  by (induction ks arbitrary: R p) (fastforce simp: Let_def split: option.splits if_splits prod.splits)+

lemma SentinelSwitch_monitor: "SentinelSwitch ask ord R p = Some (err, R', p') \<Longrightarrow> monitor R' = monitor R"
  using switch_loop_monitor by (auto simp: SentinelSwitch_def split: if_splits)

text \<open>
  In sentinel mode, which is when the proxy starts this ticker, no round panics, whatever the sentinels
  say from one round to the next, and every zone keeps a connection.
\<close>

lemma sentinel_rounds_safe:
  "router_inv ndb (R, p) \<Longrightarrow> monitor R \<Longrightarrow> \<exists>R' p'. sentinelSwitch es R p = Some (R', p') \<and> router_inv ndb (R', p')"
proof (induction es arbitrary: R p)
  case Nil
  then show ?case by simp
next
  case (Cons e es)
  show ?case
  proof (cases e)
    case (STick ask ord)
    obtain err R1 p1 where s: "SentinelSwitch ask ord R p = Some (err, R1, p1)" "router_inv ndb (R1, p1)"
      using SentinelSwitch_inv [OF Cons.prems(1), of ask ord] Cons.prems(2) unfolding sentinels_watched_def by blast
    have "monitor R1" using SentinelSwitch_monitor [OF s(1)] Cons.prems(2) by simp
    then show ?thesis using Cons.IH [OF s(2)] s(1) STick by simp
  next
    case SExit
    then show ?thesis using Cons.prems by simp
  qed
qed

subsection \<open>The ticker of a pool of clients\<close>

text \<open>Started only for a pool with a timeout; a minute passes between the ticks.\<close>

datatype ctick = CTick "string list" | CExit

fun cleanup_rounds :: "('v, 'w) redigo \<Rightarrow> ctick list \<Rightarrow> cpool \<Rightarrow> 'w \<Rightarrow> cpool \<times> 'w" where
  "cleanup_rounds L [] p w = (p, w)"
| "cleanup_rounds L (CExit # es) p w = (p, w)"
| "cleanup_rounds L (CTick ord # es) p w = (case Cleanup L ord p w of (err, p', w') \<Rightarrow> cleanup_rounds L es p' w')"

definition pool_ticker :: "('v, 'w) redigo \<Rightarrow> int \<Rightarrow> ctick list \<Rightarrow> cpool \<Rightarrow> 'w \<Rightarrow> cpool \<times> 'w" where
  "pool_ticker L timeout es p w = (if timeout \<noteq> 0 then cleanup_rounds L es p w else (p, w))"

text \<open>Rounds only close idle connections: the books of the pool stay right and no list of it grows.\<close>

lemma pool_ticker_owned:
  assumes "redigo_laws L lv sn" "owned lv sn (p, held, w)" "pool_ticker L timeout es p w = (p', w')"
  shows "owned lv sn (p', held, w') \<and> (\<forall>a. subseq (at_addr p' a) (at_addr p a))"
proof -
  have "owned lv sn (p', held, w') \<and> (\<forall>a. subseq (at_addr p' a) (at_addr p a))"
    if "cleanup_rounds L es p w = (p', w')" "owned lv sn (p, held, w)" for es p w
    using that
  proof (induction es arbitrary: p w)
    case Nil
    then show ?case by simp
  next
    case (Cons e es)
    show ?case
    proof (cases e)
      case (CTick ord)
      obtain err p1 w1 where c: "Cleanup L ord p w = (err, p1, w1)" by (metis prod_cases3)
      then have "owned lv sn (p1, held, w1)" "\<forall>a. subseq (at_addr p1 a) (at_addr p a)"
        using Cleanup_owned [OF assms(1) Cons.prems(2)] by blast+
      then show ?thesis using Cons.IH [of p1 w1] Cons.prems(1) CTick c by (auto intro: subseq_order.trans)
    next
      case CExit
      then show ?thesis using Cons.prems by simp
    qed
  qed
  then show ?thesis using assms(2,3) by (auto simp: pool_ticker_def split: if_splits)
qed

end
