(* ===== verification/Resolver.thy ===== *)
theory Resolver
  imports Proxy
begin

section \<open>The addresses of the host\<close>

text \<open>
  Models the rest of \<open>pkg/utils/resolver.go\<close>: lookups with a time limit, and what the program finds out about
  its host when it starts, which \<open>ReplaceUnspecifiedIP\<close> uses later. The network library is a parameter, over a
  type of addresses; whether an answer comes before the time is up is an argument.
\<close>

datatype 'ip ifAddr = IPNet 'ip | IPAddr 'ip | OtherAddr

record 'ip netLib =
  netLookupIP :: "string \<Rightarrow> 'ip list \<times> goerror option"
  netInterfaceAddrs :: "'ip ifAddr list \<times> goerror option"
  IsGlobalUnicast :: "'ip option \<Rightarrow> bool"
  ipString :: "'ip option \<Rightarrow> string"
  netResolveTCPAddr :: "string \<Rightarrow> string \<Rightarrow> goerror + tcpAddr"
  osHostname :: "string \<times> goerror option"

text \<open>Errors are dropped: what came with them is used.\<close>

definition LookupIP :: "'ip netLib \<Rightarrow> string \<Rightarrow> 'ip list" where
  "LookupIP N host = fst (netLookupIP N host)"

definition LookupIPTimeout :: "'ip netLib \<Rightarrow> bool \<Rightarrow> string \<Rightarrow> 'ip list" where
  "LookupIPTimeout N in_time host = (if in_time then LookupIP N host else [])"

definition ResolveTCPAddr1 :: "'ip netLib \<Rightarrow> string \<Rightarrow> tcpAddr option" where
  "ResolveTCPAddr1 N addr = (case netResolveTCPAddr N ''tcp'' addr of Inl _ \<Rightarrow> None | Inr a \<Rightarrow> Some a)"

definition ResolveTCPAddrTimeout :: "'ip netLib \<Rightarrow> bool \<Rightarrow> string \<Rightarrow> tcpAddr option" where
  "ResolveTCPAddrTimeout N in_time addr = (if in_time then ResolveTCPAddr1 N addr else None)"

text \<open>The function \<open>init\<close>: thirty milliseconds for the addresses of the host's name, then the interfaces.\<close>

definition if_ip :: "'ip ifAddr \<Rightarrow> 'ip option" where
  "if_ip a = (case a of IPNet ip \<Rightarrow> Some ip | IPAddr ip \<Rightarrow> Some ip | OtherAddr \<Rightarrow> None)"

definition resolver_init :: "'ip netLib \<Rightarrow> bool \<Rightarrow> hostEnv" where
  "resolver_init N in_time =
     (let hostname = fst (osHostname N) in
      \<lparr>Hostname = hostname,
       HostIPs = map (ipString N) (filter (IsGlobalUnicast N) (map Some (LookupIPTimeout N in_time hostname))),
       InterfaceIPs = map (ipString N) (filter (IsGlobalUnicast N) (map if_ip (fst (netInterfaceAddrs N)))),
       ResolveTCPAddr = netResolveTCPAddr N\<rparr>)"

subsection \<open>The address a proxy announces\<close>

text \<open>
  The announced address is one that others can use. With no host configured, a listening address of TCP that
  names a host is announced as it is; one that does not is announced under the host's name, if a global
  address of it was found in time, or else under a global address of an interface; with neither, or
  without a port, it is an error: an unspecified address is never announced.
\<close>

theorem announced_address:
  assumes "H = resolver_init N in_time" "netResolveTCPAddr N ''tcp'' listen = Inr a"
    "ReplaceUnspecifiedIP H ''tcp'' listen '''' = Inr x"
  shows "tcpPort a \<noteq> 0 \<and>
    (if \<not> tcpUnspecified a then x = listen
     else if in_time \<and> (\<exists>ip \<in> set (LookupIP N (fst (osHostname N))). IsGlobalUnicast N (Some ip))
     then x = JoinHostPort (fst (osHostname N)) (Itoa (tcpPort a))
     else \<exists>i \<in> set (fst (netInterfaceAddrs N)). IsGlobalUnicast N (if_ip i) \<and> x = JoinHostPort (ipString N (if_ip i)) (Itoa (tcpPort a)))"
proof -
  let ?ips = "HostIPs H" and ?ifs = "InterfaceIPs H"
  have host: "?ips \<noteq> [] \<longleftrightarrow> in_time \<and> (\<exists>ip \<in> set (LookupIP N (fst (osHostname N))). IsGlobalUnicast N (Some ip))"
    using assms(1) by (auto simp: resolver_init_def LookupIPTimeout_def filter_empty_conv Let_def)
  have ifs: "\<exists>i \<in> set (fst (netInterfaceAddrs N)). IsGlobalUnicast N (if_ip i) \<and> ?ifs ! 0 = ipString N (if_ip i)" if "?ifs \<noteq> []"
  proof -
    have "?ifs ! 0 \<in> set ?ifs" using that by simp
    then show ?thesis using assms(1) by (auto simp: resolver_init_def Let_def)
  qed
  have h: "Hostname H = fst (osHostname N)" "ResolveTCPAddr H ''tcp'' listen = Inr a"
    using assms(1,2) by (simp_all add: resolver_init_def Let_def)
  have p: "tcpPort a \<noteq> 0" using assms(3) h by (auto simp: ReplaceUnspecifiedIP_def replaceUnspecifiedIP_def split: if_splits)
  show ?thesis
    using assms(3) p h ifs host by (auto simp: ReplaceUnspecifiedIP_def replaceUnspecifiedIP_def split: if_splits)
qed

definition demo_net :: "string netLib" where
  "demo_net =
     \<lparr>netLookupIP = (\<lambda>_. ([''127.0.0.1''], None)), netInterfaceAddrs = ([IPNet ''127.0.0.1'', IPNet ''10.0.0.7''], None),
      IsGlobalUnicast = (\<lambda>i. i = Some ''10.0.0.7''), ipString = (\<lambda>i. case i of None \<Rightarrow> ''<nil>'' | Some s \<Rightarrow> s),
      netResolveTCPAddr = (\<lambda>n a. Inr \<lparr>tcpUnspecified = True, tcpPort = 9000, tcpString = a\<rparr>), osHostname = (''web'', None)\<rparr>"

theorem announced_address_witness:
  "\<exists>x. ReplaceUnspecifiedIP (resolver_init demo_net True) ''tcp'' '':9000'' '''' = Inr x \<and> x = JoinHostPort ''10.0.0.7'' (Itoa 9000)"
proof -
  obtain x where x: "ReplaceUnspecifiedIP (resolver_init demo_net True) ''tcp'' '':9000'' '''' = Inr x"
    by (simp add: ReplaceUnspecifiedIP_def replaceUnspecifiedIP_def resolver_init_def demo_net_def LookupIPTimeout_def LookupIP_def if_ip_def Let_def)
  have "netResolveTCPAddr demo_net ''tcp'' '':9000'' = Inr \<lparr>tcpUnspecified = True, tcpPort = 9000, tcpString = '':9000''\<rparr>"
    by (simp add: demo_net_def)
  from announced_address [OF refl this x] have "x = JoinHostPort ''10.0.0.7'' (Itoa 9000)"
    by (auto simp: demo_net_def LookupIP_def if_ip_def)
  then show ?thesis using x by blast
qed

end
