(* ===== verification/Offheap.thy ===== *)
theory Offheap
  imports GoErrors
begin

section \<open>Slices outside the heap\<close>

text \<open>
  Models \<open>pkg/utils/unsafe2\<close>: slices whose memory comes from \<open>malloc\<close>, counted against a limit, and
  ordinary ones. A slice header is a block of memory, where it begins in it, its length and its
  capacity. \<open>malloc\<close> is a parameter; the memory it has given out and not got back is part of the
  state, so that giving back anything else is an error of the model. Goroutines run at once, so a
  new slice is made in two steps, around the check of the limit.
\<close>

subsection \<open>Slices\<close>

datatype memory = NoMemory | CHeap nat | GoHeap nat

record window =
  wblock :: memory
  woff :: nat
  wlen :: nat
  wcap :: nat

definition nil_buf :: window where
  "nil_buf = \<lparr>wblock = NoMemory, woff = 0, wlen = 0, wcap = 0\<rparr>"

text \<open>The slice expressions \<open>b[beg:end]\<close> and \<open>b[beg:end:cap]\<close>; out of range they panic.\<close>

definition slice2 :: "window \<Rightarrow> int \<Rightarrow> int \<Rightarrow> window option" where
  "slice2 b beg fin =
     (if 0 \<le> beg \<and> beg \<le> fin \<and> fin \<le> int (wcap b)
      then Some (b\<lparr>woff := woff b + nat beg, wlen := nat (fin - beg), wcap := wcap b - nat beg\<rparr>) else None)"

definition slice3 :: "window \<Rightarrow> int \<Rightarrow> int \<Rightarrow> int \<Rightarrow> window option" where
  "slice3 b beg fin cap =
     (if 0 \<le> beg \<and> beg \<le> fin \<and> fin \<le> cap \<and> cap \<le> int (wcap b)
      then Some (b\<lparr>woff := woff b + nat beg, wlen := nat (fin - beg), wcap := nat (cap - beg)\<rparr>) else None)"

text \<open>A slice is a \<open>cgoSlice\<close>, known by its number, or a \<open>goSlice\<close> with its buffer and its parent.\<close>

record cgoSlice =
  cptr :: "nat option"
  cbuf :: window

datatype uslice = CGoSlice nat | GoSlice window "uslice option"

record offheap =
  allocOffheapBytes :: int
  maxOffheapBytes :: int
  cslices :: "cgoSlice list"
  mallocs :: "nat set"

definition MinOffheapSlice :: int where
  "MinOffheapSlice = 1024 * 16"

definition SetMaxOffheapBytes :: "int \<Rightarrow> offheap \<Rightarrow> offheap" where
  "SetMaxOffheapBytes n h = h\<lparr>maxOffheapBytes := n\<rparr>"

definition SliceBuffer :: "offheap \<Rightarrow> uslice \<Rightarrow> window" where
  "SliceBuffer h s = (case s of CGoSlice i \<Rightarrow> cbuf (cslices h ! i) | GoSlice b _ \<Rightarrow> b)"

definition SliceType :: "uslice \<Rightarrow> string" where
  "SliceType s = (case s of CGoSlice _ \<Rightarrow> ''cgo_slice'' | GoSlice _ _ \<Rightarrow> ''go_slice'')"

definition SliceParent :: "uslice \<Rightarrow> uslice option" where
  "SliceParent s = (case s of CGoSlice _ \<Rightarrow> None | GoSlice _ p \<Rightarrow> p)"

text \<open>A part of a slice out of C memory keeps it alive as its parent; a part of a part has the same.\<close>

definition newGoSliceFrom :: "uslice option \<Rightarrow> window \<Rightarrow> uslice" where
  "newGoSliceFrom parent b = GoSlice b parent"

definition SliceSlice2 :: "offheap \<Rightarrow> uslice \<Rightarrow> int \<Rightarrow> int \<Rightarrow> uslice option" where
  "SliceSlice2 h s beg fin =
     (case s of
        CGoSlice i \<Rightarrow> map_option (newGoSliceFrom (Some s)) (slice2 (SliceBuffer h s) beg fin)
      | GoSlice b p \<Rightarrow> map_option (newGoSliceFrom p) (slice2 b beg fin))"

definition SliceSlice3 :: "offheap \<Rightarrow> uslice \<Rightarrow> int \<Rightarrow> int \<Rightarrow> int \<Rightarrow> uslice option" where
  "SliceSlice3 h s beg fin cap =
     (case s of
        CGoSlice i \<Rightarrow> map_option (newGoSliceFrom (Some s)) (slice3 (SliceBuffer h s) beg fin cap)
      | GoSlice b p \<Rightarrow> map_option (newGoSliceFrom p) (slice3 b beg fin cap))"

subsection \<open>Making and freeing\<close>

text \<open>\<open>newGoSlice\<close>: a fresh block of the Go heap; \<open>make\<close> panics for a negative length.\<close>

definition newGoSlice :: "nat \<Rightarrow> int \<Rightarrow> uslice option" where
  "newGoSlice blk n =
     (if n < 0 then None
      else Some (GoSlice \<lparr>wblock = GoHeap blk, woff = 0, wlen = nat n, wcap = nat n\<rparr> None))"

text \<open>The two halves of \<open>newCGoSlice\<close>: counting the bytes, and the check with what follows it.\<close>

definition count_bytes :: "int \<Rightarrow> offheap \<Rightarrow> int \<times> offheap" where
  "count_bytes n h =
     (case AddInt64 (allocOffheapBytes h) n of (after, v) \<Rightarrow> (after, h\<lparr>allocOffheapBytes := v\<rparr>))"

definition uncount :: "int \<Rightarrow> offheap \<Rightarrow> offheap" where
  "uncount n h = h\<lparr>allocOffheapBytes := snd (SubInt64 (allocOffheapBytes h) n)\<rparr>"

definition take_bytes :: "int \<Rightarrow> bool \<Rightarrow> int \<Rightarrow> nat option \<Rightarrow> offheap \<Rightarrow> uslice option \<times> offheap" where
  "take_bytes n force after mp h =
     (if \<not> force \<and> after > maxOffheapBytes h then (None, uncount n h)
      else
        (case mp of
           None \<Rightarrow> (None, uncount n h)
         | Some p \<Rightarrow>
             (Some (CGoSlice (length (cslices h))),
              h\<lparr>mallocs := insert p (mallocs h),
                cslices := cslices h @
                  [\<lparr>cptr = Some p, cbuf = \<lparr>wblock = CHeap p, woff = 0, wlen = nat n, wcap = nat n\<rparr>\<rparr>]\<rparr>)))"

definition newCGoSlice :: "int \<Rightarrow> bool \<Rightarrow> nat option \<Rightarrow> offheap \<Rightarrow> uslice option \<times> offheap" where
  "newCGoSlice n force mp h = (case count_bytes n h of (after, h1) \<Rightarrow> take_bytes n force after mp h1)"

text \<open>None is the panic, as in all of these.\<close>

definition MakeSlice :: "int \<Rightarrow> nat option \<Rightarrow> nat \<Rightarrow> offheap \<Rightarrow> (uslice \<times> offheap) option" where
  "MakeSlice n mp blk h =
     (if n \<ge> MinOffheapSlice then
        (case newCGoSlice n False mp h of
           (Some s, h1) \<Rightarrow> Some (s, h1)
         | (None, h1) \<Rightarrow> map_option (\<lambda>s. (s, h1)) (newGoSlice blk n))
      else map_option (\<lambda>s. (s, h)) (newGoSlice blk n))"

definition MakeOffheapSlice :: "int \<Rightarrow> nat option \<Rightarrow> offheap \<Rightarrow> (uslice option \<times> offheap) option" where
  "MakeOffheapSlice n mp h = (if n \<ge> 0 then Some (newCGoSlice n True mp h) else None)"

text \<open>\<open>free\<close> of a pointer that \<open>malloc\<close> has not given, or that was freed, is undefined: None.\<close>

definition cgo_reclaim :: "nat \<Rightarrow> offheap \<Rightarrow> offheap option" where
  "cgo_reclaim i h =
     (let s = cslices h ! i in
      case cptr s of
        None \<Rightarrow> Some h
      | Some p \<Rightarrow>
          if p \<notin> mallocs h then None
          else Some (uncount (int (wlen (cbuf s))) h
                 \<lparr>mallocs := mallocs h - {p}, cslices := (cslices h)[i := \<lparr>cptr = None, cbuf = nil_buf\<rparr>]\<rparr>))"

definition FreeSlice :: "uslice option \<Rightarrow> offheap \<Rightarrow> offheap option" where
  "FreeSlice s h = (case s of Some (CGoSlice i) \<Rightarrow> cgo_reclaim i h | _ \<Rightarrow> Some h)"

subsection \<open>Many goroutines\<close>

text \<open>\<open>pending\<close> are the goroutines between the two halves: size, force, and the sum they saw.\<close>

record ostate =
  oh :: offheap
  pending :: "(int \<times> bool \<times> int) list"

definition no_slices :: "int \<Rightarrow> ostate" where
  "no_slices m = \<lparr>oh = \<lparr>allocOffheapBytes = 0, maxOffheapBytes = m, cslices = [], mallocs = {}\<rparr>, pending = []\<rparr>"

text \<open>Slices are freed by hand or by the finalizer, any number of times.\<close>

inductive ostep :: "ostate \<Rightarrow> ostate \<Rightarrow> bool" where
  set_limit: "ostep s (s\<lparr>oh := SetMaxOffheapBytes m (oh s)\<rparr>)"
| make_count: "0 \<le> n \<Longrightarrow> count_bytes n (oh s) = (after, h) \<Longrightarrow> ostep s \<lparr>oh = h, pending = (n, force, after) # pending s\<rparr>"
| make_take: "pending s = xs @ (n, force, after) # ys \<Longrightarrow> (\<forall>p. mp = Some p \<longrightarrow> p \<notin> mallocs (oh s)) \<Longrightarrow>
    take_bytes n force after mp (oh s) = (res, h) \<Longrightarrow> ostep s \<lparr>oh = h, pending = xs @ ys\<rparr>"
| make_free: "i < length (cslices (oh s)) \<Longrightarrow> FreeSlice (Some (CGoSlice i)) (oh s) = Some h \<Longrightarrow> ostep s (s\<lparr>oh := h\<rparr>)"

inductive_cases ostepE: "ostep s s'"

definition live_ptrs :: "cgoSlice list \<Rightarrow> nat list" where
  "live_ptrs cs = List.map_filter cptr cs"

definition live_bytes :: "cgoSlice list \<Rightarrow> int" where
  "live_bytes cs = (\<Sum>c\<leftarrow>cs. int (wlen (cbuf c)))"

definition promised :: "(int \<times> bool \<times> int) list \<Rightarrow> int" where
  "promised ps = (\<Sum>(n, _, _)\<leftarrow>ps. n)"

text \<open>The books: the counter is what is live and what is promised, and \<open>malloc\<close>'s memory is in one slice each.\<close>

definition cell_ok :: "cgoSlice \<Rightarrow> bool" where
  "cell_ok c \<longleftrightarrow>
     (case cptr c of
        None \<Rightarrow> cbuf c = nil_buf
      | Some p \<Rightarrow> wblock (cbuf c) = CHeap p \<and> woff (cbuf c) = 0 \<and> wcap (cbuf c) = wlen (cbuf c))"

definition books_ok :: "ostate \<Rightarrow> bool" where
  "books_ok s \<longleftrightarrow>
     allocOffheapBytes (oh s) = wrap64 (live_bytes (cslices (oh s)) + promised (pending s)) \<and>
     distinct (live_ptrs (cslices (oh s))) \<and> set (live_ptrs (cslices (oh s))) = mallocs (oh s) \<and>
     list_all cell_ok (cslices (oh s)) \<and> list_all (\<lambda>(n, _, _). 0 \<le> n) (pending s)"

lemma live_ptrs_append [simp]: "live_ptrs (xs @ ys) = live_ptrs xs @ live_ptrs ys"
  by (simp add: live_ptrs_def List.map_filter_def)

lemma live_ptrs_Cons [simp]: "live_ptrs (c # cs) = (case cptr c of None \<Rightarrow> [] | Some p \<Rightarrow> [p]) @ live_ptrs cs"
  by (simp add: live_ptrs_def List.map_filter_def split: option.split)

lemma live_ptrs_Nil [simp]: "live_ptrs [] = []"
  by (simp add: live_ptrs_def List.map_filter_def)

lemma live_bytes_simps [simp]:
  "live_bytes [] = 0" "live_bytes (c # cs) = int (wlen (cbuf c)) + live_bytes cs"
  "live_bytes (xs @ ys) = live_bytes xs + live_bytes ys"
  by (simp_all add: live_bytes_def)

lemma promised_simps [simp]:
  "promised [] = 0" "promised ((n, f, a) # ps) = n + promised ps" "promised (xs @ ys) = promised xs + promised ys"
  by (simp_all add: promised_def)

lemma Add_wrapped: "snd (AddInt64 (wrap64 a) n) = wrap64 (a + n)" "fst (AddInt64 (wrap64 a) n) = wrap64 (a + n)"
  by (simp_all add: AddInt64_def)

lemma Sub_wrapped: "snd (SubInt64 (wrap64 a) n) = wrap64 (a - n)"
  by (simp add: SubInt64_def AddInt64_def)

lemma books_start: "s = no_slices m \<Longrightarrow> books_ok s"
  by (simp add: books_ok_def no_slices_def wrap64_def)

lemma books_take:
  assumes "books_ok s" "pending s = xs @ (n, force, after) # ys" "\<forall>p. mp = Some p \<longrightarrow> p \<notin> mallocs (oh s)"
    "take_bytes n force after mp (oh s) = (res, h)"
  shows "books_ok \<lparr>oh = h, pending = xs @ ys\<rparr>"
proof -
  have n: "0 \<le> n" and rest: "list_all (\<lambda>(n, _, _). 0 \<le> n) (xs @ ys)" using assms(1,2) by (auto simp: books_ok_def)
  show ?thesis
  proof (cases "(\<not> force \<and> after > maxOffheapBytes (oh s)) \<or> mp = None")
    case True
    then have "h = uncount n (oh s)" using assms(4) by (auto simp: take_bytes_def split: if_splits)
    then show ?thesis using assms(1,2) rest by (simp add: books_ok_def uncount_def Sub_wrapped algebra_simps)
  next
    case False
    then obtain p where p: "mp = Some p" "p \<notin> mallocs (oh s)" using assms(3) by auto
    let ?c = "\<lparr>cptr = Some p, cbuf = \<lparr>wblock = CHeap p, woff = 0, wlen = nat n, wcap = nat n\<rparr>\<rparr>"
    have h: "h = (oh s)\<lparr>mallocs := insert p (mallocs (oh s)), cslices := cslices (oh s) @ [?c]\<rparr>"
      using assms(4) False p(1) by (simp add: take_bytes_def split: if_splits)
    have "live_bytes (cslices (oh s) @ [?c]) + promised (xs @ ys) = live_bytes (cslices (oh s)) + promised (pending s)"
      using n assms(2) by simp
    then show ?thesis using assms(1) rest p(2) by (simp add: books_ok_def h cell_ok_def del: promised_simps live_bytes_simps)
  qed
qed

lemma books_free:
  assumes "books_ok s" "i < length (cslices (oh s))"
  shows "\<exists>h. cgo_reclaim i (oh s) = Some h \<and> books_ok (s\<lparr>oh := h\<rparr>) \<and>
    cslices h ! i = \<lparr>cptr = None, cbuf = nil_buf\<rparr> \<and> length (cslices h) = length (cslices (oh s))"
proof -
  let ?h = "oh s"
  obtain xs c ys where cs: "cslices ?h = xs @ c # ys" "length xs = i" using assms(2) by (metis id_take_nth_drop length_take min.absorb4)
  have nth: "cslices ?h ! i = c" using cs by (metis nth_append_length)
  have upd: "(cslices ?h)[i := d] = xs @ d # ys" for d using cs by (metis list_update_length)
  have ok: "cell_ok c" using assms(1) by (simp add: books_ok_def cs(1))
  show ?thesis
  proof (cases "cptr c")
    case None
    then have "c = \<lparr>cptr = None, cbuf = nil_buf\<rparr>" using ok by (cases c) (simp add: cell_ok_def)
    then show ?thesis using assms(1) None nth by (simp add: cgo_reclaim_def)
  next
    case (Some p)
    then have p: "p \<in> mallocs ?h" "p \<notin> set (live_ptrs xs)" "p \<notin> set (live_ptrs ys)"
      using assms(1) by (auto simp: books_ok_def cs(1))
    then have r: "cgo_reclaim i ?h = Some (uncount (int (wlen (cbuf c))) ?h
        \<lparr>mallocs := mallocs ?h - {p}, cslices := xs @ \<lparr>cptr = None, cbuf = nil_buf\<rparr> # ys\<rparr>)"
      using Some nth by (simp add: cgo_reclaim_def upd)
    have "set (live_ptrs (xs @ ys)) = mallocs ?h - {p}" using assms(1) p Some by (auto simp: books_ok_def cs(1))
    then show ?thesis using assms(1) r Some cs(2)
      by (auto simp: books_ok_def cs(1) uncount_def Sub_wrapped cell_ok_def nil_buf_def algebra_simps nth_append)
  qed
qed

lemma books_step:
  assumes "ostep s s'" "books_ok s"
  shows "books_ok s'"
  using assms(1)
proof cases
  case (set_limit m)
  then show ?thesis using assms(2) by (simp add: books_ok_def SetMaxOffheapBytes_def)
next
  case (make_count n after h force)
  then show ?thesis using assms(2)
    by (auto simp: books_ok_def count_bytes_def AddInt64_def algebra_simps)
next
  case (make_take xs n force after ys mp res h)
  then show ?thesis using books_take [OF assms(2)] by blast
next
  case (make_free i h)
  then show ?thesis using books_free [OF assms(2), of i] by (auto simp: FreeSlice_def)
qed

interpretation books: trans_sys "\<lambda>s. \<exists>m. s = no_slices m" ostep books_ok
  by unfold_locales (use books_start books_step in blast)+


definition one_slice :: ostate where
  "one_slice = \<lparr>oh = \<lparr>allocOffheapBytes = 20000, maxOffheapBytes = 50000,
      cslices = [\<lparr>cptr = Some 7, cbuf = \<lparr>wblock = CHeap 7, woff = 0, wlen = 20000, wcap = 20000\<rparr>\<rparr>], mallocs = {7}\<rparr>, pending = []\<rparr>"

lemma one_slice_reached: "ostep\<^sup>*\<^sup>* (no_slices 50000) one_slice"
proof -
  let ?h = "(oh (no_slices 50000))\<lparr>allocOffheapBytes := 20000\<rparr>"
  have "count_bytes 20000 (oh (no_slices 50000)) = (20000, ?h)"
    by (simp add: count_bytes_def no_slices_def AddInt64_def wrap64_def)
  then have 1: "ostep (no_slices 50000) \<lparr>oh = ?h, pending = [(20000, False, 20000)]\<rparr>"
    using make_count [of 20000 "no_slices 50000" 20000 ?h False] by (simp add: no_slices_def)
  have "take_bytes 20000 False 20000 (Some 7) ?h = (Some (CGoSlice 0), oh one_slice)"
    by (simp add: take_bytes_def no_slices_def one_slice_def)
  then have "ostep \<lparr>oh = ?h, pending = [(20000, False, 20000)]\<rparr> one_slice"
    using make_take [of "\<lparr>oh = ?h, pending = [(20000, False, 20000)]\<rparr>" "[]" 20000 False 20000 "[]" "Some 7" "Some (CGoSlice 0)" "oh one_slice"]
    by (simp add: no_slices_def one_slice_def)
  then show ?thesis using 1 by (meson converse_rtranclp_into_rtranclp rtranclp.rtrancl_refl)
qed


text \<open>
  A slice made of any size has that size and begins its block, in C memory or not; every part of it,
  and of its parts, lies within it and has it as its parent if it is in C memory.
\<close>

lemma MakeSlice_len:
  assumes "MakeSlice n mp blk h = Some (s, h1)"
  shows "0 \<le> n \<and> wlen (SliceBuffer h1 s) = nat n \<and> wcap (SliceBuffer h1 s) = nat n \<and> woff (SliceBuffer h1 s) = 0 \<and> SliceParent s = None"
  using assms by (auto simp: MakeSlice_def newCGoSlice_def count_bytes_def take_bytes_def newGoSlice_def SliceBuffer_def SliceParent_def
      uncount_def MinOffheapSlice_def AddInt64_def split: if_splits option.splits prod.splits)

definition within :: "window \<Rightarrow> window \<Rightarrow> bool" where
  "within a b \<longleftrightarrow> wblock a = wblock b \<and> woff b \<le> woff a \<and> wlen a \<le> wcap a \<and> woff a + wcap a \<le> woff b + wcap b"

lemma slice2_within: "slice2 b beg fin = Some a \<Longrightarrow> within a b"
  by (auto simp: slice2_def within_def split: if_splits)

lemma slice3_within: "slice3 b beg fin cap = Some a \<Longrightarrow> within a b"
  by (auto simp: slice3_def within_def nat_le_eq_zle split: if_splits)

lemma within_trans: "within a b \<Longrightarrow> within b c \<Longrightarrow> within a c"
  by (auto simp: within_def)

lemma SliceSlice_part:
  assumes "SliceSlice2 h s beg fin = Some t \<or> SliceSlice3 h s beg fin cap = Some t"
  shows "within (SliceBuffer h t) (SliceBuffer h s) \<and> SliceParent t = (case s of CGoSlice _ \<Rightarrow> Some s | GoSlice _ p \<Rightarrow> p)"
  using assms by (auto simp: SliceSlice2_def SliceSlice3_def newGoSliceFrom_def SliceBuffer_def SliceParent_def
      intro: slice2_within slice3_within split: uslice.splits)

end
