(* ===== verification/Report.thy ===== *)
theory Report
  imports Proxy Offheap
begin

section \<open>Reports\<close>

text \<open>
  Models \<open>Overview\<close> and \<open>Stats\<close> of \<open>pkg/proxy/proxy.go\<close>, with the sampler of the system usage of
  \<open>pkg/proxy/stats.go\<close>, \<open>CPUUsage\<close> and the sums of \<open>pkg/utils/usage_linux.go\<close>. What the runtime and the
  system measure are parameters, floating point numbers a type \<open>'f\<close>. None is a panic.
\<close>

subsection \<open>System usage\<close>

record usage =
  Utime :: int
  Stime :: int
  Cutime :: int
  Cstime :: int
  NumThreads :: int
  VmSize :: int
  VmRss :: int

definition MemTotal :: "usage \<Rightarrow> int" where
  "MemTotal u = VmRss u"

definition CPUTotal :: "usage \<Rightarrow> int" where
  "CPUTotal u = wrap64 (Utime u + Stime u + Cutime u + Cstime u)"

text \<open>Two readings; \<open>ratio\<close> divides the difference by the time between them.\<close>

definition CPUUsage :: "(int \<Rightarrow> 'f) \<Rightarrow> goerror + usage \<Rightarrow> goerror + usage \<Rightarrow> goerror + ('f \<times> usage)" where
  "CPUUsage ratio b e =
     (case b of
        Inl err \<Rightarrow> Inl err
      | Inr ub \<Rightarrow>
          (case e of
             Inl err \<Rightarrow> Inl err
           | Inr ue \<Rightarrow> Inr (ratio (wrap64 (CPUTotal ue - CPUTotal ub)), ue)))"

text \<open>The embedded \<open>*Usage\<close> is nil after a reading that failed.\<close>

record 'f sysUsage =
  suNow :: string
  suCPU :: 'f
  suUsage :: "usage option"

definition sample_usage :: "'f \<Rightarrow> (int \<Rightarrow> 'f) \<Rightarrow> string \<Rightarrow> goerror + usage \<Rightarrow> goerror + usage \<Rightarrow> 'f sysUsage" where
  "sample_usage zero ratio now b e =
     (case CPUUsage ratio b e of
        Inl _ \<Rightarrow> \<lparr>suNow = now, suCPU = zero, suUsage = None\<rparr>
      | Inr (cpu, u) \<Rightarrow> \<lparr>suNow = now, suCPU = cpu, suUsage = Some u\<rparr>)"

subsection \<open>Stats\<close>

record 'f memStats =
  msAlloc :: int
  msSys :: int
  msLookups :: int
  msMallocs :: int
  msFrees :: int
  msHeapAlloc :: int
  msHeapSys :: int
  msHeapIdle :: int
  msHeapInuse :: int
  msHeapObjects :: int
  msNumGC :: int
  msGCCPUFraction :: 'f
  msPauseTotalNs :: int

record 'f runtimeStats =
  rsAlloc :: int
  rsSys :: int
  rsLookups :: int
  rsMallocs :: int
  rsFrees :: int
  rsHeapAlloc :: int
  rsHeapSys :: int
  rsHeapIdle :: int
  rsHeapInuse :: int
  rsHeapObjects :: int
  rsGCNum :: int
  rsGCCPUFraction :: 'f
  rsTotalPauseMs :: int
  rsNumProcs :: int
  rsNumGoroutines :: int
  rsNumCgoCall :: int
  rsMemOffheap :: int

text \<open>What is read besides the proxy: the counters, the last sample, the runtime.\<close>

record 'f meters =
  mtCmds :: cmdStats
  mtQPS :: int
  mtSessions :: sessCount
  lastSysUsage :: "'f sysUsage option"
  mtMem :: "'f memStats"
  mtProcs :: int
  mtGoroutines :: int
  mtCgoCalls :: int
  mtOffheap :: offheap

definition OpQPS :: "'f meters \<Rightarrow> int" where "OpQPS T = mtQPS T"
definition GetSysUsage :: "'f meters \<Rightarrow> 'f sysUsage option" where "GetSysUsage T = lastSysUsage T"

record 'f statsReport =
  stOnline :: bool
  stClosed :: bool
  stOpsTotal :: int
  stOpsFails :: int
  stRedisErrors :: int
  stQPS :: int
  stCmd :: "opStatsView list option"
  stSessTotal :: int
  stSessAlive :: int
  stUsage :: "(string \<times> 'f \<times> int \<times> usage) option"
  stPrimaryOnly :: bool
  stRuntime :: "'f runtimeStats option"

definition runtime_stats :: "'f meters \<Rightarrow> 'f runtimeStats" where
  "runtime_stats T =
     (let r = mtMem T in
      \<lparr>rsAlloc = msAlloc r, rsSys = msSys r, rsLookups = msLookups r, rsMallocs = msMallocs r, rsFrees = msFrees r,
       rsHeapAlloc = msHeapAlloc r, rsHeapSys = msHeapSys r, rsHeapIdle = msHeapIdle r, rsHeapInuse = msHeapInuse r,
       rsHeapObjects = msHeapObjects r, rsGCNum = msNumGC r, rsGCCPUFraction = msGCCPUFraction r,
       rsTotalPauseMs = msPauseTotalNs r div 1000000, rsNumProcs = mtProcs T, rsNumGoroutines = mtGoroutines T,
       rsNumCgoCall = mtCgoCalls T, rsMemOffheap = allocOffheapBytes (mtOffheap T)\<rparr>)"

text \<open>\<open>u.MemTotal()\<close> goes through the embedded pointer, and panics when it is nil.\<close>

definition usage_report :: "'f sysUsage option \<Rightarrow> (string \<times> 'f \<times> int \<times> usage) option option" where
  "usage_report s =
     (case s of
        None \<Rightarrow> Some None
      | Some u \<Rightarrow> (case suUsage u of None \<Rightarrow> None | Some raw \<Rightarrow> Some (Some (suNow u, suCPU u, MemTotal raw, raw))))"

definition ProxyStats :: "string list \<Rightarrow> 'f meters \<Rightarrow> 32 word \<Rightarrow> config \<Rightarrow> proxy \<Rightarrow> 'f statsReport option" where
  "ProxyStats ord T flags c s =
     (case usage_report (GetSysUsage T) of
        None \<Rightarrow> None
      | Some u \<Rightarrow>
          Some \<lparr>stOnline = IsOnline s, stClosed = IsClosed s, stOpsTotal = OpTotal (mtCmds T), stOpsFails = OpFails (mtCmds T),
            stRedisErrors = OpRedisErrors (mtCmds T), stQPS = OpQPS T,
            stCmd = (if HasBit flags StatsCmds then Some (GetOpStatsAll ord (mtCmds T)) else None),
            stSessTotal = SessionsTotal (mtSessions T), stSessAlive = SessionsAlive (mtSessions T), stUsage = u,
            stPrimaryOnly = BackendPrimaryOnly c,
            stRuntime = (if HasBit flags StatsRuntime then Some (runtime_stats T) else None)\<rparr>)"

record 'f overview =
  ovVersion :: string
  ovCompile :: string
  ovConfig :: config
  ovModel :: proxyModel
  ovStats :: "'f statsReport"
  ovZones :: "mzone option list option"

definition Overview :: "string \<Rightarrow> string \<Rightarrow> string list \<Rightarrow> string list \<Rightarrow> (nat \<Rightarrow> bool) \<Rightarrow> 'f meters \<Rightarrow> 32 word \<Rightarrow> config \<Rightarrow> proxy
    \<Rightarrow> 'f overview option" where
  "Overview version compile ord zord up T flags c s =
     (case ProxyStats ord T flags c s of
        None \<Rightarrow> None
      | Some st \<Rightarrow>
          Some \<lparr>ovVersion = version, ovCompile = compile, ovConfig = c, ovModel = pmodel s, ovStats = st,
            ovZones = (if HasBit flags StatsZones then Some (GetZones zord up (prouter s) (ppool' s)) else None)\<rparr>)"

subsection \<open>What a report says\<close>

lemma full_report:
  "Overview version compile ord zord up T StatsFull c s = Some r \<Longrightarrow>
     stCmd (ovStats r) = Some (GetOpStatsAll ord (mtCmds T)) \<and> stRuntime (ovStats r) = Some (runtime_stats T) \<and>
     ovZones r = Some (GetZones zord up (prouter s) (ppool' s))"
  by (auto simp: Overview_def ProxyStats_def StatsFull_all split: option.splits)

text \<open>
  One reading of the system usage that fails makes every report panic until the next one.
\<close>

lemma report_panics_iff:
  "Overview version compile ord zord up T flags c s = None \<longleftrightarrow> (\<exists>u. lastSysUsage T = Some u \<and> suUsage u = None)"
  by (auto simp: Overview_def ProxyStats_def usage_report_def GetSysUsage_def split: option.splits)

lemma failed_sample_panics:
  assumes "CPUUsage ratio b e = Inl err"
  shows "Overview version compile ord zord up (T\<lparr>lastSysUsage := Some (sample_usage zero ratio now b e)\<rparr>) flags c s = None"
  using assms by (simp add: report_panics_iff sample_usage_def)

end
