(* ===== verification/Rpc.thy ===== *)
theory Rpc
  imports Strconv GoErrors
begin

section \<open>Calls over HTTP\<close>

text \<open>
  Models \<open>pkg/utils/rpc/api.go\<close>: how a server words results and errors, and how a client reads
  them. JSON, the HTTP client and the recorded stacks of errors are parameters. A stack \<open>'s\<close> is
  carried along; a traced error of the model does not show it.
\<close>

subsection \<open>Remote errors\<close>

record 's remoteError =
  reCause :: string
  reStack :: 's

text \<open>An \<open>error\<close> here is a \<open>RemoteError\<close> or one of the others.\<close>

datatype 's rpcError = Remote "'s remoteError" | Other goerror

definition rpcErrorText :: "(goerror \<Rightarrow> string) \<Rightarrow> 's rpcError \<Rightarrow> string" where
  "rpcErrorText txt e = (case e of Remote r \<Rightarrow> reCause r | Other g \<Rightarrow> error_text txt g)"

text \<open>\<open>RemoteError.TracedError\<close>.\<close>

definition RemoteTraced :: "'s remoteError \<Rightarrow> goerror" where
  "RemoteTraced e = TracedError (ErrNew (''[Remote Error] '' @ reCause e))"

definition NewRemoteError :: "(goerror \<Rightarrow> string) \<Rightarrow> (goerror \<Rightarrow> 's) \<Rightarrow> 's rpcError option \<Rightarrow> 's remoteError option" where
  "NewRemoteError txt stack err =
     (case err of
        None \<Rightarrow> None
      | Some (Remote v) \<Rightarrow> Some v
      | Some (Other e) \<Rightarrow> Some \<lparr>reCause = error_text txt e, reStack = stack e\<rparr>)"

subsection \<open>The server's side\<close>

text \<open>\<open>json\<close> prints a value, with indentation; errors and results are values of their own.\<close>

record ('s, 'v) json =
  jsonErr :: "'s remoteError \<Rightarrow> goerror + bytes"
  unjsonErr :: "bytes \<Rightarrow> goerror + 's remoteError"
  jsonVal :: "'v \<Rightarrow> goerror + bytes"
  unjsonVal :: "bytes \<Rightarrow> goerror + 'v"

definition apiMarshalJson :: "('s, 'v) json \<Rightarrow> 'v \<Rightarrow> goerror + bytes" where
  "apiMarshalJson J v = jsonVal J v"

definition ApiResponseError :: "(goerror \<Rightarrow> string) \<Rightarrow> (goerror \<Rightarrow> 's) \<Rightarrow> ('s, 'v) json \<Rightarrow> 's rpcError option \<Rightarrow> int \<times> string" where
  "ApiResponseError txt stack J err =
     (case NewRemoteError txt stack err of
        None \<Rightarrow> (800, [])
      | Some r \<Rightarrow>
          (case jsonErr J r of
             Inl _ \<Rightarrow> (800, [])
           | Inr b \<Rightarrow> (800, b)))"

definition ApiResponseJson :: "(goerror \<Rightarrow> string) \<Rightarrow> (goerror \<Rightarrow> 's) \<Rightarrow> ('s, 'v) json \<Rightarrow> 'v \<Rightarrow> int \<times> string" where
  "ApiResponseJson txt stack J v =
     (case apiMarshalJson J v of
        Inl e \<Rightarrow> ApiResponseError txt stack J (Some (Other (Trace e)))
      | Inr b \<Rightarrow> (200, b))"

subsection \<open>The client's side\<close>

text \<open>A response: its status, and its body as \<open>ReadAll\<close> gives it.\<close>

record response =
  StatusCode :: int
  rspBody :: "goerror + bytes"

definition responseBodyAsBytes :: "response \<Rightarrow> goerror + bytes" where
  "responseBodyAsBytes rsp = (case rspBody rsp of Inl e \<Rightarrow> Inl (Trace e) | Inr b \<Rightarrow> Inr b)"

text \<open>The error that was sent, or why it cannot be read.\<close>

definition responseBodyAsError :: "('s, 'v) json \<Rightarrow> response \<Rightarrow> goerror + goerror" where
  "responseBodyAsError J rsp =
     (case responseBodyAsBytes rsp of
        Inl e \<Rightarrow> Inl e
      | Inr b \<Rightarrow>
          if b = [] then Inl (Errorf ''remote error is empty'')
          else
            (case unjsonErr J b of
               Inl e \<Rightarrow> Inl (Trace e)
             | Inr e \<Rightarrow> Inr (RemoteTraced e)))"

text \<open>A request: its meth, its URL and, with a body, the two headers.\<close>

record httpRequest =
  reqMethod :: string
  reqURL :: string
  reqBody :: bytes
  reqHeader :: "(string \<times> string) list"

record httpLib =
  badRequest :: "string \<Rightarrow> string \<Rightarrow> goerror option"
  clientDo :: "httpRequest \<Rightarrow> goerror + response"
  StatusText :: "int \<Rightarrow> string"

definition new_http :: "string \<Rightarrow> string \<Rightarrow> bytes option \<Rightarrow> httpRequest" where
  "new_http meth url body =
     (case body of
        None \<Rightarrow> \<lparr>reqMethod = meth, reqURL = url, reqBody = [], reqHeader = []\<rparr>
      | Some b \<Rightarrow> \<lparr>reqMethod = meth, reqURL = url, reqBody = b,
          reqHeader = [(''Content-Type'', ''application/json''), (''Content-Length'', Itoa (int (length b)))]\<rparr>)"

text \<open>What the status of the response makes of it; \<open>want\<close> is whether there is a \<open>reply\<close> to fill in.\<close>

definition read_response :: "httpLib \<Rightarrow> ('s, 'v) json \<Rightarrow> string \<Rightarrow> bool \<Rightarrow> response \<Rightarrow> goerror + 'v option" where
  "read_response H J url want rsp =
     (if StatusCode rsp = 200 then
        (case responseBodyAsBytes rsp of
           Inl e \<Rightarrow> Inl e
         | Inr b \<Rightarrow>
             if \<not> want then Inr None
             else (case unjsonVal J b of Inl e \<Rightarrow> Inl (Trace e) | Inr v \<Rightarrow> Inr (Some v)))
      else if StatusCode rsp = 800 \<or> StatusCode rsp = 1500 then
        (case responseBodyAsError J rsp of Inl e \<Rightarrow> Inl e | Inr e \<Rightarrow> Inl e)
      else Inl (Errorf (''['' @ Itoa (StatusCode rsp) @ ''] '' @ StatusText H (StatusCode rsp) @ '' - '' @ url)))"

definition apiRequestJson :: "httpLib \<Rightarrow> ('s, 'v) json \<Rightarrow> string \<Rightarrow> string \<Rightarrow> 'v option \<Rightarrow> bool \<Rightarrow> goerror + 'v option" where
  "apiRequestJson H J meth url args want =
     (case (case args of None \<Rightarrow> Inr None | Some v \<Rightarrow> (case apiMarshalJson J v of Inl e \<Rightarrow> Inl (Trace e) | Inr b \<Rightarrow> Inr (Some b))) of
        Inl e \<Rightarrow> Inl e
      | Inr body \<Rightarrow>
          (case badRequest H meth url of
             Some e \<Rightarrow> Inl (Trace e)
           | None \<Rightarrow>
               (case clientDo H (new_http meth url body) of
                  Inl e \<Rightarrow> Inl (Trace e)
                | Inr rsp \<Rightarrow> read_response H J url want rsp)))"

definition ApiGetJson :: "httpLib \<Rightarrow> ('s, 'v) json \<Rightarrow> string \<Rightarrow> goerror + 'v option" where
  "ApiGetJson H J url = apiRequestJson H J ''GET'' url None True"

definition ApiPutJson :: "httpLib \<Rightarrow> ('s, 'v) json \<Rightarrow> string \<Rightarrow> 'v option \<Rightarrow> bool \<Rightarrow> goerror + 'v option" where
  "ApiPutJson H J url args want = apiRequestJson H J ''PUT'' url args want"

definition ApiPostJson :: "httpLib \<Rightarrow> ('s, 'v) json \<Rightarrow> string \<Rightarrow> 'v option \<Rightarrow> goerror + 'v option" where
  "ApiPostJson H J url args = apiRequestJson H J ''POST'' url args False"

text \<open>
  \<open>EncodeURL\<close>, after \<open>Sprintf\<close> gave the path: how \<open>url.URL\<close> prints a scheme, a host and a path. The
  escaping of host and path is a parameter.
\<close>

record urlLib =
  escHost :: "string \<Rightarrow> string"
  escPath :: "string \<Rightarrow> string"

definition EncodeURL :: "urlLib \<Rightarrow> string \<Rightarrow> string \<Rightarrow> string" where
  "EncodeURL U host path =
     ''http:'' @ (if host \<noteq> [] \<or> path \<noteq> [] then ''//'' else []) @ escHost U host
       @ (if path \<noteq> [] \<and> hd path \<noteq> CHR ''/'' \<and> host \<noteq> [] then ''/'' else []) @ escPath U path"

subsection \<open>What arrives\<close>

text \<open>JSON reads back what it prints, which is never empty.\<close>

definition json_laws :: "('s, 'v) json \<Rightarrow> bool" where
  "json_laws J \<longleftrightarrow>
     (\<forall>v b. jsonVal J v = Inr b \<longrightarrow> b \<noteq> [] \<and> unjsonVal J b = Inr v) \<and>
     (\<forall>r b. jsonErr J r = Inr b \<longrightarrow> b \<noteq> [] \<and> unjsonErr J b = Inr r)"

text \<open>A server that answers every request with what a handler returns.\<close>

definition serves :: "httpLib \<Rightarrow> (httpRequest \<Rightarrow> int \<times> string) \<Rightarrow> bool" where
  "serves H f \<longleftrightarrow> (\<forall>m u. badRequest H m u = None) \<and>
     (\<forall>q. clientDo H q = Inr \<lparr>StatusCode = fst (f q), rspBody = Inr (snd (f q))\<rparr>)"

lemma request_served:
  assumes "serves H f" "args = None \<or> (\<exists>v b. args = Some v \<and> jsonVal J v = Inr b)"
  shows "\<exists>q. apiRequestJson H J meth url args want =
    read_response H J url want \<lparr>StatusCode = fst (f q), rspBody = Inr (snd (f q))\<rparr>"
  using assms by (auto simp: apiRequestJson_def apiMarshalJson_def serves_def)

lemma error_sent:
  assumes "json_laws J" "StatusCode rsp = 800" "rspBody rsp = Inr (snd (ApiResponseError txt stack J (Some err)))"
  shows "\<exists>r. NewRemoteError txt stack (Some err) = Some r \<and> reCause r = rpcErrorText txt err \<and>
    read_response H J url want rsp = Inl (case jsonErr J r of Inl _ \<Rightarrow> Errorf ''remote error is empty'' | Inr _ \<Rightarrow> RemoteTraced r)"
proof -
  obtain r where r: "NewRemoteError txt stack (Some err) = Some r" "reCause r = rpcErrorText txt err"
    by (cases err) (simp_all add: NewRemoteError_def rpcErrorText_def)
  have "read_response H J url want rsp = Inl (case jsonErr J r of Inl _ \<Rightarrow> Errorf ''remote error is empty'' | Inr _ \<Rightarrow> RemoteTraced r)"
  proof (cases "jsonErr J r")
    case (Inl e)
    then show ?thesis using assms r(1) by (simp add: read_response_def responseBodyAsError_def responseBodyAsBytes_def ApiResponseError_def)
  next
    case (Inr b)
    then have "b \<noteq> []" "unjsonErr J b = Inr r" using assms(1) by (auto simp: json_laws_def)
    then show ?thesis using assms Inr r(1) by (simp add: read_response_def responseBodyAsError_def responseBodyAsBytes_def ApiResponseError_def)
  qed
  then show ?thesis using r by blast
qed

text \<open>
  What the server says reaches the caller. From a handler that answers with a value, the one who
  asks for it gets exactly that value, and one who only sends gets no error. From a handler that
  answers with an error every caller gets an error with the same text, marked as remote, however it
  was wrapped and wherever it came from; it is never taken for a success.
\<close>

theorem answers_arrive:
  assumes "json_laws J" "jsonVal J v = Inr b" "NewRemoteError txt stack (Some err) = Some r" "jsonErr J r = Inr b'"
    "serves Hv (\<lambda>_. ApiResponseJson txt stack J v)" "serves He (\<lambda>_. ApiResponseError txt stack J (Some err))"
    "args = None \<or> args = Some v"
  shows "ApiGetJson Hv J url = Inr (Some v)
    \<and> ApiPutJson Hv J url args True = Inr (Some v)
    \<and> ApiPostJson Hv J url args = Inr None
    \<and> (\<forall>want meth. apiRequestJson He J meth url args want = Inl (RemoteTraced r))
    \<and> error_text txt (RemoteTraced r) = ''[Remote Error] '' @ rpcErrorText txt err"
proof -
  have ok: "b \<noteq> []" "unjsonVal J b = Inr v" using assms(1,2) by (auto simp: json_laws_def)
  have get: "args' = None \<or> args' = Some v \<Longrightarrow> apiRequestJson Hv J meth url args' want = Inr (if want then Some v else None)"
    for args' meth want
    using request_served [OF assms(5), of args' J meth url want] ok assms(2)
    by (auto simp: read_response_def responseBodyAsBytes_def ApiResponseJson_def apiMarshalJson_def)
  have err: "apiRequestJson He J meth url args want = Inl (RemoteTraced r)" for meth want
  proof -
    obtain q where q: "apiRequestJson He J meth url args want = read_response He J url want
        \<lparr>StatusCode = 800, rspBody = Inr (snd (ApiResponseError txt stack J (Some err)))\<rparr>"
      using request_served [OF assms(6), of args J meth url want] assms(2,3,4,7) by (auto simp: ApiResponseError_def)
    show ?thesis using error_sent [OF assms(1), of "\<lparr>StatusCode = 800, rspBody = Inr (snd (ApiResponseError txt stack J (Some err)))\<rparr>"
          "txt" stack err He url want] q assms(3,4) by auto
  qed
  have "reCause r = rpcErrorText txt err" using assms(3) by (cases err) (auto simp: NewRemoteError_def rpcErrorText_def)
  then show ?thesis using get err assms(7) by (simp add: ApiGetJson_def ApiPutJson_def ApiPostJson_def RemoteTraced_def)
qed

text \<open>An error that cannot be printed, or none at all, is still an error to the caller.\<close>

lemma empty_error:
  "read_response H J url want \<lparr>StatusCode = 800, rspBody = Inr []\<rparr> = Inl (Errorf ''remote error is empty'')"
  by (simp add: read_response_def responseBodyAsError_def responseBodyAsBytes_def)

lemma ApiResponseError_nil: "ApiResponseError txt stack J None = (800, [])"
  by (simp add: ApiResponseError_def NewRemoteError_def)

definition toy_json :: "(unit, string) json" where
  "toy_json = \<lparr>jsonErr = (\<lambda>r. Inr (CHR ''e'' # reCause r)), unjsonErr = (\<lambda>b. Inr \<lparr>reCause = tl b, reStack = ()\<rparr>),
     jsonVal = (\<lambda>v. Inr (CHR ''v'' # v)), unjsonVal = (\<lambda>b. Inr (tl b))\<rparr>"

definition toy_http :: "int \<times> string \<Rightarrow> httpLib" where
  "toy_http a = \<lparr>badRequest = (\<lambda>_ _. None), clientDo = (\<lambda>_. Inr \<lparr>StatusCode = fst a, rspBody = Inr (snd a)\<rparr>), StatusText = (\<lambda>_. [])\<rparr>"

theorem answers_arrive_witness:
  "ApiGetJson (toy_http (200, ''vup'')) toy_json ''u'' = Inr (Some ''up'')
   \<and> ApiGetJson (toy_http (800, ''edown'')) toy_json ''u'' = Inl (TracedError (ErrNew ''[Remote Error] down''))"
proof -
  let ?t = "\<lambda>_ :: goerror. []" and ?k = "\<lambda>_ :: goerror. ()"
  have J: "json_laws toy_json" by (simp add: json_laws_def toy_json_def)
  have v: "jsonVal toy_json ''up'' = Inr ''vup''" by (simp add: toy_json_def)
  have n: "NewRemoteError ?t ?k (Some (Other (ErrNew ''down''))) = Some \<lparr>reCause = ''down'', reStack = ()\<rparr>"
    by (simp add: NewRemoteError_def)
  have e: "jsonErr toy_json \<lparr>reCause = ''down'', reStack = ()\<rparr> = Inr ''edown''" by (simp add: toy_json_def)
  have sv: "serves (toy_http (200, ''vup'')) (\<lambda>_. ApiResponseJson ?t ?k toy_json ''up'')"
    by (simp add: serves_def toy_http_def ApiResponseJson_def apiMarshalJson_def v)
  have se: "serves (toy_http (800, ''edown'')) (\<lambda>_. ApiResponseError ?t ?k toy_json (Some (Other (ErrNew ''down''))))"
    by (simp add: serves_def toy_http_def ApiResponseError_def n e)
  note * = answers_arrive [OF J v n e sv se, where args = None and url = "''u''"]
  from * show ?thesis by (simp add: ApiGetJson_def RemoteTraced_def)
qed

end
