(* ===== verification/Admin.thy ===== *)
theory Admin
  imports Report Rpc
begin

section \<open>The administration server\<close>

text \<open>
  Models \<open>pkg/proxy/proxy_api.go\<close>: the middleware and routes that \<open>newApiServer\<close> builds and its three
  handlers, with the part of the vendored framework \<open>go-martini\<close> that chooses a route (\<open>router.go\<close>)
  and turns a panic into a response (\<open>recovery.go\<close>). Compression does not change what a client reads
  and is left out, as is the header with the content type.
\<close>

subsection \<open>Routes\<close>

datatype adminHandler = RedirectTo string | DebugMux | OverviewH | ModelH | StatsH

record route =
  rtMethod :: string
  rtPattern :: string
  rtHandler :: adminHandler

datatype routeMatch = NoMatch | StarMatch | OverloadMatch | ExactMatch

definition match_rank :: "routeMatch \<Rightarrow> nat" where
  "match_rank m = (case m of NoMatch \<Rightarrow> 0 | StarMatch \<Rightarrow> 1 | OverloadMatch \<Rightarrow> 2 | ExactMatch \<Rightarrow> 3)"

definition BetterThan :: "routeMatch \<Rightarrow> routeMatch \<Rightarrow> bool" where
  "BetterThan r q \<longleftrightarrow> match_rank r > match_rank q"

definition MatchMethod :: "route \<Rightarrow> string \<Rightarrow> routeMatch" where
  "MatchMethod r meth =
     (if meth = rtMethod r then ExactMatch
      else if meth = ''HEAD'' \<and> rtMethod r = ''GET'' then OverloadMatch
      else if rtMethod r = ''*'' then StarMatch
      else NoMatch)"

text \<open>
  The regular expression of a pattern of letters and slashes, with \<open>**\<close> at its end or not, against the
  whole path: a slash may follow, and \<open>**\<close> is anything without a hash or a question mark.
\<close>

definition path_matches :: "string \<Rightarrow> string \<Rightarrow> bool" where
  "path_matches pat path =
     (if drop (length pat - 2) pat = ''**'' then
        (let lit = take (length pat - 2) pat in
         has_prefix path lit \<and> (\<forall>c \<in> set (drop (length lit) path). c \<noteq> CHR ''#'' \<and> c \<noteq> CHR ''?''))
      else path = pat \<or> path = pat @ ''/'')"

definition Match :: "route \<Rightarrow> string \<Rightarrow> string \<Rightarrow> routeMatch" where
  "Match r meth path =
     (if MatchMethod r meth = NoMatch then NoMatch
      else if path_matches (rtPattern r) path then MatchMethod r meth
      else NoMatch)"

text \<open>The loop of \<open>router.Handle\<close>: the best match, the first of equals, and none after an exact one.\<close>

fun best_route :: "string \<Rightarrow> string \<Rightarrow> routeMatch \<times> route option \<Rightarrow> route list \<Rightarrow> routeMatch \<times> route option" where
  "best_route meth path best [] = best"
| "best_route meth path best (r # rs) =
     (let m = Match r meth path in
      if BetterThan m (fst best) then
        (if m = ExactMatch then (m, Some r) else best_route meth path (m, Some r) rs)
      else best_route meth path best rs)"

text \<open>What \<open>newApiServer\<close> registers, the group \<open>/proxy\<close> in front of its patterns.\<close>

definition adminRoutes :: "route list" where
  "adminRoutes =
     [\<lparr>rtMethod = ''GET'', rtPattern = ''/'', rtHandler = RedirectTo ''/proxy''\<rparr>,
      \<lparr>rtMethod = ''*'', rtPattern = ''/debug/**'', rtHandler = DebugMux\<rparr>,
      \<lparr>rtMethod = ''GET'', rtPattern = ''/proxy'' @ '''', rtHandler = OverviewH\<rparr>,
      \<lparr>rtMethod = ''GET'', rtPattern = ''/proxy'' @ ''/model'', rtHandler = ModelH\<rparr>,
      \<lparr>rtMethod = ''GET'', rtPattern = ''/proxy'' @ ''/stats'', rtHandler = StatsH\<rparr>]"

subsection \<open>Handlers\<close>

text \<open>What the handlers answer from: the parameters of the reports, and the proxy now.\<close>

record 'f adminView =
  avVersion :: string
  avCompile :: string
  avOps :: "string list"
  avZones :: "string list"
  avUp :: "nat \<Rightarrow> bool"
  avMeters :: "'f meters"
  avConfig :: config
  avProxy :: proxy

datatype 'f apiValue = VOverview "'f overview" | VModel proxyModel | VStats "'f statsReport"

record ('s, 'f) apiServer =
  asView :: "'f adminView"
  asJson :: "('s, 'f apiValue) json"
  asText :: "goerror \<Rightarrow> string"
  asStack :: "goerror \<Rightarrow> 's"
  asDebug :: "httpRequest \<Rightarrow> int \<times> string"
  asPanic :: string

definition Model :: "proxy \<Rightarrow> proxyModel" where
  "Model s = pmodel s"

definition api_json :: "('s, 'f) apiServer \<Rightarrow> 'f apiValue \<Rightarrow> int \<times> string" where
  "api_json A v = ApiResponseJson (asText A) (asStack A) (asJson A) v"

definition api_Overview :: "('s, 'f) apiServer \<Rightarrow> (int \<times> string) option" where
  "api_Overview A =
     (let V = asView A in
      map_option (\<lambda>r. api_json A (VOverview r))
        (Overview (avVersion V) (avCompile V) (avOps V) (avZones V) (avUp V) (avMeters V) StatsFull (avConfig V) (avProxy V)))"

definition api_Model :: "('s, 'f) apiServer \<Rightarrow> (int \<times> string) option" where
  "api_Model A = Some (api_json A (VModel (Model (avProxy (asView A)))))"

definition api_StatsNoXAuth :: "('s, 'f) apiServer \<Rightarrow> (int \<times> string) option" where
  "api_StatsNoXAuth A =
     (let V = asView A in
      map_option (\<lambda>r. api_json A (VStats r)) (ProxyStats (avOps V) (avMeters V) StatsFull (avConfig V) (avProxy V)))"

definition run_handler :: "('s, 'f) apiServer \<Rightarrow> httpRequest \<Rightarrow> adminHandler \<Rightarrow> (int \<times> string) option" where
  "run_handler A q h =
     (case h of
        RedirectTo u \<Rightarrow> Some (302, u)
      | DebugMux \<Rightarrow> Some (asDebug A q)
      | OverviewH \<Rightarrow> api_Overview A
      | ModelH \<Rightarrow> api_Model A
      | StatsH \<Rightarrow> api_StatsNoXAuth A)"

text \<open>A call that is logged: its method, path and the address a proxy in front of it names.\<close>

definition api_warning :: "(string \<Rightarrow> string) \<Rightarrow> string \<Rightarrow> string \<Rightarrow> string option" where
  "api_warning header meth path =
     (if meth \<noteq> ''GET'' \<and> has_prefix path ''/api/'' then
        Some (if header ''X-Real-IP'' \<noteq> [] then header ''X-Real-IP''
              else if header ''X-Forwarded-For'' \<noteq> [] then header ''X-Forwarded-For''
              else [])
      else None)"

text \<open>
  The whole server. A panic of a handler is a 500 with a text of the framework, a request without a
  route a 404; of a redirect the body stands for the location.
\<close>

definition not_found :: "int \<times> string" where
  "not_found = (404, ''404 page not found'' @ [CHR 0x0A])"

definition newApiServer :: "('s, 'f) apiServer \<Rightarrow> string \<Rightarrow> httpRequest \<Rightarrow> int \<times> string" where
  "newApiServer A path q =
     (case best_route (reqMethod q) path (NoMatch, None) adminRoutes of
        (_, None) \<Rightarrow> not_found
      | (_, Some r) \<Rightarrow> (case run_handler A q (rtHandler r) of None \<Rightarrow> (500, asPanic A) | Some a \<Rightarrow> a))"

subsection \<open>Which handler answers\<close>

lemma route_get:
  "best_route ''GET'' ''/proxy'' (NoMatch, None) adminRoutes = (ExactMatch, Some (adminRoutes ! 2))"
  "best_route ''GET'' ''/proxy/model'' (NoMatch, None) adminRoutes = (ExactMatch, Some (adminRoutes ! 3))"
  "best_route ''GET'' ''/proxy/stats'' (NoMatch, None) adminRoutes = (ExactMatch, Some (adminRoutes ! 4))"
  by (simp_all add: adminRoutes_def Match_def MatchMethod_def path_matches_def BetterThan_def match_rank_def has_prefix_def)

text \<open>Nothing but reading is offered outside \<open>/debug/\<close>: every other method finds no route.\<close>

lemma best_route_none:
  "\<forall>r \<in> set rs. Match r meth path = NoMatch \<Longrightarrow> best_route meth path best rs = best"
  by (induction rs) (auto simp: BetterThan_def match_rank_def)

lemma only_reading:
  assumes "meth \<notin> {''GET'', ''HEAD'', ''*''}" "\<not> has_prefix path ''/debug/''"
  shows "newApiServer A path \<lparr>reqMethod = meth, reqURL = url, reqBody = b, reqHeader = h\<rparr> = not_found"
proof -
  have "\<forall>r \<in> set adminRoutes. Match r meth path = NoMatch"
    using assms by (simp add: adminRoutes_def Match_def MatchMethod_def path_matches_def has_prefix_def)
  then show ?thesis by (simp add: newApiServer_def best_route_none)
qed


subsection \<open>From the proxy to the one who asks\<close>

lemma served_get:
  assumes "serves H f"
  shows "ApiGetJson H J url = read_response H J url True
    \<lparr>StatusCode = fst (f (new_http ''GET'' url None)), rspBody = Inr (snd (f (new_http ''GET'' url None)))\<rparr>"
  using assms by (simp add: ApiGetJson_def apiRequestJson_def serves_def)

lemma read_json:
  assumes "jsonVal J v = Inr b" "unjsonVal J b = Inr v'"
  shows "read_response H J url True \<lparr>StatusCode = fst (ApiResponseJson txt stack J v), rspBody = Inr (snd (ApiResponseJson txt stack J v))\<rparr>
    = Inr (Some v')"
  using assms by (simp add: read_response_def responseBodyAsBytes_def ApiResponseJson_def apiMarshalJson_def)

lemma Itoa_status: "Itoa 500 = ''500''" "Itoa 404 = ''404''"
  by code_simp+

lemma read_failed:
  "read_response H J url want \<lparr>StatusCode = 500, rspBody = Inr b\<rparr> = Inl (Errorf (''[500] '' @ StatusText H 500 @ '' - '' @ url))"
  "read_response H J url want \<lparr>StatusCode = 404, rspBody = Inr b\<rparr> = Inl (Errorf (''[404] '' @ StatusText H 404 @ '' - '' @ url))"
  by (simp_all add: read_response_def Itoa_status)


text \<open>JSON prints every report, and reads back what it keeps of one: \<open>view\<close> (the passwords are not printed).\<close>

definition json_views :: "('s, 'v) json \<Rightarrow> ('v \<Rightarrow> 'v) \<Rightarrow> bool" where
  "json_views J view \<longleftrightarrow> (\<forall>v. \<exists>b. jsonVal J v = Inr b \<and> unjsonVal J b = Inr (view v))"

text \<open>A network that brings every request to the server, whose path is the one the URL was made from.\<close>

definition reaches :: "httpLib \<Rightarrow> ('s, 'f) apiServer \<Rightarrow> urlLib \<Rightarrow> string \<Rightarrow> (string \<Rightarrow> string) \<Rightarrow> bool" where
  "reaches H A U host path_of \<longleftrightarrow>
     serves H (\<lambda>q. newApiServer A (path_of (reqURL q)) q) \<and>
     (\<forall>p. path_of (EncodeURL U host (CHR ''/'' # p)) = CHR ''/'' # p)"

lemma api_json_read:
  assumes "json_views (asJson A) view"
  shows "read_response H (asJson A) url True \<lparr>StatusCode = fst (api_json A v), rspBody = Inr (snd (api_json A v))\<rparr> = Inr (Some (view v))"
proof -
  obtain b where "jsonVal (asJson A) v = Inr b" "unjsonVal (asJson A) b = Inr (view v)"
    using assms unfolding json_views_def by blast
  then show ?thesis unfolding api_json_def by (rule read_json)
qed

lemma answered_get:
  assumes "json_views (asJson A) view" "reaches H A U host path_of"
    "best_route ''GET'' (CHR ''/'' # p) (NoMatch, None) adminRoutes = (ExactMatch, Some r)" "url = EncodeURL U host (CHR ''/'' # p)"
    "\<And>q. run_handler A q (rtHandler r) = map_option (api_json A) ans"
  shows "ApiGetJson H (asJson A) url =
    (case ans of None \<Rightarrow> Inl (Errorf (''[500] '' @ StatusText H 500 @ '' - '' @ url)) | Some v \<Rightarrow> Inr (Some (view v)))"
proof -
  let ?q = "new_http ''GET'' url None"
  have "newApiServer A (path_of (reqURL ?q)) ?q = (case ans of None \<Rightarrow> (500, asPanic A) | Some v \<Rightarrow> api_json A v)"
    using assms(2-5) by (simp add: newApiServer_def reaches_def new_http_def split: option.split)
  then show ?thesis
    using served_get [of H "\<lambda>q. newApiServer A (path_of (reqURL q)) q" "asJson A" url] assms(2) api_json_read [OF assms(1)]
    by (cases ans) (simp_all add: reaches_def read_failed)
qed

lemma refused_write:
  assumes "json_views (asJson A) view" "reaches H A U host path_of" "meth = ''PUT'' \<or> meth = ''POST''"
    "\<not> has_prefix (CHR ''/'' # p) ''/debug/''" "url = EncodeURL U host (CHR ''/'' # p)"
  shows "apiRequestJson H (asJson A) meth url args want = Inl (Errorf (''[404] '' @ StatusText H 404 @ '' - '' @ url))"
proof -
  let ?f = "\<lambda>q. newApiServer A (path_of (reqURL q)) q"
  have served: "badRequest H meth url = None"
    "\<And>q. clientDo H q = Inr \<lparr>StatusCode = fst (?f q), rspBody = Inr (snd (?f q))\<rparr>"
    using assms(2) by (simp_all add: reaches_def serves_def)
  obtain body where "(case args of None \<Rightarrow> Inr None
      | Some v \<Rightarrow> (case apiMarshalJson (asJson A) v of Inl e \<Rightarrow> Inl (Trace e) | Inr b \<Rightarrow> Inr (Some b))) = Inr body"
  proof (cases args)
    case (Some v)
    obtain b where "jsonVal (asJson A) v = Inr b" using assms(1) unfolding json_views_def by blast
    then show ?thesis using that [of "Some b"] Some by (simp add: apiMarshalJson_def)
  qed (use that [of None] in simp)
  then have q: "apiRequestJson H (asJson A) meth url args want =
      read_response H (asJson A) url want \<lparr>StatusCode = fst (?f (new_http meth url body)), rspBody = Inr (snd (?f (new_http meth url body)))\<rparr>"
    by (simp only: apiRequestJson_def served sum.case option.case)
  obtain b h where n: "new_http meth url body = \<lparr>reqMethod = meth, reqURL = url, reqBody = b, reqHeader = h\<rparr>"
    by (cases body) (simp_all add: new_http_def)
  have "meth \<notin> {''GET'', ''HEAD'', ''*''}" using assms(3) by auto
  then have "?f (new_http meth url body) = not_found"
    using only_reading [OF _ assms(4)] n assms(2,5) by (simp add: reaches_def)
  then show ?thesis using q by (simp add: not_found_def read_failed)
qed



subsection \<open>A server after a failed sample\<close>

text \<open>A proxy that was set up, its last reading of the usage failed, and JSON that knows three words.\<close>

definition plain_meters :: "unit sysUsage option \<Rightarrow> unit meters" where
  "plain_meters u =
     \<lparr>mtCmds = \<lparr>opmap = Map.empty, cTotal = 0, cFails = 0, cErrors = 0\<rparr>, mtQPS = 0, mtSessions = \<lparr>sessTotal = 0, sessAlive = 0\<rparr>,
      lastSysUsage = u,
      mtMem = \<lparr>msAlloc = 0, msSys = 0, msLookups = 0, msMallocs = 0, msFrees = 0, msHeapAlloc = 0, msHeapSys = 0, msHeapIdle = 0,
        msHeapInuse = 0, msHeapObjects = 0, msNumGC = 0, msGCCPUFraction = (), msPauseTotalNs = 0\<rparr>,
      mtProcs = 1, mtGoroutines = 1, mtCgoCalls = 0,
      mtOffheap = \<lparr>allocOffheapBytes = 0, maxOffheapBytes = 0, cslices = [], mallocs = {}\<rparr>\<rparr>"

definition plain_api :: "unit sysUsage option \<Rightarrow> proxy \<Rightarrow> (unit, unit) apiServer" where
  "plain_api u p =
     \<lparr>asView = \<lparr>avVersion = [], avCompile = [], avOps = [], avZones = [], avUp = (\<lambda>_. False), avMeters = plain_meters u,
        avConfig = plain_config, avProxy = p\<rparr>,
      asJson = \<lparr>jsonErr = (\<lambda>r. Inr ''e''), unjsonErr = (\<lambda>b. Inr \<lparr>reCause = [], reStack = ()\<rparr>),
        jsonVal = (\<lambda>v. Inr ''m''), unjsonVal = (\<lambda>b. Inr (VModel (pmodel p)))\<rparr>,
      asText = (\<lambda>_. []), asStack = (\<lambda>_. ()), asDebug = (\<lambda>_. not_found), asPanic = ''PANIC''\<rparr>"

definition plain_http :: "(unit, unit) apiServer \<Rightarrow> httpLib" where
  "plain_http A =
     \<lparr>badRequest = (\<lambda>_ _. None),
      clientDo = (\<lambda>q. let a = newApiServer A (drop 8 (reqURL q)) q in Inr \<lparr>StatusCode = fst a, rspBody = Inr (snd a)\<rparr>),
      StatusText = (\<lambda>_. [])\<rparr>"

definition plain_url :: urlLib where
  "plain_url = \<lparr>escHost = (\<lambda>h. h), escPath = (\<lambda>p. p)\<rparr>"


end
