(* ===== verification/Usage.thy ===== *)
theory Usage
  imports Report
begin

section \<open>Reading the system usage\<close>

text \<open>
  Models \<open>GetUsage\<close> of \<open>pkg/utils/usage_linux.go\<close>, which reads the line of \<open>/proc/self/stat\<close>
  with \<open>fmt.Fscanf\<close>, its counterpart for other systems \<open>pkg/utils/usage_rusage.go\<close>, and the sampler of
  the QPS of \<open>pkg/proxy/stats.go\<close>. The part of \<open>Fscanf\<close> that is used, \<open>%d\<close>, \<open>%s\<close> and single
  spaces, is modelled on ASCII text. The file, the clock ticks of a second and the page size are parameters.
\<close>

subsection \<open>Fscanf\<close>

datatype scanErr = ScanEOF | ScanNewline | ScanNoSpace | ScanNoInteger | ScanRange | ScanMismatch

datatype scanned = SInt int | SStr string

definition scan_space :: "byte \<Rightarrow> bool" where
  "scan_space c \<longleftrightarrow> c \<in> {CHR 0x09, CHR 0x0A, CHR 0x0B, CHR 0x0C, CHR 0x0D, CHR '' '', CHR 0x85, CHR 0xA0}"

text \<open>\<open>SkipSpace\<close>: a line break is an error.\<close>

fun SkipSpace :: "string \<Rightarrow> scanErr + string" where
  "SkipSpace [] = Inr []"
| "SkipSpace (c # cs) =
     (if c = CHR 0x0A then Inl ScanNewline
      else if scan_space c then SkipSpace cs
      else Inr (c # cs))"

definition scanInt :: "string \<Rightarrow> scanErr + (int \<times> string)" where
  "scanInt inp =
     (case SkipSpace inp of
        Inl e \<Rightarrow> Inl e
      | Inr [] \<Rightarrow> Inl ScanEOF
      | Inr (c # cs) \<Rightarrow>
          (let signed = (c = CHR ''+'' \<or> c = CHR ''-''); sign = (if signed then [c] else []); s = (if signed then cs else c # cs);
               digits = takeWhile is_digit s
           in if s = [] then Inl ScanEOF
              else if digits = [] then Inl ScanNoInteger
              else (case ParseInt (sign @ digits) of
                      Inl _ \<Rightarrow> Inl ScanRange
                    | Inr v \<Rightarrow> Inr (v, dropWhile is_digit s))))"

definition scanString :: "string \<Rightarrow> scanErr + (string \<times> string)" where
  "scanString inp =
     (case SkipSpace inp of
        Inl e \<Rightarrow> Inl e
      | Inr s \<Rightarrow>
          if s = [] then Inl ScanEOF
          else Inr (takeWhile (\<lambda>c. \<not> scan_space c) s, dropWhile (\<lambda>c. \<not> scan_space c) s))"

text \<open>A space of the format: one space of the input at least, or its end.\<close>

definition scanGap :: "string \<Rightarrow> scanErr + string" where
  "scanGap inp =
     (case inp of
        [] \<Rightarrow> Inr []
      | c # cs \<Rightarrow>
          if \<not> scan_space c then Inl ScanNoSpace
          else if c = CHR 0x0A then Inl ScanNewline
          else Inr (dropWhile (\<lambda>c. scan_space c \<and> c \<noteq> CHR 0x0A) cs))"

fun Fscanf :: "string \<Rightarrow> string \<Rightarrow> scanned list \<Rightarrow> scanErr + (scanned list \<times> string)" where
  "Fscanf [] inp acc = Inr (rev acc, inp)"
| "Fscanf (c # f) inp acc =
     (if c = CHR '' '' then
        (case scanGap inp of Inl e \<Rightarrow> Inl e | Inr rest \<Rightarrow> Fscanf f rest acc)
      else if c = CHR ''%'' then
        (case f of
           [] \<Rightarrow> Inl ScanMismatch
         | v # f' \<Rightarrow>
             if v = CHR ''d'' then
               (case scanInt inp of Inl e \<Rightarrow> Inl e | Inr (i, rest) \<Rightarrow> Fscanf f' rest (SInt i # acc))
             else if v = CHR ''s'' then
               (case scanString inp of Inl e \<Rightarrow> Inl e | Inr (t, rest) \<Rightarrow> Fscanf f' rest (SStr t # acc))
             else Inl ScanMismatch)
      else Inl ScanMismatch)"

subsection \<open>GetUsage\<close>

definition int_at :: "scanned list \<Rightarrow> nat \<Rightarrow> int" where
  "int_at xs k = (case xs ! k of SInt v \<Rightarrow> v | SStr _ \<Rightarrow> 0)"

record osEnv =
  procStat :: "goerror + string"
  clockTicks :: int
  pagesize :: int
  scanText :: "scanErr \<Rightarrow> goerror"

text \<open>
  The sequence of the calls; what the first three read is ignored. None is the panic of the division
  by the ticks of the clock.
\<close>

definition GetUsage :: "osEnv \<Rightarrow> (goerror + usage) option" where
  "GetUsage E =
     (case procStat E of
        Inl e \<Rightarrow> Some (Inl (Trace e))
      | Inr r0 \<Rightarrow>
     (case Fscanf ''%d %s %s %d %d %d'' r0 [] of
        Inl e \<Rightarrow> Some (Inl (Trace (scanText E e)))
      | Inr (_, r1) \<Rightarrow>
     (case Fscanf ''%d %d %d'' r1 [] of
        Inl e \<Rightarrow> Some (Inl (Trace (scanText E e)))
      | Inr (_, r2) \<Rightarrow>
     (case Fscanf ''%d %d %d %d'' r2 [] of
        Inl e \<Rightarrow> Some (Inl (Trace (scanText E e)))
      | Inr (_, r3) \<Rightarrow>
     (if clockTicks E = 0 then None
      else
     (let unit = 1000000000 div clockTicks E in
     (case Fscanf ''%d %d'' r3 [] of
        Inl e \<Rightarrow> Some (Inl (Trace (scanText E e)))
      | Inr (t, r4) \<Rightarrow>
     (case Fscanf ''%d %d'' r4 [] of
        Inl e \<Rightarrow> Some (Inl (Trace (scanText E e)))
      | Inr (c, r5) \<Rightarrow>
     (case Fscanf ''%d %d %d %d %d'' r5 [] of
        Inl e \<Rightarrow> Some (Inl (Trace (scanText E e)))
      | Inr (n, r6) \<Rightarrow>
     (case Fscanf ''%d %d'' r6 [] of
        Inl e \<Rightarrow> Some (Inl (Trace (scanText E e)))
      | Inr (m, _) \<Rightarrow>
          Some (Inr \<lparr>Utime = wrap64 (int_at t 0 * unit), Stime = wrap64 (int_at t 1 * unit),
            Cutime = wrap64 (int_at c 0 * unit), Cstime = wrap64 (int_at c 1 * unit), NumThreads = int_at n 2,
            VmSize = int_at m 0, VmRss = wrap64 (int_at m 1 * pagesize E)\<rparr>)))))))))))"

subsection \<open>Other systems\<close>

text \<open>\<open>usage_rusage.go\<close>: the fields of \<open>syscall.Rusage\<close> that are read, times in nanoseconds.\<close>

record rusage =
  ruUtime :: int
  ruStime :: int
  ruMaxrss :: int
  ruIxrss :: int
  ruIdrss :: int
  ruIsrss :: int

record usageOther =
  uoUtime :: int
  uoStime :: int
  uoMaxRss :: int
  uoIxrss :: int
  uoIdrss :: int
  uoIsrss :: int

definition GetUsageOther :: "goerror + rusage \<Rightarrow> int \<Rightarrow> goerror + usageOther" where
  "GetUsageOther r ticks =
     (case r of
        Inl e \<Rightarrow> Inl (Trace e)
      | Inr u \<Rightarrow>
          (let unit = wrap64 (1024 * ticks) in
           Inr \<lparr>uoUtime = ruUtime u, uoStime = ruStime u, uoMaxRss = ruMaxrss u, uoIxrss = wrap64 (unit * ruIxrss u),
             uoIdrss = wrap64 (unit * ruIdrss u), uoIsrss = wrap64 (unit * ruIsrss u)\<rparr>))"

definition MemTotalOther :: "usageOther \<Rightarrow> int" where
  "MemTotalOther u = wrap64 (uoIxrss u + uoIdrss u + uoIsrss u)"

definition CPUTotalOther :: "usageOther \<Rightarrow> int" where
  "CPUTotalOther u = wrap64 (uoUtime u + uoStime u)"

subsection \<open>The sampler of the QPS\<close>

text \<open>\<open>rate\<close> is the floating point of \<open>delta\<close> per second, rounded; \<open>elapsed\<close> what the clock shows.\<close>

definition sample_qps :: "(int \<Rightarrow> int \<Rightarrow> int) \<Rightarrow> int \<Rightarrow> int \<Rightarrow> int \<Rightarrow> int" where
  "sample_qps rate t0 t1 elapsed = rate (max 0 (wrap64 (t1 - t0))) elapsed"

subsection \<open>The kernel's line\<close>

text \<open>The fields of \<open>/proc/self/stat\<close> that are read, and the text after them.\<close>

record statLine =
  slPid :: int
  slComm :: string
  slState :: byte
  slGroup :: "int list"
  slFaults :: "int list"
  slUtime :: int
  slStime :: int
  slCutime :: int
  slCstime :: int
  slPriority :: int
  slNice :: int
  slThreads :: int
  slItreal :: int
  slStart :: int
  slVsize :: int
  slRss :: int
  slRest :: string

definition ints :: "int list \<Rightarrow> string" where
  "ints is = concat (map (\<lambda>i. CHR '' '' # Itoa i) is)"

definition stat_text :: "statLine \<Rightarrow> string" where
  "stat_text s =
     Itoa (slPid s) @ '' ('' @ slComm s @ '') '' @ [slState s] @ ints (slGroup s @ slFaults s) @
     ints [slUtime s, slStime s, slCutime s, slCstime s, slPriority s, slNice s, slThreads s, slItreal s, slStart s,
       slVsize s, slRss s] @ slRest s"

text \<open>Six numbers up to the flags, four of page faults, all of 64 bits, a state that is a letter.\<close>

definition stat_ok :: "statLine \<Rightarrow> bool" where
  "stat_ok s \<longleftrightarrow>
     length (slGroup s) = 6 \<and> length (slFaults s) = 4 \<and>
     list_all int64 ([slPid s] @ slGroup s @ slFaults s @
       [slUtime s, slStime s, slCutime s, slCstime s, slPriority s, slNice s, slThreads s, slItreal s, slStart s, slVsize s, slRss s]) \<and>
     \<not> scan_space (slState s) \<and> \<not> is_digit (slState s) \<and> slState s \<noteq> CHR ''+'' \<and> slState s \<noteq> CHR ''-'' \<and>
     (slRest s = [] \<or> hd (slRest s) = CHR '' '')"


subsection \<open>Reading it\<close>

lemma not_digit_space: "is_digit c \<Longrightarrow> \<not> scan_space c"
  by (auto simp: scan_space_def is_digit_iff)

lemma SkipSpace_id: "s \<noteq> [] \<Longrightarrow> \<not> scan_space (hd s) \<Longrightarrow> SkipSpace s = Inr s"
  by (cases s) (auto simp: scan_space_def)

lemma scan_space_gap [simp]: "scan_space (CHR '' '')"
  by (simp add: scan_space_def)

declare Fscanf.simps(2) [simp del]

lemma SkipSpace_gap [simp]: "SkipSpace (CHR '' '' # s) = SkipSpace s"
  by (simp add: scan_space_def)

text \<open>The text after a number starts with no digit.\<close>

definition stops :: "string \<Rightarrow> bool" where
  "stops s \<longleftrightarrow> s = [] \<or> \<not> is_digit (hd s)"

lemma stops_simps [simp]: "stops []" "stops (CHR '' '' # s)"
  by (simp_all add: stops_def is_digit_iff)

lemma digits_stop: "list_all is_digit ds \<Longrightarrow> stops s \<Longrightarrow> takeWhile is_digit (ds @ s) = ds \<and> dropWhile is_digit (ds @ s) = s"
  by (induction ds) (cases s; auto simp: stops_def)+

lemma scanInt_Itoa:
  assumes "int64 v" "stops s"
  shows "scanInt (Itoa v @ s) = Inr (v, s)"
proof (cases "v < 0")
  case True
  obtain d ds where d: "nat_digits (nat (- v)) = d # ds" by (cases "nat_digits (nat (- v))") auto
  have "SkipSpace (CHR ''-'' # d # ds @ s) = Inr (CHR ''-'' # d # ds @ s)" by (simp add: scan_space_def)
  moreover have "takeWhile is_digit (d # ds @ s) = d # ds \<and> dropWhile is_digit (d # ds @ s) = s"
    using digits_stop [OF nat_digits_all assms(2), of "nat (- v)"] d by simp
  moreover have "ParseInt (CHR ''-'' # d # ds) = Inr v" using ParseInt_FormatInt [OF assms(1)] True d by (simp add: FormatInt_def)
  ultimately show ?thesis using True d by (simp add: scanInt_def Itoa_def FormatInt_def Let_def del: takeWhile.simps dropWhile.simps)
next
  case False
  obtain d ds where d: "nat_digits (nat v) = d # ds" by (cases "nat_digits (nat v)") auto
  have dig: "is_digit d" using nat_digits_all [of "nat v"] d by simp
  then have "SkipSpace (d # ds @ s) = Inr (d # ds @ s)" "d \<noteq> CHR ''+''" "d \<noteq> CHR ''-''"
    using not_digit_space SkipSpace_id [of "d # ds @ s"] not_digit_signs by auto
  moreover have "takeWhile is_digit (d # ds @ s) = d # ds \<and> dropWhile is_digit (d # ds @ s) = s"
    using digits_stop [OF nat_digits_all assms(2), of "nat v"] d by simp
  moreover have "ParseInt (d # ds) = Inr v" using ParseInt_FormatInt [OF assms(1)] False d by (simp add: FormatInt_def)
  ultimately show ?thesis using False d
    by (simp add: scanInt_def Itoa_def FormatInt_def Let_def del: takeWhile.simps dropWhile.simps)
qed

lemma scanInt_gap [simp]: "scanInt (CHR '' '' # s) = scanInt s"
  by (simp add: scanInt_def)

lemma scanString_gap [simp]: "scanString (CHR '' '' # s) = scanString s"
  by (simp add: scanString_def)

lemma scanString_word:
  assumes "w \<noteq> []" "\<forall>c \<in> set w. \<not> scan_space c"
  shows "scanString (w @ CHR '' '' # s) = Inr (w, CHR '' '' # s)"
proof -
  have "SkipSpace (w @ CHR '' '' # s) = Inr (w @ CHR '' '' # s)" using assms by (intro SkipSpace_id) (cases w; simp)+
  moreover have "takeWhile (\<lambda>c. \<not> scan_space c) (w @ CHR '' '' # s) = w" "dropWhile (\<lambda>c. \<not> scan_space c) (w @ CHR '' '' # s) = CHR '' '' # s"
    using assms(2) by (simp_all add: takeWhile_append2 dropWhile_append2 scan_space_def)
  ultimately show ?thesis using assms(1) by (simp add: scanString_def)
qed

lemma Itoa_start: "Itoa v = c # cs \<Longrightarrow> \<not> scan_space c"
  using FormatInt_chars [of c v] not_digit_space by (auto simp: Itoa_def scan_space_def)

lemma scanGap_word: "w = c # cs \<Longrightarrow> \<not> scan_space c \<Longrightarrow> scanGap (CHR '' '' # w @ s) = Inr (w @ s)"
  by (simp add: scanGap_def scan_space_def)

lemma scanGap_Itoa [simp]: "scanGap (CHR '' '' # Itoa v @ s) = Inr (Itoa v @ s)"
proof -
  obtain c cs where "Itoa v = c # cs" by (cases "Itoa v") (auto simp: Itoa_def)
  then show ?thesis using scanGap_word Itoa_start by blast
qed

text \<open>One number, at the start of a call or after another of the same call.\<close>

lemma Fscanf_int [simp]:
  "int64 v \<Longrightarrow> stops s \<Longrightarrow> Fscanf (CHR ''%'' # CHR ''d'' # f) (Itoa v @ s) acc = Fscanf f s (SInt v # acc)"
  by (simp add: Fscanf.simps(2) scanInt_Itoa)

lemma Fscanf_gap_int [simp]:
  "int64 v \<Longrightarrow> stops s \<Longrightarrow> Fscanf (CHR ''%'' # CHR ''d'' # f) (CHR '' '' # Itoa v @ s) acc = Fscanf f s (SInt v # acc)"
  by (simp add: Fscanf.simps(2) scanInt_Itoa)

lemma Fscanf_next_int [simp]:
  "int64 v \<Longrightarrow> stops s \<Longrightarrow>
   Fscanf (CHR '' '' # CHR ''%'' # CHR ''d'' # f) (CHR '' '' # Itoa v @ s) acc = Fscanf f s (SInt v # acc)"
  by (simp add: Fscanf.simps(2) scanInt_Itoa)

lemma Fscanf_next_word:
  assumes "w = c # cs" "\<forall>c \<in> set w. \<not> scan_space c"
  shows "Fscanf (CHR '' '' # CHR ''%'' # CHR ''s'' # f) (CHR '' '' # w @ CHR '' '' # s) acc = Fscanf f (CHR '' '' # s) (SStr w # acc)"
  using assms scanGap_word [OF assms(1), of "CHR '' '' # s"] scanString_word [of w s] by (simp add: Fscanf.simps(2))

lemma ints_Cons: "ints (i # is) @ s = CHR '' '' # Itoa i @ ints is @ s"
  and ints_Nil: "ints [] @ s = s"
  by (simp_all add: ints_def)

lemma stops_ints: "stops s \<Longrightarrow> stops (ints is @ s)"
  by (cases "is") (simp_all add: ints_Cons ints_Nil)

lemma length6: "length xs = 6 \<Longrightarrow> \<exists>a b c d e f. xs = [a, b, c, d, e, f]"
  and length4: "length xs = 4 \<Longrightarrow> \<exists>a b c d. xs = [a, b, c, d]"
  by (simp_all add: numeral_eq_Suc length_Suc_conv) blast+

text \<open>What \<open>GetUsage\<close> is to give for a line.\<close>

definition usage_of :: "osEnv \<Rightarrow> statLine \<Rightarrow> usage" where
  "usage_of E s =
     (let unit = 1000000000 div clockTicks E in
      \<lparr>Utime = wrap64 (slUtime s * unit), Stime = wrap64 (slStime s * unit), Cutime = wrap64 (slCutime s * unit),
       Cstime = wrap64 (slCstime s * unit), NumThreads = slThreads s, VmSize = slVsize s, VmRss = wrap64 (slRss s * pagesize E)\<rparr>)"

lemma first_scan:
  assumes "stat_ok s" "\<forall>c \<in> set (slComm s). \<not> scan_space c" "slGroup s = a1 # a2 # a3 # gs"
  shows "\<exists>xs. Fscanf ''%d %s %s %d %d %d'' (stat_text s) [] =
    Inr (xs, ints (gs @ slFaults s) @ ints [slUtime s, slStime s, slCutime s, slCstime s, slPriority s, slNice s, slThreads s,
      slItreal s, slStart s, slVsize s, slRss s] @ slRest s)"
proof -
  define X where "X = ints [slUtime s, slStime s, slCutime s, slCstime s, slPriority s, slNice s, slThreads s,
      slItreal s, slStart s, slVsize s, slRss s]"
  let ?w = "CHR ''('' # slComm s @ '')''"
  have w: "\<forall>c \<in> set ?w. \<not> scan_space c" using assms(2) by (auto simp: scan_space_def)
  have st: "\<forall>c \<in> set [slState s]. \<not> scan_space c" using assms(1) by (simp add: stat_ok_def)
  have i: "int64 (slPid s)" "int64 a1" "int64 a2" "int64 a3" using assms(1,3) by (simp_all add: stat_ok_def)
  have "stops (slRest s)" using assms(1) by (auto simp: stat_ok_def stops_def is_digit_iff)
  then have "stops (ints (gs @ slFaults s) @ X @ slRest s)" unfolding X_def by (intro stops_ints)
  then show ?thesis
    using i assms(3) Fscanf_next_word [OF refl w] Fscanf_next_word [OF refl st]
    unfolding X_def [symmetric] by (simp add: stat_text_def X_def [symmetric] ints_Cons)
qed

lemma later_scans:
  assumes "stat_ok s" "slGroup s = [a1, a2, a3, a4, a5, a6]" "slFaults s = [b1, b2, b3, b4]"
    "Fscanf ''%d %s %s %d %d %d'' (stat_text s) [] =
      Inr (xs, ints ([a4, a5, a6] @ [b1, b2, b3, b4]) @ ints [slUtime s, slStime s, slCutime s, slCstime s, slPriority s, slNice s,
        slThreads s, slItreal s, slStart s, slVsize s, slRss s] @ slRest s)"
    "procStat E = Inr (stat_text s)" "clockTicks E \<noteq> 0"
  shows "GetUsage E = Some (Inr (usage_of E s))"
proof -
  have i: "int64 a4" "int64 a5" "int64 a6" "int64 b1" "int64 b2" "int64 b3" "int64 b4"
    "int64 (slUtime s)" "int64 (slStime s)" "int64 (slCutime s)" "int64 (slCstime s)" "int64 (slPriority s)" "int64 (slNice s)"
    "int64 (slThreads s)" "int64 (slItreal s)" "int64 (slStart s)" "int64 (slVsize s)" "int64 (slRss s)"
    using assms(1-3) by (simp_all add: stat_ok_def)
  have "stops (slRest s)" using assms(1) by (auto simp: stat_ok_def stops_def is_digit_iff)
  with i show ?thesis
    unfolding GetUsage_def assms(4,5) using assms(6)
    by (simp add: assms(4) ints_Cons ints_Nil int_at_def usage_of_def Let_def)
qed

text \<open>
  C32. What the kernel writes is read back. From a line of \<open>/proc/self/stat\<close> of a program whose name has no
  space, \<open>GetUsage\<close> gives the times of this program and its children in the unit of the ticks, the number of
  threads and the two sizes, whatever the other numbers are, negative ones included: no call of \<open>Fscanf\<close> loses its place.
\<close>

theorem usage_read:
  assumes "stat_ok s" "\<forall>c \<in> set (slComm s). \<not> scan_space c" "procStat E = Inr (stat_text s)" "clockTicks E \<noteq> 0"
  shows "GetUsage E = Some (Inr (usage_of E s))"
proof -
  have l: "length (slGroup s) = 6" "length (slFaults s) = 4" using assms(1) by (simp_all add: stat_ok_def)
  obtain a1 a2 a3 a4 a5 a6 where a: "slGroup s = [a1, a2, a3, a4, a5, a6]" using length6 [OF l(1)] by blast
  obtain b1 b2 b3 b4 where b: "slFaults s = [b1, b2, b3, b4]" using length4 [OF l(2)] by blast
  obtain xs where "Fscanf ''%d %s %s %d %d %d'' (stat_text s) [] =
      Inr (xs, ints ([a4, a5, a6] @ [b1, b2, b3, b4]) @ ints [slUtime s, slStime s, slCutime s, slCstime s, slPriority s, slNice s,
        slThreads s, slItreal s, slStart s, slVsize s, slRss s] @ slRest s)"
    using first_scan [OF assms(1,2) a] b by auto
  then show ?thesis using later_scans [OF assms(1) a b _ assms(3,4)] by blast
qed

definition demo_stat :: "string \<Rightarrow> statLine" where
  "demo_stat name =
     \<lparr>slPid = 4242, slComm = name, slState = CHR ''S'', slGroup = [1, 4242, 4242, 0, -1, 1077936384], slFaults = [900, 0, 3, 0],
      slUtime = 150, slStime = 50, slCutime = 0, slCstime = 0, slPriority = 20, slNice = 0, slThreads = 12, slItreal = 0,
      slStart = 8812, slVsize = 700000000, slRss = 2500, slRest = '' 18446744073709551615''\<rparr>"

lemma demo_stat_ok: "stat_ok (demo_stat name)"
  by (simp add: stat_ok_def demo_stat_def int64_def scan_space_def is_digit_iff)

definition demo_os :: "string \<Rightarrow> osEnv" where
  "demo_os name = \<lparr>procStat = Inr (stat_text (demo_stat name)), clockTicks = 100, pagesize = 4096, scanText = (\<lambda>_. ErrNew [])\<rparr>"

theorem usage_read_witness:
  "\<exists>u. GetUsage (demo_os ''proxy'') = Some (Inr u) \<and> Utime u = 1500000000 \<and> NumThreads u = 12 \<and> VmRss u = 10240000"
proof -
  have "GetUsage (demo_os ''proxy'') = Some (Inr (usage_of (demo_os ''proxy'') (demo_stat ''proxy'')))"
    by (rule usage_read [OF demo_stat_ok]) (simp_all add: demo_os_def demo_stat_def scan_space_def)
  then show ?thesis by (simp add: usage_of_def demo_os_def demo_stat_def wrap64_def Let_def)
qed

text \<open>
  A program whose name has a space cannot read its own line: the second word of the name is taken for the
  state, and the state for a number. Every reading fails, the sampler stores a sample without usage, and from
  the first one on \<open>Stats\<close> and \<open>Overview\<close> panic.
\<close>

lemma split_name:
  assumes "stat_ok s" "slComm s = a @ CHR '' '' # b" "\<forall>c \<in> set (a @ b). \<not> scan_space c"
  shows "Fscanf ''%d %s %s %d %d %d'' (stat_text s) [] = Inl ScanNoInteger"
proof -
  define X where "X = ints (slGroup s @ slFaults s) @ ints [slUtime s, slStime s, slCutime s, slCstime s, slPriority s, slNice s,
      slThreads s, slItreal s, slStart s, slVsize s, slRss s] @ slRest s"
  let ?w = "CHR ''('' # a" and ?v = "hd (b @ '')'') # tl (b @ '')'')"
  have w: "\<forall>c \<in> set ?w. \<not> scan_space c" using assms(3) by (auto simp: scan_space_def)
  have "?v = b @ '')''" by (cases b) simp_all
  then have v: "\<forall>c \<in> set ?v. \<not> scan_space c" "?v = b @ '')''" using assms(3) by (auto simp: scan_space_def)
  have st: "\<not> scan_space (slState s)" "\<not> is_digit (slState s)" "slState s \<noteq> CHR ''+''" "slState s \<noteq> CHR ''-''"
    using assms(1) by (simp_all add: stat_ok_def)
  have no: "Fscanf '' %d %d %d'' (CHR '' '' # slState s # X) acc = Inl ScanNoInteger" for acc
    using scanGap_word [OF refl st(1), of "[]" X] st SkipSpace_id [of "slState s # X"] by (simp add: Fscanf.simps(2) scanInt_def Let_def)
  have "stat_text s = Itoa (slPid s) @ CHR '' '' # ?w @ CHR '' '' # (b @ '')'') @ CHR '' '' # slState s # X"
    using assms(2) by (simp add: stat_text_def X_def)
  then have "stat_text s = Itoa (slPid s) @ CHR '' '' # ?w @ CHR '' '' # ?v @ CHR '' '' # slState s # X" by (simp only: v(2))
  then show ?thesis
    using assms(1) Fscanf_next_word [OF refl w] Fscanf_next_word [OF refl v(1)] no
    by (simp add: stat_ok_def)
qed

theorem space_breaks_reports:
  assumes "stat_ok s" "slComm s = a @ CHR '' '' # b" "\<forall>c \<in> set (a @ b). \<not> scan_space c" "procStat E = Inr (stat_text s)"
  shows "\<exists>err. GetUsage E = Some (Inl err) \<and>
    Overview version compile ord zord up (T\<lparr>lastSysUsage := Some (sample_usage zero ratio now (Inl err) e)\<rparr>) flags c p = None"
  using split_name [OF assms(1-3)] assms(4) by (simp add: GetUsage_def report_panics_iff sample_usage_def CPUUsage_def)

theorem space_breaks_reports_witness:
  "\<exists>err. GetUsage (demo_os ''mulive router'') = Some (Inl err)"
proof -
  have c: "slComm (demo_stat ''mulive router'') = ''mulive'' @ CHR '' '' # ''router''" by (simp add: demo_stat_def)
  have n: "\<forall>c \<in> set (''mulive'' @ ''router''). \<not> scan_space c" by (simp add: scan_space_def)
  have f: "procStat (demo_os ''mulive router'') = Inr (stat_text (demo_stat ''mulive router''))" by (simp add: demo_os_def)
  show ?thesis by (rule exE [OF space_breaks_reports [OF demo_stat_ok c n f]]) blast
qed

end
