(* ===== verification/ModelsJson.thy ===== *)
theory ModelsJson
  imports Zones
begin

section \<open>Zones as JSON\<close>

text \<open>
  Models \<open>pkg/models/encode.go\<close> and the methods of \<open>pkg/models/zone.go\<close> and \<open>proxy.go\<close> that call it.
  The library \<open>encoding/json\<close> is a parameter for one type at a time: printing, and reading into a
  value that is there, which gives the new value beside the error.
\<close>

record 'v jsonOf =
  jmarshal :: "'v \<Rightarrow> goerror + bytes"
  junmarshal :: "bytes \<Rightarrow> 'v \<Rightarrow> goerror option \<times> 'v"

text \<open>None is the panic of \<open>log.PanicErrorf\<close>.\<close>

definition jsonEncode :: "'v jsonOf \<Rightarrow> 'v \<Rightarrow> bytes option" where
  "jsonEncode J v = (case jmarshal J v of Inl e \<Rightarrow> None | Inr b \<Rightarrow> Some b)"

definition jsonDecode :: "'v jsonOf \<Rightarrow> 'v \<Rightarrow> bytes \<Rightarrow> goerror option \<times> 'v" where
  "jsonDecode J v b =
     (case junmarshal J b v of
        (Some e, v') \<Rightarrow> (Some (Trace e), v')
      | (None, v') \<Rightarrow> (None, v'))"

definition EncodeZone :: "mzone jsonOf \<Rightarrow> mzone \<Rightarrow> bytes option" where
  "EncodeZone J z = jsonEncode J z"

definition Dncode :: "mzone jsonOf \<Rightarrow> bytes \<Rightarrow> mzone \<Rightarrow> goerror option \<times> mzone" where
  "Dncode J info z = jsonDecode J z info"

text \<open>\<open>ListZone\<close> reads into a nil slice and gives the error as it is; what was read so far stays.\<close>

definition ListZone :: "mzone list jsonOf \<Rightarrow> bytes \<Rightarrow> mzone list \<times> goerror option" where
  "ListZone J b = (case junmarshal J b [] of (err, zs) \<Rightarrow> (zs, err))"

text \<open>The \<open>Encode\<close> of \<open>models.Proxy\<close> is the same function.\<close>

definition EncodeProxy :: "'v jsonOf \<Rightarrow> 'v \<Rightarrow> bytes option" where
  "EncodeProxy J p = jsonEncode J p"

text \<open>
  A zone that was printed is read back by a fresh one: where the library reads what it prints, and
  does not fail on the six plain fields, \<open>Encode\<close> does not panic and \<open>Dncode\<close> restores every field.
\<close>

lemma zone_roundtrip:
  assumes "\<And>z. \<exists>b. jmarshal J z = Inr b \<and> (\<forall>old. junmarshal J b old = (None, z))"
  shows "\<exists>b. EncodeZone J z = Some b \<and> Dncode J b old = (None, z)"
  using assms [of z] by (auto simp: EncodeZone_def Dncode_def jsonEncode_def jsonDecode_def)

end
