(* ===== verification/Tokens.thy ===== *)
theory Tokens
  imports Prelude "HOL-Library.Multiset" "HOL-Library.List_Lexorder" "HOL-Library.Char_ord"
begin

section \<open>Tokens\<close>

text \<open>
  Models \<open>pkg/utils/rpc/crypto.go\<close>. The addresses of the network interfaces and the two hash
  functions are parameters.
\<close>

text \<open>\<open>%x\<close> of bytes.\<close>

definition hex_digit :: "nat \<Rightarrow> char" where
  "hex_digit n = ''0123456789abcdef'' ! n"

definition hex_text :: "bytes \<Rightarrow> string" where
  "hex_text b = concat (map (\<lambda>c. [hex_digit (of_char c div 16), hex_digit (of_char c mod 16)]) b)"

text \<open>\<open>%v\<close> of a slice of strings.\<close>

fun joined :: "string list \<Rightarrow> string" where
  "joined [] = []"
| "joined [s] = s"
| "joined (s # t # ss) = s @ '' '' @ joined (t # ss)"

definition token_text :: "string list \<Rightarrow> string list \<Rightarrow> string" where
  "token_text addrs segs =
     ''Codis-Token@['' @ joined (sort (filter (\<lambda>a. a \<noteq> []) addrs)) @ '']'' @ concat (map (\<lambda>s. ''-{'' @ s @ ''}'') segs)"

definition NewToken :: "(bytes \<Rightarrow> bytes) \<Rightarrow> string list \<Rightarrow> string list \<Rightarrow> string" where
  "NewToken md5 addrs segs = hex_text (md5 (token_text addrs segs))"

definition xauth_text :: "string list \<Rightarrow> string" where
  "xauth_text segs = ''Codis-XAuth'' @ concat (map (\<lambda>s. ''-['' @ s @ '']'') segs)"

definition NewXAuth :: "(bytes \<Rightarrow> bytes) \<Rightarrow> string list \<Rightarrow> string" where
  "NewXAuth sha256 segs = hex_text (take 16 (sha256 (xauth_text segs)))"

subsection \<open>What tokens tell apart\<close>

text \<open>The token of a host does not depend on the order in which the system lists its interfaces.\<close>

lemma NewToken_order:
  assumes "mset addrs = mset addrs'"
  shows "NewToken md5 addrs segs = NewToken md5 addrs' segs"
proof -
  have "mset (filter (\<lambda>a. a \<noteq> []) addrs) = mset (filter (\<lambda>a. a \<noteq> []) addrs')" using assms by (simp add: mset_filter)
  then have "sort (filter (\<lambda>a. a \<noteq> []) addrs) = sort (filter (\<lambda>a. a \<noteq> []) addrs')"
    by (metis properties_for_sort mset_sort sorted_sort)
  then show ?thesis by (simp add: NewToken_def token_text_def)
qed

text \<open>Hexadecimal text tells bytes apart, so tokens differ whenever the hashes do.\<close>

lemma hex_digit_inj: "m < 16 \<Longrightarrow> n < 16 \<Longrightarrow> hex_digit m = hex_digit n \<Longrightarrow> m = n"
  unfolding hex_digit_def by (subst (asm) nth_eq_iff_index_eq) auto

lemma hex_byte_inj:
  assumes "hex_digit (of_char c div 16) = hex_digit (of_char d div 16)" "hex_digit (of_char c mod 16) = hex_digit (of_char d mod 16)"
  shows "c = d"
proof -
  have "of_char c < (16 * 16 :: nat)" "of_char d < (16 * 16 :: nat)" by simp_all
  then have "of_char c div 16 < (16 :: nat)" "of_char d div 16 < (16 :: nat)" by (simp_all only: less_mult_imp_div_less)
  then have "of_char c div 16 = (of_char d div 16 :: nat)" using assms(1) by (rule hex_digit_inj)
  moreover have "of_char c mod 16 = (of_char d mod 16 :: nat)" using assms(2) by (intro hex_digit_inj) simp_all
  ultimately have "of_char c = (of_char d :: nat)" by (metis div_mult_mod_eq)
  then show ?thesis by simp
qed

lemma hex_text_inj: "hex_text b = hex_text b' \<Longrightarrow> b = b'"
proof (induction b arbitrary: b')
  case Nil
  then show ?case by (cases b') (auto simp: hex_text_def)
next
  case (Cons c b)
  then obtain d b'' where "b' = d # b''" by (cases b') (auto simp: hex_text_def)
  then have "hex_digit (of_char c div 16) = hex_digit (of_char d div 16)" "hex_digit (of_char c mod 16) = hex_digit (of_char d mod 16)"
    "hex_text b = hex_text b''"
    using Cons.prems by (simp_all add: hex_text_def)
  then show ?case using Cons.IH hex_byte_inj \<open>b' = d # b''\<close> by blast
qed

text \<open>
  The segments themselves are not told apart: one segment with brackets inside makes the same text as two,
  and so the same authentication, whatever the hash.
\<close>

lemma XAuth_ambiguous: "NewXAuth sha256 [''a'', ''b''] = NewXAuth sha256 [''a]-[b'']"
  by (simp add: NewXAuth_def xauth_text_def)

lemma Token_ambiguous: "NewToken md5 addrs [''a'', ''b''] = NewToken md5 addrs [''a}-{b'']"
  by (simp add: NewToken_def token_text_def)

end
