(* ===== verification/Future.thy ===== *)
theory Future
  imports Prelude
begin

section \<open>Futures\<close>

text \<open>
  Models \<open>pkg/utils/sync2/future.go\<close>: a wait group around a map. Its methods are called by
  goroutines at once; each is a step. \<open>Done\<close> is one step, since it holds the lock throughout;
  \<open>Wait\<close> is a step that can be taken when the wait group is at zero. None is the panic of a wait group
  that goes below zero. Ghost: the calls of \<open>Add\<close>, those of \<open>Done\<close> in order, the maps given out.
\<close>

record 'v future =
  fwait :: int
  vmap :: "(string \<rightharpoonup> 'v) option"
  fadds :: nat
  fdones :: "(string \<times> 'v) list"
  fgiven :: "(string \<rightharpoonup> 'v) list"

definition new_future :: "'v future" where
  "new_future = \<lparr>fwait = 0, vmap = None, fadds = 0, fdones = [], fgiven = []\<rparr>"

definition lazyInit :: "'v future \<Rightarrow> 'v future" where
  "lazyInit f = (if vmap f = None then f\<lparr>vmap := Some Map.empty\<rparr> else f)"

definition FutureAdd :: "'v future \<Rightarrow> 'v future" where
  "FutureAdd f = f\<lparr>fwait := fwait f + 1, fadds := fadds f + 1\<rparr>"

definition FutureDone :: "string \<Rightarrow> 'v \<Rightarrow> 'v future \<Rightarrow> 'v future option" where
  "FutureDone key v f =
     (let f1 = lazyInit f;
          f2 = f1\<lparr>vmap := map_option (\<lambda>m. m(key \<mapsto> v)) (vmap f1)\<rparr>
      in if fwait f2 \<le> 0 then None
         else Some (f2\<lparr>fwait := fwait f2 - 1, fdones := fdones f2 @ [(key, v)]\<rparr>))"

text \<open>The map that \<open>Wait\<close> returns, once it returns.\<close>

definition FutureWait :: "'v future \<Rightarrow> ((string \<rightharpoonup> 'v) option \<times> 'v future) option" where
  "FutureWait f =
     (if fwait f \<noteq> 0 then None
      else (let f1 = lazyInit f in Some (vmap f1, f1\<lparr>fgiven := fgiven f1 @ [case vmap f1 of None \<Rightarrow> Map.empty | Some m \<Rightarrow> m]\<rparr>)))"

inductive fstep :: "'v future \<Rightarrow> 'v future \<Rightarrow> bool" where
  call_add: "fstep f (FutureAdd f)"
| call_done: "FutureDone key v f = Some f' \<Longrightarrow> fstep f f'"
| call_wait: "FutureWait f = Some (m, f') \<Longrightarrow> fstep f f'"

inductive_cases fstepE: "fstep f f'"

subsection \<open>The map of what is done\<close>

definition entries :: "(string \<times> 'v) list \<Rightarrow> (string \<rightharpoonup> 'v)" where
  "entries ds = map_of (rev ds)"

lemma entries_simps [simp]: "entries [] = Map.empty" "entries (ds @ [(k, v)]) = (entries ds)(k \<mapsto> v)"
  by (simp_all add: entries_def)

text \<open>
  The wait group counts the additions that are not done; the map holds the last value of every key; every
  map that was given out held what was done by then.
\<close>

definition given_ok :: "(string \<times> 'v) list \<Rightarrow> (string \<rightharpoonup> 'v) list \<Rightarrow> bool" where
  "given_ok ds ms \<longleftrightarrow> (\<forall>m \<in> set ms. \<exists>k \<le> length ds. m = entries (take k ds))"

lemma given_ok_simps [simp]: "given_ok ds []" "given_ok ds ms \<Longrightarrow> given_ok ds (ms @ [entries ds])"
  unfolding given_ok_def by (simp, metis (no_types) Un_iff empty_iff empty_set list.set_intros(1) order_refl set_ConsD set_append take_all)

lemma given_ok_more [simp]: "given_ok ds ms \<Longrightarrow> given_ok (ds @ [d]) ms"
  unfolding given_ok_def
proof
  fix m assume "\<forall>m \<in> set ms. \<exists>k \<le> length ds. m = entries (take k ds)" "m \<in> set ms"
  then obtain k where "k \<le> length ds" "m = entries (take k ds)" by blast
  then show "\<exists>k \<le> length (ds @ [d]). m = entries (take k (ds @ [d]))" by (intro exI [of _ k]) simp
qed

definition future_inv :: "'v future \<Rightarrow> bool" where
  "future_inv f \<longleftrightarrow>
     fwait f = int (fadds f) - int (length (fdones f)) \<and> length (fdones f) \<le> fadds f \<and>
     (case vmap f of None \<Rightarrow> fdones f = [] | Some m \<Rightarrow> m = entries (fdones f)) \<and>
     given_ok (fdones f) (fgiven f)"

lemma lazyInit_fields [simp]:
  "fwait (lazyInit f) = fwait f" "fadds (lazyInit f) = fadds f" "fdones (lazyInit f) = fdones f" "fgiven (lazyInit f) = fgiven f"
  by (simp_all add: lazyInit_def)

lemma lazyInit_map: "future_inv f \<Longrightarrow> vmap (lazyInit f) = Some (entries (fdones f))"
  by (auto simp: lazyInit_def future_inv_def split: option.splits)

lemma FutureAdd_inv: "future_inv f \<Longrightarrow> future_inv (FutureAdd f)"
  by (cases "vmap f") (auto simp: FutureAdd_def future_inv_def)

lemma FutureDone_inv:
  assumes "future_inv f" "FutureDone key v f = Some f'"
  shows "future_inv f'"
proof -
  have f': "f' = (lazyInit f)\<lparr>vmap := Some ((entries (fdones f))(key \<mapsto> v)), fwait := fwait f - 1, fdones := fdones f @ [(key, v)]\<rparr>"
    and pos: "0 < fwait f"
    using assms(2) lazyInit_map [OF assms(1)] by (auto simp: FutureDone_def Let_def split: if_splits)
  show ?thesis using assms(1) pos f' by (simp add: future_inv_def)
qed

lemma FutureWait_inv:
  assumes "future_inv f" "FutureWait f = Some (m, f')"
  shows "future_inv f' \<and> m = Some (entries (fdones f)) \<and> length (fdones f) = fadds f"
proof -
  have w: "fwait f = 0" "m = vmap (lazyInit f)" "f' = (lazyInit f)\<lparr>fgiven := fgiven f @ [entries (fdones f)]\<rparr>"
    using assms(2) lazyInit_map [OF assms(1)] by (auto simp: FutureWait_def Let_def split: if_splits)
  have n: "length (fdones f) = fadds f" using assms(1) w(1) by (simp add: future_inv_def)
  then have "future_inv f'"
    unfolding w(3) using assms(1) w(1) lazyInit_map [OF assms(1)] by (simp add: future_inv_def)
  then show ?thesis using n w(2) lazyInit_map [OF assms(1)] by simp
qed

interpretation futures: trans_sys "\<lambda>f. f = new_future" fstep future_inv
proof
  show "future_inv f" if "f = new_future" for f :: "'v future"
    using that by (simp add: new_future_def future_inv_def)
  show "future_inv f'" if "fstep f f'" "future_inv f" for f f' :: "'v future"
    using that(1)
  proof (rule fstepE)
    assume "f' = FutureAdd f"
    then show ?thesis using FutureAdd_inv that(2) by blast
  next
    fix key v assume "FutureDone key v f = Some f'"
    then show ?thesis by (rule FutureDone_inv [OF that(2)])
  next
    fix m assume "FutureWait f = Some (m, f')"
    then show ?thesis by (rule FutureWait_inv [OF that(2), THEN conjunct1])
  qed
qed

text \<open>
  Who waits gets everything. Whatever the goroutines do in which order, \<open>Wait\<close> returns only when every
  addition is done, with a map, never a nil one, that holds under each key the value of its last \<open>Done\<close>, and
  nothing else; it returns at once when all are done, and a \<open>Done\<close> panics only when it has no addition.
\<close>

theorem future_waits:
  assumes "fstep\<^sup>*\<^sup>* new_future f"
  shows "(FutureWait f \<noteq> None \<longleftrightarrow> length (fdones f) = fadds f)
    \<and> (\<forall>m f'. FutureWait f = Some (m, f') \<longrightarrow> m = Some (entries (fdones f)))
    \<and> (FutureDone key v f = None \<longleftrightarrow> length (fdones f) = fadds f)"
proof -
  have i: "future_inv f" by (rule futures.reach_inv [OF refl assms])
  then have c: "fwait f = int (fadds f) - int (length (fdones f))" "length (fdones f) \<le> fadds f" by (simp_all add: future_inv_def)
  then have "FutureWait f \<noteq> None \<longleftrightarrow> length (fdones f) = fadds f" by (auto simp: FutureWait_def Let_def)
  moreover have "FutureDone key v f = None \<longleftrightarrow> length (fdones f) = fadds f" using c by (auto simp: FutureDone_def Let_def)
  moreover have "m = Some (entries (fdones f))" if "FutureWait f = Some (m, f')" for m f'
    using FutureWait_inv [OF i that] by simp
  ultimately show ?thesis by simp
qed

theorem future_waits_witness:
  "\<exists>f :: nat future. fdones f = [(''a'', 1), (''a'', 2)] \<and> (\<exists>f'. FutureWait f = Some (Some [''a'' \<mapsto> 2], f'))"
proof -
  let ?f1 = "FutureAdd (FutureAdd (new_future :: nat future))"
  obtain f2 where 2: "FutureDone ''a'' 1 ?f1 = Some f2" "fdones f2 = [(''a'', 1)]" "fwait f2 = 1" "fadds f2 = 2"
    by (simp add: FutureDone_def FutureAdd_def new_future_def lazyInit_def Let_def)
  obtain f3 where 3: "FutureDone ''a'' 2 f2 = Some f3" "fdones f3 = [(''a'', 1), (''a'', 2)]" "fadds f3 = 2"
    using 2(2-4) by (auto simp: FutureDone_def Let_def)
  have "fstep\<^sup>*\<^sup>* new_future f3"
    using call_add [of new_future] call_add [of "FutureAdd new_future"] call_done [OF 2(1)] call_done [OF 3(1)]
    by (meson rtranclp.rtrancl_into_rtrancl rtranclp.rtrancl_refl)
  note * = future_waits [OF this]
  have "entries (fdones f3) = [''a'' \<mapsto> 2]" using 3(2) by (simp add: entries_def fun_eq_iff)
  moreover obtain m f' where w: "FutureWait f3 = Some (m, f')" using conjunct1 [OF *] 3(2,3) by auto
  moreover have "m = Some (entries (fdones f3))" using conjunct1 [OF conjunct2 [OF *]] w by blast
  ultimately show ?thesis using 3(2) by (intro exI [of _ f3] conjI exI [of _ f']) simp_all
qed

text \<open>
  The map is shared: a \<open>Done\<close> after a \<open>Wait\<close> writes the very map that was returned, outside any lock of
  its reader. In the model the later state's map differs from the one that was given.
\<close>

lemma given_map_changes:
  assumes "future_inv f" "FutureWait f = Some (Some m, f1)" "FutureDone key v (FutureAdd f1) = Some f2"
  shows "vmap f2 = Some (m(key \<mapsto> v))"
proof -
  have i: "future_inv f1" "m = entries (fdones f)" using FutureWait_inv [OF assms(1,2)] by auto
  have "fdones f1 = fdones f" using assms(2) by (auto simp: FutureWait_def Let_def split: if_splits)
  moreover have "vmap (lazyInit (FutureAdd f1)) = Some (entries (fdones (FutureAdd f1)))" by (rule lazyInit_map [OF FutureAdd_inv [OF i(1)]])
  moreover have "fdones (FutureAdd f1) = fdones f1" by (simp add: FutureAdd_def)
  ultimately show ?thesis using assms(3) i(2) by (auto simp: FutureDone_def Let_def split: if_splits)
qed

end
