(* ===== verification/Spec2Isabelle.thy ===== *)
theory Spec2Isabelle
  imports Session Handshake BackendSpec Forwarding SentinelCall Waiting Resolver Admin Usage ModelsJson RespCodec Tokens Future
begin

text \<open>
  A verification library for the redis multi-live router, a proxy between redis clients and the
  redis servers of several data centres, called zones. A client speaks RESP to the proxy; a command
  on a key without a zone prefix or with the local one goes to the local zone, a SET is also written
  in the other zones, and a GET of another zone's key is fetched from there. The masters of the zones
  are followed through sentinels.

  \<^bold>\<open>Layers.\<close> Each theory models one part and imports those it calls.

  Foundations. \<open>Prelude\<close>: 64-bit integers written out, lists, the orders in which Go ranges over maps,
  the locales \<open>trans_sys\<close> (an invariant of a transition system) and \<open>refinement\<close> (its steps are steps of
  a smaller one). \<open>GoErrors\<close>: \<open>utils/errors\<close>, \<open>math2\<close>, \<open>atomic2\<close>. \<open>Strconv\<close>: integer parsing and printing,
  with the fast versions of \<open>decoder.go\<close> and \<open>encoder.go\<close>. \<open>Sizes\<close>: \<open>bytesize\<close> and \<open>timesize\<close>. \<open>Delay\<close>:
  \<open>proxy/delay.go\<close>. \<open>Offheap\<close>: \<open>utils/unsafe2\<close>, slices in C memory with their accounting.

  The protocol. \<open>BufReader\<close> and \<open>BufWriter\<close>: \<open>utils/bufio2\<close>, a reader over a script of reads and a writer
  over a script of write results. \<open>Resp\<close>, \<open>Decoder\<close>, \<open>Encoder\<close>: \<open>proxy/redis/{resp,decoder,encoder}.go\<close>.
  \<open>RespCodec\<close>: what decoder and encoder do together; its locale \<open>codec\<close> proves pipelining once for
  replies and for requests. \<open>Conn\<close>: \<open>proxy/redis/conn.go\<close>, deadlines and the flush encoder.

  Towards the servers. \<open>Request\<close>: requests, their copies, and the blocking queue (locale \<open>fifo\<close>).
  \<open>Backend\<close>: the goroutines of \<open>BackendConn\<close> of \<open>proxy/pool.go\<close>. \<open>BackendSpec\<close>: the mailbox they refine, which is
  what \<open>Zones\<close> takes a connection for. \<open>Handshake\<close>: its AUTH and SELECT.
  \<open>KeepAlive\<close>: its probes, on every level from one connection to the router. \<open>Info\<close>: the text of INFO,
  which \<open>pool.go\<close> and \<open>client.go\<close> parse alike. \<open>Pool\<close>: shared connections and their counts. \<open>Zones\<close>:
  \<open>proxy/zones.go\<close>. \<open>Forwarding\<close>: \<open>proxy/forward.go\<close>, and forwarding in two halves with a failover between them.
  \<open>Transaction\<close>: \<open>proxy/transaction.go\<close>. \<open>Router\<close>: dispatch of \<open>proxy/router.go\<close>.
  \<open>Failover\<close>: the rest of it, filling zones and following sentinels. \<open>Sentinel\<close>: \<open>utils/redis/sentinel.go\<close>; \<open>SentinelCall\<close>: one
  question of it, with a client made for it.
  \<open>Client\<close> and \<open>ClientPool\<close>: \<open>utils/redis/client.go\<close>.

  Towards the clients. \<open>Mapper\<close>: the command table of \<open>proxy/mapper.go\<close>. \<open>Stats\<close>: \<open>proxy/stats.go\<close>.
  \<open>Session\<close>: \<open>proxy/session.go\<close>, with both goroutines.

  The program. \<open>Config\<close>: \<open>proxy/config.go\<close>. \<open>Proxy\<close>: \<open>proxy/proxy.go\<close> with its goroutines, and the announced
  address of \<open>utils/resolver.go\<close>; \<open>Resolver\<close>: the rest of that file. \<open>Report\<close>: \<open>Overview\<close> and \<open>Stats\<close> of a
  proxy. \<open>Usage\<close>: the readings of \<open>utils/usage_linux.go\<close> and \<open>usage_rusage.go\<close>. \<open>Log\<close>, \<open>Rolling\<close>: \<open>utils/log\<close>,
  \<open>utils/trace\<close> and \<open>utils/assert\<close>. \<open>Rpc\<close>: \<open>utils/rpc/api.go\<close>. \<open>Tokens\<close>: \<open>utils/rpc/crypto.go\<close>. \<open>Admin\<close>:
  \<open>proxy/proxy_api.go\<close>, with the choice of a route by the vendored \<open>go-martini\<close>. \<open>ModelsJson\<close>: \<open>models/encode.go\<close>
  and what calls it. \<open>Startup\<close>: \<open>cmd/proxy/main.go\<close> and \<open>utils/args.go\<close>. \<open>Waiting\<close>: the loops that a clock
  drives, at the end of main, of the proxy and of a client pool. \<open>Future\<close>: \<open>utils/sync2/future.go\<close>.

  \<^bold>\<open>How code becomes a definition.\<close> A struct is a record, an enumeration or a tagged union a datatype;
  definitions keep the names of the code where they can (\<open>Close\<close> of a proxy is \<open>CloseProxy\<close>). Bytes and
  strings are lists of characters, a nil slice is None where the code tells it from an empty one. A
  method takes the state and returns it with its result. Errors are values of \<open>goerror\<close>; a result
  with an error is a sum. A panic of Go is None, one of the log is the left side of a sum. A map is a
  partial function, and the order of a range over it an argument. Pointers that matter are numbers
  into a store: shared connections, backend connections, requests, connections of clients, slices.
  What runs as goroutines is an inductive relation between states (\<open>bstep\<close>, \<open>kstep\<close>, \<open>session_step\<close>,
  \<open>chan_step\<close>, \<open>pool_step\<close>, \<open>router_step\<close>, \<open>cstep\<close>, \<open>pstep\<close>, \<open>ostep\<close>, \<open>gate_step\<close>, \<open>fstep\<close>); its steps are what happens
  under one lock or at one channel, so that a theorem about all its runs is one about all
  interleavings of those. Each is an interpretation of \<open>trans_sys\<close> with its invariant; the client pool and
  the backend connection are interpretations of \<open>refinement\<close> as well, each with its specification. A loop that
  a clock drives is a function of the list of what it meets.

  \<^bold>\<open>Parameters.\<close> What is not in the repository is an argument: the network (scripts of reads and writes
  with their errors; the effect of a command on a server, record \<open>net\<close>), \<open>redigo\<close>, JSON, TOML, HTTP,
  \<open>malloc\<close>, the file system, the clock, floating point, the letters outside ASCII, \<open>fmt\<close> and the call
  stack. Where a theorem needs something of them it is a named hypothesis (\<open>redis_zones\<close>: GET, SET and
  DEL of a server; \<open>redigo_laws\<close>: connections are numbered apart and stay closed; \<open>json_laws\<close>: what is
  printed is read back; \<open>json_views\<close>: reports are read back up to the fields JSON leaves out; \<open>reaches\<close>: requests
  get to the administration server), and its witness instantiates it.

  \<^bold>\<open>Fuel.\<close> The decoder recurses on nested arrays and loops over the reader, both with fuel. \<open>Decode_total\<close>
  and \<open>DecodeMultiBulk_total\<close> show that for every connection a fuel above its \<open>weight\<close>, which counts the
  bytes and reads that are left, gives a result; \<open>settles_mono\<close> shows that more changes nothing. Every
  other recursion ends by itself.

  \<^bold>\<open>What the theorems show.\<close> Data: a SET without prefix is all or nothing over the zones, a SET with the
  local prefix reaches each zone once, another zone's is refused, a GET reads through. Order: a
  session answers its requests in order in every interleaving, can always finish, and never forwards
  a forbidden command; a backend connection answers what it took at most once, with the reply that
  belongs to it, and is a mailbox to its callers. Connections: what is counted is held, what is closed is
  held by nobody, each zone of a router has an open connection through every failover; a connection
  is used only after its handshake, its state says what it is, and every idle one is probed; the
  client pool leaks nothing and refines a set of idle connections, and asking a sentinel leaves no
  connection open. Protocol: decoding undoes
  encoding, for one value and for streams in pieces of any size, ends on every input, and nothing
  but a prefix of what was encoded is ever sent; the fast integer routines equal the library's.
  Program: what comes up serves, what cannot come up leaves nothing open, a shutdown ends, and main with
  it; counters are exact; the usage of the system is read as the kernel wrote it, and every report arrives at
  the one who asks the administration server; the configuration that is accepted is in range; the log's files hold what was written while their time was current. Beside them stand smaller
  theorems on the same parts: round trips of sizes, durations, INFO and addresses, the framing of
  requests, the growth of delays, the levels of the log, the number of processors, and lemmas that
  show where the code does not do what it means to, such as \<open>flush_skipped\<close>, \<open>lost_on_close\<close>,
  \<open>stale_master_wins\<close>, \<open>switch_gives_up\<close>, \<open>ping_on_full_queue\<close>, \<open>SetMaster_counts\<close>, \<open>failed_sample_panics\<close>,
  \<open>space_breaks_reports\<close> and \<open>forward_races\<close>.

  \<^bold>\<open>Not modelled.\<close> \<open>unsafe2/string.go\<close>, a cast of pointers that is the identity on values, and \<open>cgo_malloc.go\<close>
  and \<open>je_malloc.go\<close>, the calls of the allocator that is a parameter of \<open>Offheap\<close>; \<open>version.go\<close>, generated
  constants; the printing of versions and of the default configuration; compression, content types and the pages
  under \<open>/debug/\<close> of the administration server; methods that only read a field or pass a call on to the
  library; and lines of the log in the middle of other code.
\<close>

end
